(* ===== verification/F64.thy ===== *)
theory F64
  imports Prelude "HOL-Library.Log_Nat"
begin

text \<open>
  Rust's \<open>f64\<close>, IEEE 754 binary64, as far as the daemon's clock and windows use it: NaN
  and the infinities, comparison, subtraction, addition, multiplication, \<open>round\<close>, \<open>max\<close>
  and the saturating cast to \<open>u64\<close>. A finite value is the rational it denotes, and every
  arithmetic result is rounded to nearest, ties to even, on the grid of 53-bit
  significands with the exponent bounded below (subnormals) and above (overflow to an
  infinity). The two zeros are one value here: they compare equal, and nothing in the
  daemon divides by one or prints its sign.
\<close>

section \<open>Rounding to 53 bits\<close>

definition rat_exp :: "rat \<Rightarrow> int" where
  "rat_exp x =
    (let (n, d) = quotient_of x; g = bitlen n - bitlen d
     in if 2 powi g \<le> x then g else g - 1)"

definition round_even :: "rat \<Rightarrow> int" where
  "round_even q =
    (let f = \<lfloor>q\<rfloor>; r = q - of_int f
     in if r < 1 / 2 then f else if 1 / 2 < r then f + 1 else if even f then f else f + 1)"

definition ulp_exp :: "rat \<Rightarrow> int" where
  "ulp_exp x = max (rat_exp x - 52) (-1074)"

definition round_pos :: "rat \<Rightarrow> rat" where
  "round_pos x = (let u = 2 powi ulp_exp x in of_int (round_even (x / u)) * u)"

definition round53 :: "rat \<Rightarrow> rat" where
  "round53 x = (if x = 0 then 0 else if 0 < x then round_pos x else - round_pos (- x))"

lemma bitlen_powi:
  assumes "0 < n"
  shows "(2::rat) powi (bitlen n - 1) \<le> of_int n" and "of_int n < (2::rat) powi bitlen n"
proof -
  from assms have p: "1 \<le> bitlen n" by (simp add: bitlen_le_iff_power not_le [symmetric])
                                          (metis bitlen_nonneg bitlen_eq_zero_iff int_one_le_iff_zero_less less_le not_less)
  from bitlen_bounds [OF assms]
  have b: "(2::int) ^ nat (bitlen n - 1) \<le> n" "n < 2 ^ nat (bitlen n)" by auto
  have "(2::rat) ^ nat (bitlen n - 1) \<le> of_int n"
    using b(1) by (metis of_int_le_iff of_int_numeral of_int_power)
  with p show "(2::rat) powi (bitlen n - 1) \<le> of_int n"
    by (simp add: power_int_def)
  have "of_int n < (2::rat) ^ nat (bitlen n)"
    using b(2) by (metis of_int_less_iff of_int_numeral of_int_power)
  with p show "of_int n < (2::rat) powi bitlen n"
    by (simp add: power_int_def)
qed

text \<open>\<open>rat_exp\<close> is the exponent of the leading bit.\<close>

lemma rat_exp_bounds:
  assumes "0 < x"
  shows "2 powi rat_exp x \<le> x" and "x < 2 powi (rat_exp x + 1)"
proof -
  obtain n d where q: "quotient_of x = (n, d)" by (cases "quotient_of x")
  then have d: "0 < d" and x: "x = of_int n / of_int d"
    by (simp_all add: quotient_of_denom_pos quotient_of_div)
  with assms have n: "0 < n" by (simp add: zero_less_divide_iff)
  define g where "g = bitlen n - bitlen d"
  note N = bitlen_powi [OF n] and D = bitlen_powi [OF d]
  have dpos: "(0::rat) < of_int d" using d by simp
  have hi: "x < 2 powi (g + 1)"
  proof -
    have "(2::rat) powi (g + 1) * 2 powi (bitlen d - 1) = 2 powi bitlen n"
      by (simp add: g_def flip: power_int_add)
    moreover have "(2::rat) powi (g + 1) * 2 powi (bitlen d - 1) \<le> 2 powi (g + 1) * of_int d"
      using D(1) by (intro mult_left_mono) auto
    ultimately have "of_int n < 2 powi (g + 1) * (of_int d :: rat)" using N(2) by linarith
    then show ?thesis using dpos by (simp add: x divide_less_eq)
  qed
  have lo: "2 powi (g - 1) \<le> x"
  proof -
    have "(2::rat) powi (g - 1) * 2 powi bitlen d = 2 powi (bitlen n - 1)"
      by (simp add: g_def flip: power_int_add)
    moreover have "(2::rat) powi (g - 1) * of_int d \<le> 2 powi (g - 1) * 2 powi bitlen d"
      using D(2) by (intro mult_left_mono) auto
    ultimately have "2 powi (g - 1) * (of_int d :: rat) \<le> of_int n" using N(1) by linarith
    then show ?thesis using dpos by (simp add: x le_divide_eq)
  qed
  have e: "rat_exp x = (if 2 powi g \<le> x then g else g - 1)"
    by (simp add: rat_exp_def q g_def Let_def)
  show "2 powi rat_exp x \<le> x" using lo by (simp add: e)
  show "x < 2 powi (rat_exp x + 1)" using hi by (simp add: e not_le)
qed

lemma rat_exp_mono:
  assumes "0 < x" "x \<le> y"
  shows "rat_exp x \<le> rat_exp y"
proof (rule ccontr)
  assume "\<not> rat_exp x \<le> rat_exp y"
  then have "rat_exp y + 1 \<le> rat_exp x" by simp
  then have "(2::rat) powi (rat_exp y + 1) \<le> 2 powi rat_exp x"
    by (simp add: power_int_increasing)
  with rat_exp_bounds [of x] rat_exp_bounds [of y] assms show False by linarith
qed

lemma round_even_of_int [simp]: "round_even (of_int k) = k"
  by (simp add: round_even_def)

lemma round_even_near: "\<bar>of_int (round_even q) - q\<bar> \<le> 1 / 2"
proof -
  have "of_int \<lfloor>q\<rfloor> \<le> q" and "q < of_int \<lfloor>q\<rfloor> + 1" by linarith+
  then show ?thesis by (auto simp: round_even_def Let_def abs_le_iff not_less)
qed

lemma round_even_mono:
  assumes "p \<le> q"
  shows "round_even p \<le> round_even q"
proof (cases "\<lfloor>p\<rfloor> = \<lfloor>q\<rfloor>")
  case True
  with assms show ?thesis by (auto simp: round_even_def Let_def)
next
  case False
  with assms have "\<lfloor>p\<rfloor> + 1 \<le> \<lfloor>q\<rfloor>"
    using floor_mono [OF assms] by linarith
  then show ?thesis by (auto simp: round_even_def Let_def)
qed

text \<open>The significand of a rounded value fits in 53 bits (\<open>2 ^ 53\<close> itself included).\<close>

lemma scaled_bound:
  assumes "0 < x"
  shows "x / 2 powi ulp_exp x \<le> of_int (2 ^ 53)"
proof -
  have "rat_exp x + 1 \<le> ulp_exp x + 53" by (simp add: ulp_exp_def)
  then have "(2::rat) powi (rat_exp x + 1) \<le> 2 powi (ulp_exp x + 53)"
    by (simp add: power_int_increasing)
  with rat_exp_bounds(2) [OF assms] have "x \<le> 2 powi (ulp_exp x + 53)" by linarith
  then show ?thesis by (simp add: power_int_add divide_le_eq mult.commute)
qed

lemma round_pos_nonneg: "0 < x \<Longrightarrow> 0 \<le> round_pos x"
  using round_even_mono [of 0 "x / 2 powi ulp_exp x"]
  by (simp add: round_pos_def Let_def round_even_of_int [of 0, simplified])

lemma round_pos_mono:
  assumes "0 < x" "x \<le> y"
  shows "round_pos x \<le> round_pos y"
proof (cases "ulp_exp x = ulp_exp y")
  case True
  with assms have "x / 2 powi ulp_exp x \<le> y / 2 powi ulp_exp y"
    by (simp add: divide_right_mono)
  from round_even_mono [OF this] True show ?thesis
    by (simp add: round_pos_def Let_def)
next
  case False
  have y: "0 < y" using assms by simp
  have "ulp_exp x \<le> ulp_exp y"
    using rat_exp_mono [OF assms] by (simp add: ulp_exp_def)
  with False have lt: "ulp_exp x + 1 \<le> ulp_exp y" by simp
  then have ey: "ulp_exp y + 52 = rat_exp y" by (simp add: ulp_exp_def)
  from round_even_mono [OF scaled_bound [OF assms(1)]]
  have "of_int (round_even (x / 2 powi ulp_exp x)) \<le> (2 ^ 53 :: rat)"
    by (metis of_int_le_iff of_int_numeral of_int_power round_even_of_int)
  then have "round_pos x \<le> 2 ^ 53 * 2 powi ulp_exp x"
    by (simp add: round_pos_def Let_def)
  also have "\<dots> = 2 powi (ulp_exp x + 53)"
    by (simp add: power_int_add mult.commute)
  also have "\<dots> \<le> 2 powi (ulp_exp y + 52)"
    using lt by (simp add: power_int_increasing)
  also have "\<dots> \<le> round_pos y"
  proof -
    have "of_int (2 ^ 52) \<le> y / 2 powi ulp_exp y"
      using rat_exp_bounds(1) [OF y] unfolding ey [symmetric]
      by (simp add: power_int_add le_divide_eq mult.commute)
    from round_even_mono [OF this]
    have "(2 ^ 52 :: rat) \<le> of_int (round_even (y / 2 powi ulp_exp y))"
      by (metis of_int_le_iff of_int_numeral of_int_power round_even_of_int)
    then have "2 ^ 52 * 2 powi ulp_exp y \<le> round_pos y"
      by (simp add: round_pos_def Let_def)
    then show ?thesis by (simp add: power_int_add mult.commute)
  qed
  finally show ?thesis .
qed

lemma round53_mono: "x \<le> y \<Longrightarrow> round53 x \<le> round53 y"
  using round_pos_mono [of x y] round_pos_mono [of "- y" "- x"]
    round_pos_nonneg [of y] round_pos_nonneg [of "- x"]
  by (auto simp: round53_def)

text \<open>Every value with a 53-bit significand on the grid is its own rounding.\<close>

lemma round_pos_exact:
  assumes m: "0 < m" "m \<le> 2 ^ 53" and k: "-1074 \<le> k"
  shows "round_pos (of_int m * 2 powi k) = of_int m * 2 powi k"
proof -
  define r where "r = (of_int m * 2 powi k :: rat)"
  have r: "0 < r" using m by (simp add: r_def)
  have "\<exists>i. r / 2 powi ulp_exp r = of_int i"
  proof (cases "ulp_exp r \<le> k")
    case True
    then have "(2::rat) powi k = 2 ^ nat (k - ulp_exp r) * 2 powi ulp_exp r"
      by (simp add: power_int_def [of 2 "k - ulp_exp r", symmetric]
          flip: power_int_add power_int_of_nat)
    then have "2 powi k / 2 powi ulp_exp r = (2::rat) ^ nat (k - ulp_exp r)"
      by (simp add: divide_eq_eq)
    then have "r / 2 powi ulp_exp r = of_int (m * 2 ^ nat (k - ulp_exp r))"
      unfolding of_int_mult of_int_power of_int_numeral
      by (subst r_def) (simp only: times_divide_eq_right [symmetric])
    then show ?thesis by blast
  next
    case False
    with k have e: "ulp_exp r = rat_exp r - 52" by (simp add: ulp_exp_def max_def split: if_splits)
    with False have "k + 53 \<le> rat_exp r" by simp
    then have "(2::rat) powi (k + 53) \<le> 2 powi rat_exp r" by (simp add: power_int_increasing)
    with rat_exp_bounds(1) [OF r] have "2 powi (k + 53) \<le> r" by linarith
    then have "(2 ^ 53 :: rat) \<le> of_int m" by (simp add: r_def power_int_add mult.commute)
    then have "2 ^ 53 \<le> m" by (metis of_int_le_iff of_int_numeral of_int_power)
    with m have "m = 2 ^ 53" by simp
    then have rr: "r = 2 powi (k + 53)" by (simp add: r_def power_int_add mult.commute)
    have "(2::rat) powi rat_exp r < 2 powi (k + 54)"
      using rat_exp_bounds(1) [OF r] unfolding rr
      by (rule le_less_trans) (simp add: power_int_strict_increasing)
    then have "rat_exp r < k + 54"
      by (metis linorder_not_less one_le_numeral power_int_increasing)
    with e False have "ulp_exp r = k + 1" by simp
    then have "r / 2 powi ulp_exp r = of_int (2 ^ 52)"
      by (simp add: rr power_int_add)
    then show ?thesis by blast
  qed
  then obtain i where "r / 2 powi ulp_exp r = of_int i" by blast
  then have "round_pos r = r"
    by (simp add: round_pos_def Let_def) (metis eq_divide_eq power_int_not_zero zero_neq_numeral)
  then show ?thesis by (simp add: r_def)
qed

lemma round53_exact:
  assumes "\<bar>m\<bar> \<le> 2 ^ 53" "-1074 \<le> k"
  shows "round53 (of_int m * 2 powi k) = of_int m * 2 powi k"
proof -
  consider "m = 0" | "0 < m" | "m < 0" by linarith
  then show ?thesis
  proof cases
    case 1
    then show ?thesis by (simp add: round53_def)
  next
    case 2
    with assms show ?thesis by (simp add: round53_def round_pos_exact)
  next
    case 3
    then have "(of_int m * 2 powi k :: rat) < 0"
      by (simp add: mult_less_0_iff)
    with 3 assms round_pos_exact [of "- m" k] show ?thesis
      by (simp add: round53_def)
  qed
qed

lemma round53_of_int [simp]:
  assumes "\<bar>m\<bar> \<le> 2 ^ 53"
  shows "round53 (of_int m) = of_int m"
  using round53_exact [OF assms, of 0] by simp

lemma round53_idem: "round53 (round53 x) = round53 x"
proof -
  have pos: "round53 (round_pos x) = round_pos x" if x: "0 < x" for x
  proof -
    from round_even_mono [OF scaled_bound [OF x]]
    have "round_even (x / 2 powi ulp_exp x) \<le> 2 ^ 53"
      by (metis round_even_of_int)
    moreover have "0 \<le> round_even (x / 2 powi ulp_exp x)"
      using round_even_mono [of 0 "x / 2 powi ulp_exp x"] x
      by (simp add: round_even_of_int [of 0, simplified])
    ultimately show ?thesis
      by (simp add: round_pos_def Let_def round53_exact ulp_exp_def)
  qed
  have neg: "round53 (- y) = - round53 y" for y by (simp add: round53_def)
  consider "x = 0" | "0 < x" | "0 < - x" by linarith
  then show ?thesis
  proof cases
    case 1
    then show ?thesis by (simp add: round53_def)
  next
    case 2
    then show ?thesis using pos by (simp add: round53_def [of x])
  next
    case 3
    then show ?thesis using pos [of "- x"] neg [of "round_pos (- x)"]
      by (simp add: round53_def [of x])
  qed
qed

section \<open>The type and its operations\<close>

datatype f64 = NaN | NInf | PInf | Fin rat

text \<open>The largest finite value is below \<open>2 ^ 1024\<close>; a rounded result that reaches it overflows.\<close>

definition mk_f64 :: "rat \<Rightarrow> f64" where
  "mk_f64 x =
    (let r = round53 x
     in if 2 ^ 1024 \<le> r then PInf else if r \<le> - (2 ^ 1024) then NInf else Fin r)"

text \<open>A value a double can hold.\<close>

definition f64_ok :: "f64 \<Rightarrow> bool" where
  "f64_ok a \<longleftrightarrow> (case a of Fin r \<Rightarrow> mk_f64 r = Fin r | _ \<Rightarrow> True)"

instantiation f64 :: "{zero, one, plus, minus, times, ord}"
begin

definition zero_f64 :: f64 where "zero_f64 = Fin 0"

definition one_f64 :: f64 where "one_f64 = Fin 1"

fun plus_f64 :: "f64 \<Rightarrow> f64 \<Rightarrow> f64" where
  "plus_f64 (Fin a) (Fin b) = mk_f64 (a + b)"
| "plus_f64 NaN _ = NaN"
| "plus_f64 _ NaN = NaN"
| "plus_f64 PInf NInf = NaN"
| "plus_f64 NInf PInf = NaN"
| "plus_f64 PInf _ = PInf"
| "plus_f64 _ PInf = PInf"
| "plus_f64 NInf _ = NInf"
| "plus_f64 _ NInf = NInf"

fun minus_f64 :: "f64 \<Rightarrow> f64 \<Rightarrow> f64" where
  "minus_f64 (Fin a) (Fin b) = mk_f64 (a - b)"
| "minus_f64 NaN _ = NaN"
| "minus_f64 _ NaN = NaN"
| "minus_f64 PInf PInf = NaN"
| "minus_f64 NInf NInf = NaN"
| "minus_f64 PInf _ = PInf"
| "minus_f64 _ PInf = NInf"
| "minus_f64 NInf _ = NInf"
| "minus_f64 _ NInf = PInf"

fun times_f64 :: "f64 \<Rightarrow> f64 \<Rightarrow> f64" where
  "times_f64 (Fin a) (Fin b) = mk_f64 (a * b)"
| "times_f64 NaN _ = NaN"
| "times_f64 _ NaN = NaN"
| "times_f64 (Fin a) PInf = (if a = 0 then NaN else if 0 < a then PInf else NInf)"
| "times_f64 (Fin a) NInf = (if a = 0 then NaN else if 0 < a then NInf else PInf)"
| "times_f64 PInf (Fin a) = (if a = 0 then NaN else if 0 < a then PInf else NInf)"
| "times_f64 NInf (Fin a) = (if a = 0 then NaN else if 0 < a then NInf else PInf)"
| "times_f64 PInf PInf = PInf"
| "times_f64 NInf NInf = PInf"
| "times_f64 _ _ = NInf"

text \<open>Every comparison with NaN is false, so this is no order.\<close>

fun less_f64 :: "f64 \<Rightarrow> f64 \<Rightarrow> bool" where
  "less_f64 (Fin a) (Fin b) = (a < b)"
| "less_f64 NaN _ = False"
| "less_f64 _ NaN = False"
| "less_f64 _ NInf = False"
| "less_f64 PInf _ = False"
| "less_f64 NInf _ = True"
| "less_f64 _ PInf = True"

fun less_eq_f64 :: "f64 \<Rightarrow> f64 \<Rightarrow> bool" where
  "less_eq_f64 (Fin a) (Fin b) = (a \<le> b)"
| "less_eq_f64 NaN _ = False"
| "less_eq_f64 _ NaN = False"
| "less_eq_f64 NInf _ = True"
| "less_eq_f64 _ PInf = True"
| "less_eq_f64 _ _ = False"

instance ..

end

lemma zero_f64_not_NaN [simp]: "(0::f64) \<noteq> NaN"
  by (simp add: zero_f64_def)

lemma NaN_arith [simp]:
  "NaN - a = NaN" "a - NaN = NaN" "NaN + a = NaN" "a + NaN = NaN" "NaN * a = NaN" "a * NaN = NaN"
  by (cases a; simp)+

lemma NaN_compare [simp]:
  "\<not> NaN < a" "\<not> a < NaN" "\<not> NaN \<le> a" "\<not> a \<le> NaN"
  by (cases a; simp)+

lemma f64_not_less_and_ge: "a < b \<Longrightarrow> \<not> b \<le> (a::f64)"
  by (cases a; cases b) auto

lemma mk_f64_of_int [simp]: "\<bar>m\<bar> \<le> 2 ^ 53 \<Longrightarrow> mk_f64 (of_int m) = Fin (of_int m)"
proof -
  assume m: "\<bar>m\<bar> \<le> 2 ^ 53"
  then have "(of_int m :: rat) \<le> of_int (2 ^ 53)" and "of_int (- (2 ^ 53)) \<le> (of_int m :: rat)"
    by (simp_all only: of_int_le_iff)
  moreover have "of_int (2 ^ 53) < (2 ^ 1024 :: rat)" by simp
  ultimately have "\<not> 2 ^ 1024 \<le> (of_int m :: rat)" and "\<not> (of_int m :: rat) \<le> - (2 ^ 1024)"
    by (auto simp only: of_int_minus)
  with m show ?thesis by (simp add: mk_f64_def Let_def)
qed

lemma mk_f64_mono: "x \<le> y \<Longrightarrow> mk_f64 x \<le> mk_f64 y"
  using round53_mono [of x y] by (auto simp: mk_f64_def Let_def)

definition f64_round :: "f64 \<Rightarrow> f64" where
  "f64_round a =
    (case a of Fin r \<Rightarrow> Fin (if 0 \<le> r then of_int \<lfloor>r + 1 / 2\<rfloor> else - of_int \<lfloor>- r + 1 / 2\<rfloor>)
     | _ \<Rightarrow> a)"

definition f64_max :: "f64 \<Rightarrow> f64 \<Rightarrow> f64" where
  "f64_max a b = (if a = NaN then b else if b = NaN then a else if a < b then b else a)"

text \<open>\<open>as u64\<close> truncates and saturates, and sends NaN to 0.\<close>

definition f64_as_u64 :: "f64 \<Rightarrow> nat" where
  "f64_as_u64 a =
    (case a of NaN \<Rightarrow> 0 | NInf \<Rightarrow> 0 | PInf \<Rightarrow> 2 ^ 64 - 1
     | Fin r \<Rightarrow> nat (max 0 (min (2 ^ 64 - 1) \<lfloor>r\<rfloor>)))"

lemma f64_as_u64_bound: "f64_as_u64 a < 2 ^ 64"
proof (cases a)
  case (Fin r)
  have "nat (max 0 (min (2 ^ 64 - 1) \<lfloor>r\<rfloor>)) \<le> nat (2 ^ 64 - 1)"
    by (rule nat_mono) simp
  with Fin show ?thesis by (simp add: f64_as_u64_def)
qed (simp_all add: f64_as_u64_def)

section \<open>What a rounded difference says about the exact one\<close>

text \<open>
  The clock code compares a rounded difference with a window. Two laws are all it needs
  of rounding: it is monotone, and it leaves alone what can be represented.
\<close>

locale rounding =
  fixes rnd :: "rat \<Rightarrow> f64" and rep :: "rat \<Rightarrow> bool"
  assumes rnd_mono: "x \<le> y \<Longrightarrow> rnd x \<le> rnd y"
    and rnd_exact: "rep r \<Longrightarrow> rnd r = Fin r"
begin

lemma rnd_not_NaN: "rnd x \<noteq> NaN"
  using rnd_mono [of x x] by auto

text \<open>A rounded value below a representable bound was below it before rounding.\<close>

lemma below_bound: "rep w \<Longrightarrow> rnd x < Fin w \<Longrightarrow> x < w"
  using rnd_mono [of w x] rnd_exact [of w] f64_not_less_and_ge by (metis not_less)

end

interpretation f64: rounding mk_f64 "\<lambda>r. f64_ok (Fin r)"
  by unfold_locales (auto simp: mk_f64_mono f64_ok_def)

lemma f64_ok_of_int [simp]: "\<bar>m\<bar> \<le> 2 ^ 53 \<Longrightarrow> f64_ok (Fin (of_int m))"
  by (simp add: f64_ok_def)

lemma f64_ok_numeral [simp]: "(numeral n :: int) \<le> 2 ^ 53 \<Longrightarrow> f64_ok (Fin (numeral n))"
  using f64_ok_of_int [of "numeral n"] by simp

lemma mk_f64_numeral [simp]:
  "(numeral n :: int) \<le> 2 ^ 53 \<Longrightarrow> mk_f64 (numeral n) = Fin (numeral n)"
  "(numeral n :: int) \<le> 2 ^ 53 \<Longrightarrow> mk_f64 (- numeral n) = Fin (- numeral n)"
  using mk_f64_of_int [of "numeral n"] mk_f64_of_int [of "- numeral n"] by simp_all

lemma mk_f64_0 [simp]: "mk_f64 0 = Fin 0"
  using mk_f64_of_int [of 0] by simp

lemma mk_f64_1 [simp]: "mk_f64 1 = Fin 1"
  using mk_f64_of_int [of 1] by simp

end
