(* ===== verification/Rust_Str.thy ===== *)
theory Rust_Str
  imports Prelude
begin

text \<open>
  The operations of Rust's \<open>str\<close> and \<open>String\<close> the daemon uses. A Rust string is its
  UTF-8 bytes; here it is a \<open>string\<close> whose \<open>char\<close>s are those bytes, so slicing, searching
  and length work on bytes exactly as in Rust, and \<open>chars()\<close> groups a leading byte with
  its continuation bytes.
\<close>

section \<open>Bytes and strings\<close>

abbreviation code :: "char \<Rightarrow> nat" where
  "code c \<equiv> of_char c"

definition as_bytes :: "string \<Rightarrow> bytes" where
  "as_bytes s = map of_char s"

definition of_bytes :: "bytes \<Rightarrow> string" where
  "of_bytes bs = map (\<lambda>b. char_of (unat b)) bs"

lemma unat_of_char [simp]: "unat (of_char c :: byte) = of_char c"
proof -
  have "unat (of_nat (code c) :: byte) = code c"
    using nat_of_char_less_256 [of c] by (simp add: unat_of_nat)
  then show ?thesis by (simp only: of_nat_of_char)
qed

lemma of_bytes_as_bytes [simp]: "of_bytes (as_bytes s) = s"
  by (simp add: of_bytes_def as_bytes_def comp_def map_idI)

lemma as_bytes_of_bytes [simp]: "as_bytes (of_bytes bs) = bs"
proof -
  have "of_char (char_of (unat b) :: char) = b" for b :: byte
  proof -
    have "unat b < 256" using unsigned_less [of b, where 'a = nat] by simp
    then have "code (char_of (unat b)) = unat b" by simp
    then have "(of_nat (code (char_of (unat b))) :: byte) = b" by simp
    then show ?thesis by (simp only: of_nat_of_char)
  qed
  then show ?thesis by (simp add: of_bytes_def as_bytes_def comp_def map_idI)
qed

lemma length_as_bytes [simp]: "length (as_bytes s) = length s"
  by (simp add: as_bytes_def)

lemma length_of_bytes [simp]: "length (of_bytes bs) = length bs"
  by (simp add: of_bytes_def)

lemma as_bytes_inject [simp]: "as_bytes s = as_bytes t \<longleftrightarrow> s = t"
  by (metis of_bytes_as_bytes)

section \<open>Characters of a UTF-8 string\<close>

definition is_cont :: "char \<Rightarrow> bool" where
  "is_cont c \<longleftrightarrow> 128 \<le> code c \<and> code c < 192"

fun utf8_chars :: "string \<Rightarrow> string list" where
  "utf8_chars [] = []"
| "utf8_chars (c # cs) = (c # takeWhile is_cont cs) # utf8_chars (dropWhile is_cont cs)"

definition char_count :: "string \<Rightarrow> nat" where
  "char_count s = length (utf8_chars s)"

lemma concat_utf8_chars [simp]: "concat (utf8_chars s) = s"
  by (induction s rule: utf8_chars.induct) auto

definition utf8_group :: "string \<Rightarrow> bool" where
  "utf8_group g \<longleftrightarrow> g \<noteq> [] \<and> (\<forall>c \<in> set (tl g). is_cont c)"

lemma utf8_chars_group: "g \<in> set (utf8_chars s) \<Longrightarrow> utf8_group g"
proof (induction s rule: utf8_chars.induct)
  case 1
  then show ?case by simp
next
  case (2 c cs)
  have "utf8_group (c # takeWhile is_cont cs)"
    by (auto simp only: utf8_group_def list.sel dest: set_takeWhileD)
  with 2 show ?case by auto
qed

text \<open>Groups that start with a leading byte are what \<open>utf8_chars\<close> splits back into.\<close>

lemma utf8_chars_concat:
  assumes "\<And>g. g \<in> set gs \<Longrightarrow> utf8_group g \<and> \<not> is_cont (hd g)"
  shows "utf8_chars (concat gs) = gs"
  using assms
proof (induction gs)
  case Nil
  then show ?case by simp
next
  case (Cons g gs)
  from Cons.prems [of g] obtain c cs where g: "g = c # cs" and cs: "\<forall>x \<in> set cs. is_cont x"
    by (cases g) (auto simp: utf8_group_def)
  have stop: "takeWhile is_cont (concat gs) = []"
  proof (cases gs)
    case Nil
    then show ?thesis by simp
  next
    case (Cons h hs)
    with Cons.prems [of h] show ?thesis
      by (cases h) (auto simp: utf8_group_def)
  qed
  have tw: "takeWhile is_cont (cs @ concat gs) = cs"
    using cs stop by (simp add: takeWhile_append2)
  have dw: "dropWhile is_cont (cs @ concat gs) = concat gs"
  proof -
    have "dropWhile is_cont (concat gs) = concat gs"
      using stop by (metis takeWhile_append_dropWhile append_Nil)
    with cs show ?thesis by (simp add: dropWhile_append2)
  qed
  from Cons have "utf8_chars (concat gs) = gs" by simp
  with g tw dw show ?case by simp
qed

text \<open>A string that does not begin inside a character; every prefix cut is one too.\<close>

definition starts_clean :: "string \<Rightarrow> bool" where
  "starts_clean s \<longleftrightarrow> (case s of [] \<Rightarrow> True | c # _ \<Rightarrow> \<not> is_cont c)"

lemma utf8_chars_clean:
  "starts_clean s \<Longrightarrow> g \<in> set (utf8_chars s) \<Longrightarrow> \<not> is_cont (hd g)"
proof (induction s rule: utf8_chars.induct)
  case 1
  then show ?case by simp
next
  case (2 c cs)
  have "starts_clean (dropWhile is_cont cs)"
    by (auto simp: starts_clean_def dest: hd_dropWhile split: list.splits)
       (metis hd_dropWhile list.sel(1) list.simps(3))
  with 2 show ?case by (auto simp: starts_clean_def)
qed

lemma char_count_append:
  assumes "starts_clean s" "starts_clean t"
  shows "char_count (s @ t) = char_count s + char_count t"
proof -
  have "utf8_chars (concat (utf8_chars s @ utf8_chars t)) = utf8_chars s @ utf8_chars t"
    by (rule utf8_chars_concat) (use assms utf8_chars_clean utf8_chars_group in auto)
  then show ?thesis by (simp add: char_count_def)
qed

lemma char_count_take:
  assumes "starts_clean s"
  shows "char_count (concat (take n (utf8_chars s))) = min n (char_count s)"
proof -
  have "utf8_chars (concat (take n (utf8_chars s))) = take n (utf8_chars s)"
    by (rule utf8_chars_concat)
       (use assms utf8_chars_clean utf8_chars_group in \<open>auto dest: in_set_takeD\<close>)
  then show ?thesis by (simp add: char_count_def min.commute)
qed

section \<open>Whitespace\<close>

text \<open>The characters with the Unicode property White_Space, in UTF-8.\<close>

definition ws_chars :: "string list" where
  "ws_chars =
    [[CHR 0x09], [CHR 0x0A], [CHR 0x0B], [CHR 0x0C], [CHR 0x0D], [CHR 0x20],
     [CHR 0xC2, CHR 0x85], [CHR 0xC2, CHR 0xA0], [CHR 0xE1, CHR 0x9A, CHR 0x80],
     [CHR 0xE2, CHR 0x80, CHR 0x80], [CHR 0xE2, CHR 0x80, CHR 0x81],
     [CHR 0xE2, CHR 0x80, CHR 0x82], [CHR 0xE2, CHR 0x80, CHR 0x83],
     [CHR 0xE2, CHR 0x80, CHR 0x84], [CHR 0xE2, CHR 0x80, CHR 0x85],
     [CHR 0xE2, CHR 0x80, CHR 0x86], [CHR 0xE2, CHR 0x80, CHR 0x87],
     [CHR 0xE2, CHR 0x80, CHR 0x88], [CHR 0xE2, CHR 0x80, CHR 0x89],
     [CHR 0xE2, CHR 0x80, CHR 0x8A], [CHR 0xE2, CHR 0x80, CHR 0xA8],
     [CHR 0xE2, CHR 0x80, CHR 0xA9], [CHR 0xE2, CHR 0x80, CHR 0xAF],
     [CHR 0xE2, CHR 0x81, CHR 0x9F], [CHR 0xE3, CHR 0x80, CHR 0x80]]"

definition is_ws :: "string \<Rightarrow> bool" where
  "is_ws g \<longleftrightarrow> List.member ws_chars g"

definition is_ascii_ws :: "char \<Rightarrow> bool" where
  "is_ascii_ws c \<longleftrightarrow> c \<in> {CHR 0x09, CHR 0x0A, CHR 0x0C, CHR 0x0D, CHR 0x20}"

definition trim_by :: "(string \<Rightarrow> bool) \<Rightarrow> string \<Rightarrow> string" where
  "trim_by p s = concat (rev (dropWhile p (rev (dropWhile p (utf8_chars s)))))"

abbreviation trim :: "string \<Rightarrow> string" where
  "trim \<equiv> trim_by is_ws"

text \<open>\<open>split_whitespace\<close>: the accumulator is the word being read.\<close>

fun words_acc :: "string \<Rightarrow> string list \<Rightarrow> string list" where
  "words_acc w [] = (if w = [] then [] else [w])"
| "words_acc w (g # gs) =
     (if is_ws g then (if w = [] then words_acc [] gs else w # words_acc [] gs)
      else words_acc (w @ g) gs)"

definition split_whitespace :: "string \<Rightarrow> string list" where
  "split_whitespace s = words_acc [] (utf8_chars s)"

section \<open>Searching and splitting\<close>

fun starts_with :: "string \<Rightarrow> string \<Rightarrow> bool" where
  "starts_with s [] = True"
| "starts_with [] (p # ps) = False"
| "starts_with (c # cs) (p # ps) = (c = p \<and> starts_with cs ps)"

definition ends_with :: "string \<Rightarrow> string \<Rightarrow> bool" where
  "ends_with s p \<longleftrightarrow> starts_with (rev s) (rev p)"

fun find_sub :: "string \<Rightarrow> string \<Rightarrow> nat option" where
  "find_sub [] p = (if p = [] then Some 0 else None)"
| "find_sub (c # cs) p = (if starts_with (c # cs) p then Some 0 else map_option Suc (find_sub cs p))"

definition contains :: "string \<Rightarrow> string \<Rightarrow> bool" where
  "contains s p \<longleftrightarrow> find_sub s p \<noteq> None"

definition split_once :: "string \<Rightarrow> string \<Rightarrow> (string \<times> string) option" where
  "split_once s p = map_option (\<lambda>i. (take i s, drop (i + length p) s)) (find_sub s p)"

definition strip_prefix :: "string \<Rightarrow> string \<Rightarrow> string option" where
  "strip_prefix s p = (if starts_with s p then Some (drop (length p) s) else None)"

text \<open>Splitting on one byte that is a whole character (\<open>','\<close>, \<open>'/'\<close>, \<open>':'\<close>, newline).\<close>

fun split_on :: "'a \<Rightarrow> 'a list \<Rightarrow> 'a list list" where
  "split_on c [] = [[]]"
| "split_on c (x # xs) =
     (if x = c then [] # split_on c xs
      else (case split_on c xs of [] \<Rightarrow> [[x]] | y # ys \<Rightarrow> (x # y) # ys))"

lemma split_on_not_Nil: "split_on c s \<noteq> []"
  by (cases "split_on c s"; cases s) (auto split: list.splits if_splits)

lemma split_on_no: "c \<notin> set s \<Longrightarrow> split_on c s = [s]"
  by (induction s) auto

lemma split_on_line: "c \<notin> set s \<Longrightarrow> split_on c (s @ c # t) = s # split_on c t"
  by (induction s) (auto split: list.splits)

definition strip_cr :: "string \<Rightarrow> string" where
  "strip_cr l = (if l \<noteq> [] \<and> last l = CHR 0x0D then butlast l else l)"

text \<open>
  \<open>str::lines\<close>: a final newline opens no line, and a carriage return goes only with
  the newline after it.
\<close>

definition lines :: "string \<Rightarrow> string list" where
  "lines s =
    (let ps = split_on (CHR 0x0A) s; l = last ps
     in map strip_cr (butlast ps) @ (if l = [] then [] else [l]))"

fun join :: "string \<Rightarrow> string list \<Rightarrow> string" where
  "join sep [] = []"
| "join sep [x] = x"
| "join sep (x # y # ys) = x @ sep @ join sep (y # ys)"

lemma starts_with_iff: "starts_with s p \<longleftrightarrow> take (length p) s = p"
  by (induction s p rule: starts_with.induct) auto

lemma starts_with_append [simp]: "starts_with (p @ s) p"
  by (simp add: starts_with_iff)

lemma starts_withE:
  assumes "starts_with s p"
  obtains t where "s = p @ t"
  using assms that [of "drop (length p) s"] by (metis starts_with_iff append_take_drop_id)

lemma ends_withE:
  assumes "ends_with s p"
  obtains t where "s = t @ p"
proof -
  from assms obtain u where "rev s = rev p @ u"
    by (auto simp: ends_with_def elim: starts_withE)
  then have "s = rev u @ p" by (metis rev_append rev_rev_ident)
  then show thesis by (rule that)
qed

lemma ends_with_append [simp]: "ends_with (s @ p) p"
  by (simp add: ends_with_def)

function trim_end_matches :: "string \<Rightarrow> string \<Rightarrow> string" where
  "trim_end_matches s p =
     (if p \<noteq> [] \<and> ends_with s p then trim_end_matches (take (length s - length p) s) p else s)"
  by pat_completeness auto
termination
proof (relation "measure (\<lambda>(s, p). length s)", goal_cases)
  case 1
  show ?case by simp
next
  case (2 s p)
  then have "p \<noteq> []" and "length p \<le> length s" by (auto elim!: ends_withE)
  then show ?case by (cases p; cases s) auto
qed

declare trim_end_matches.simps [simp del]

function trim_start_matches :: "string \<Rightarrow> string \<Rightarrow> string" where
  "trim_start_matches s p =
     (if p \<noteq> [] \<and> starts_with s p then trim_start_matches (drop (length p) s) p else s)"
  by pat_completeness auto
termination
proof (relation "measure (\<lambda>(s, p). length s)", goal_cases)
  case 1
  show ?case by simp
next
  case (2 s p)
  then have "p \<noteq> []" and "length p \<le> length s" by (auto elim!: starts_withE)
  then show ?case by (cases p; cases s) auto
qed

declare trim_start_matches.simps [simp del]

section \<open>ASCII case, numbers\<close>

definition is_ascii_upper :: "char \<Rightarrow> bool" where
  "is_ascii_upper c \<longleftrightarrow> 65 \<le> code c \<and> code c \<le> 90"

definition is_ascii_lower :: "char \<Rightarrow> bool" where
  "is_ascii_lower c \<longleftrightarrow> 97 \<le> code c \<and> code c \<le> 122"

definition is_ascii_digit :: "char \<Rightarrow> bool" where
  "is_ascii_digit c \<longleftrightarrow> 48 \<le> code c \<and> code c \<le> 57"

definition is_ascii_alnum :: "char \<Rightarrow> bool" where
  "is_ascii_alnum c \<longleftrightarrow> is_ascii_upper c \<or> is_ascii_lower c \<or> is_ascii_digit c"

definition ascii_lower :: "char \<Rightarrow> char" where
  "ascii_lower c = (if is_ascii_upper c then char_of (code c + 32) else c)"

definition ascii_upper :: "char \<Rightarrow> char" where
  "ascii_upper c = (if is_ascii_lower c then char_of (code c - 32) else c)"

lemma code_ascii_lower: "code (ascii_lower c) = (if is_ascii_upper c then code c + 32 else code c)"
  by (simp add: ascii_lower_def is_ascii_upper_def)

definition digit :: "nat \<Rightarrow> char" where
  "digit n = ''0123456789'' ! n"

fun show_nat :: "nat \<Rightarrow> string" where
  "show_nat n = (if n < 10 then [digit n] else show_nat (n div 10) @ [digit (n mod 10)])"

declare show_nat.simps [simp del]

definition show_int :: "int \<Rightarrow> string" where
  "show_int i = (if i < 0 then ''-'' @ show_nat (nat (- i)) else show_nat (nat i))"

section \<open>Decoding bytes as UTF-8\<close>

definition cont_byte :: "byte \<Rightarrow> bool" where
  "cont_byte b \<longleftrightarrow> 0x80 \<le> b \<and> b < 0xC0"

text \<open>
  One step of the decoder: whether the bytes begin with a whole character and how many
  bytes that is, or how many bytes of a broken one go together.
\<close>

definition second_ok :: "byte \<Rightarrow> byte \<Rightarrow> bool" where
  "second_ok b c \<longleftrightarrow>
    (if b = 0xE0 then 0xA0 \<le> c \<and> c < 0xC0
     else if b = 0xED then 0x80 \<le> c \<and> c < 0xA0
     else if b = 0xF0 then 0x90 \<le> c \<and> c < 0xC0
     else if b = 0xF4 then 0x80 \<le> c \<and> c < 0x90
     else cont_byte c)"

definition utf8_step :: "byte \<Rightarrow> bytes \<Rightarrow> bool \<times> nat" where
  "utf8_step b bs =
    (let at = (\<lambda>i. nth_opt bs i);
         c2 = (case at 0 of None \<Rightarrow> False | Some c \<Rightarrow> second_ok b c);
         c3 = (case at 1 of None \<Rightarrow> False | Some c \<Rightarrow> cont_byte c);
         c4 = (case at 2 of None \<Rightarrow> False | Some c \<Rightarrow> cont_byte c)
     in if b < 0x80 then (True, 1)
        else if 0xC2 \<le> b \<and> b < 0xE0 then (if c2 then (True, 2) else (False, 1))
        else if 0xE0 \<le> b \<and> b < 0xF0 then
          (if \<not> c2 then (False, 1) else if c3 then (True, 3) else (False, 2))
        else if 0xF0 \<le> b \<and> b < 0xF5 then
          (if \<not> c2 then (False, 1) else if \<not> c3 then (False, 2)
           else if c4 then (True, 4) else (False, 3))
        else (False, 1))"

function utf8_valid :: "bytes \<Rightarrow> bool" where
  "utf8_valid [] = True"
| "utf8_valid (b # bs) =
     (case utf8_step b bs of (ok, n) \<Rightarrow> ok \<and> utf8_valid (drop (n - 1) bs))"
  by pat_completeness auto
termination by (relation "measure length") auto

text \<open>\<open>String::from_utf8\<close> and \<open>String::from_utf8_lossy\<close>.\<close>

definition from_utf8 :: "bytes \<Rightarrow> string option" where
  "from_utf8 bs = (if utf8_valid bs then Some (of_bytes bs) else None)"

definition replacement :: string where
  "replacement = [CHR 0xEF, CHR 0xBF, CHR 0xBD]"

function from_utf8_lossy :: "bytes \<Rightarrow> string" where
  "from_utf8_lossy [] = []"
| "from_utf8_lossy (b # bs) =
     (case utf8_step b bs of (ok, n) \<Rightarrow>
        (if ok then of_bytes (b # take (n - 1) bs) else replacement)
        @ from_utf8_lossy (drop (n - 1) bs))"
  by pat_completeness auto
termination by (relation "measure length") auto

lemma from_utf8_lossy_valid: "utf8_valid bs \<Longrightarrow> from_utf8_lossy bs = of_bytes bs"
proof (induction bs rule: utf8_valid.induct)
  case 1
  then show ?case by (simp add: of_bytes_def)
next
  case (2 b bs)
  obtain ok n where st: "utf8_step b bs = (ok, n)" by (cases "utf8_step b bs")
  with 2 have "from_utf8_lossy (drop (n - 1) bs) = of_bytes (drop (n - 1) bs)" and ok by auto
  then show ?case
    using st by (simp add: of_bytes_def flip: map_append)
qed

text \<open>In valid UTF-8 a continuation byte never comes first and never follows an ASCII byte.\<close>

lemma utf8_valid_hd: "utf8_valid (b # bs) \<Longrightarrow> \<not> cont_byte b"
  by (auto simp: utf8_step_def Let_def cont_byte_def not_le word_less_alt word_le_def
      split: if_splits prod.splits)

lemma utf8_step_ascii: "b < 0x80 \<Longrightarrow> utf8_step b bs = (True, 1)"
  by (simp add: utf8_step_def)

lemma utf8_step_group:
  assumes "utf8_step b bs = (True, n)" and "\<not> b < 0x80"
  shows "2 \<le> n" and "n - 1 \<le> length bs" and "\<forall>k < n - 1. \<not> bs ! k < 0x80"
proof -
  have ge: "\<not> c < 0x80" if "cont_byte c \<or> second_ok b c" for c
    using that by (auto simp: cont_byte_def second_ok_def word_less_alt word_le_def split: if_splits)
  show "2 \<le> n" and "n - 1 \<le> length bs"
    using assms by (auto simp: utf8_step_def Let_def Suc_le_eq split: if_splits option.splits)
  show "\<forall>k < n - 1. \<not> bs ! k < 0x80"
    using assms ge
    by (auto simp: utf8_step_def Let_def less_Suc_eq numeral_3_eq_3 numeral_2_eq_2
        split: if_splits option.splits)
qed

lemma utf8_valid_after_ascii:
  "utf8_valid bs \<Longrightarrow> Suc k < length bs \<Longrightarrow> bs ! k < 0x80 \<Longrightarrow> \<not> cont_byte (bs ! Suc k)"
proof (induction bs arbitrary: k rule: utf8_valid.induct)
  case 1
  then show ?case by simp
next
  case (2 b bs)
  from "2.prems" obtain n where st: "utf8_step b bs = (True, n)"
    and rest: "utf8_valid (drop (n - 1) bs)"
    by (auto split: prod.splits)
  show ?case
  proof (cases "b < 0x80")
    case True
    with st have n: "n = 1" by (simp add: utf8_step_ascii)
    show ?thesis
    proof (cases k)
      case 0
      from "2.prems"(2) 0 obtain c cs where bs: "bs = c # cs" by (cases bs) auto
      from rest n bs have "utf8_valid (c # cs)" by simp
      then have "\<not> cont_byte c" by (rule utf8_valid_hd)
      with 0 bs show ?thesis by simp
    next
      case (Suc m)
      with "2.IH" [of _ _ m] st n rest "2.prems" show ?thesis by auto
    qed
  next
    case False
    note grp = utf8_step_group [OF st False]
    show ?thesis
    proof (cases "k < n")
      case True
      with grp(3) False "2.prems"(3) have False
        by (cases k) auto
      then show ?thesis ..
    next
      case k: False
      with grp "2.prems" have "Suc (k - n) < length (drop (n - 1) bs)"
        and "drop (n - 1) bs ! (k - n) < 0x80"
        by (auto simp: nth_Cons split: nat.splits)
      with "2.IH" [OF st [symmetric] rest] have "\<not> cont_byte (drop (n - 1) bs ! Suc (k - n))"
        by blast
      moreover have "drop (n - 1) bs ! Suc (k - n) = bs ! k" using k grp by simp
      ultimately show ?thesis by simp
    qed
  qed
qed

end
