(* ===== verification/Wire.thy ===== *)
theory Wire
  imports Rust_Str
begin

unbundle bit_operations_syntax

text \<open>
  \<open>daemon/src/wire.rs\<close>: the SSH agent protocol's wire format. A \<open>reader\<close> is a buffer and
  a position; a writer is the bytes written so far. Lengths are 32-bit big-endian words,
  so \<open>Writer::string\<close> truncates a length of \<open>2 ^ 32\<close> or more, as the \<open>as u32\<close> of the
  code does. The locale \<open>field_codec\<close> states what a writer and a reader of one field
  promise each other; it is interpreted on the byte, the word and the string.
\<close>

section \<open>Reader\<close>

record reader =
  rd_buf :: bytes
  rd_pos :: nat

definition reader_new :: "bytes \<Rightarrow> reader" where
  "reader_new buf = \<lparr>rd_buf = buf, rd_pos = 0\<rparr>"

text \<open>
  \<open>buf.get(pos..end)\<close> is \<open>None\<close> when the range leaves the buffer. Positions are
  \<open>usize\<close>; \<open>checked_add\<close> fails at \<open>2 ^ 64\<close>.
\<close>

definition usize_checked_add :: "nat \<Rightarrow> nat \<Rightarrow> nat option" where
  "usize_checked_add a b = (if a + b < 2 ^ 64 then Some (a + b) else None)"

definition get_range :: "bytes \<Rightarrow> nat \<Rightarrow> nat \<Rightarrow> bytes option" where
  "get_range buf i j =
    (if i \<le> j \<and> j \<le> length buf then Some (take (j - i) (drop i buf)) else None)"

definition u32_from_be :: "byte \<Rightarrow> byte \<Rightarrow> byte \<Rightarrow> byte \<Rightarrow> u32" where
  "u32_from_be a b c d =
    push_bit 24 (ucast a) OR push_bit 16 (ucast b) OR push_bit 8 (ucast c) OR ucast d"

definition u32_to_be :: "u32 \<Rightarrow> bytes" where
  "u32_to_be v = [ucast (drop_bit 24 v), ucast (drop_bit 16 v), ucast (drop_bit 8 v), ucast v]"

text \<open>Every read returns the value, when there is one, and the reader afterwards.\<close>

definition reader_u8 :: "reader \<Rightarrow> byte option \<times> reader" where
  "reader_u8 r =
    (case nth_opt (rd_buf r) (rd_pos r) of
       None \<Rightarrow> (None, r)
     | Some b \<Rightarrow> (Some b, r\<lparr>rd_pos := rd_pos r + 1\<rparr>))"

definition reader_u32 :: "reader \<Rightarrow> u32 option \<times> reader" where
  "reader_u32 r =
    (case usize_checked_add (rd_pos r) 4 of
       None \<Rightarrow> (None, r)
     | Some e \<Rightarrow>
        (case get_range (rd_buf r) (rd_pos r) e of
           None \<Rightarrow> (None, r)
         | Some s \<Rightarrow> (Some (u32_from_be (s ! 0) (s ! 1) (s ! 2) (s ! 3)), r\<lparr>rd_pos := e\<rparr>)))"

definition reader_string :: "reader \<Rightarrow> bytes option \<times> reader" where
  "reader_string r =
    (case reader_u32 r of
       (None, r') \<Rightarrow> (None, r')
     | (Some n, r') \<Rightarrow>
        (case usize_checked_add (rd_pos r') (unat n) of
           None \<Rightarrow> (None, r')
         | Some e \<Rightarrow>
            (case get_range (rd_buf r') (rd_pos r') e of
               None \<Rightarrow> (None, r')
             | Some s \<Rightarrow> (Some s, r'\<lparr>rd_pos := e\<rparr>))))"

section \<open>Writer\<close>

definition writer_new :: bytes where
  "writer_new = []"

definition writer_u8 :: "byte \<Rightarrow> bytes \<Rightarrow> bytes" where
  "writer_u8 v buf = buf @ [v]"

definition writer_u32 :: "u32 \<Rightarrow> bytes \<Rightarrow> bytes" where
  "writer_u32 v buf = buf @ u32_to_be v"

definition writer_string :: "bytes \<Rightarrow> bytes \<Rightarrow> bytes" where
  "writer_string v buf = writer_u32 (of_nat (length v)) buf @ v"

definition frame :: "bytes \<Rightarrow> bytes" where
  "frame payload = u32_to_be (of_nat (length payload)) @ payload"

section \<open>Big-endian words\<close>

lemma length_u32_to_be [simp]: "length (u32_to_be v) = 4"
  by (simp add: u32_to_be_def)

lemma u32_be_roundtrip [wire_simps]:
  "u32_from_be (u32_to_be v ! 0) (u32_to_be v ! 1) (u32_to_be v ! 2) (u32_to_be v ! 3) = v"
proof (rule bit_word_eqI)
  fix n assume n: "n < LENGTH(32)"
  consider "n < 8" | "8 \<le> n" "n < 16" | "16 \<le> n" "n < 24" | "24 \<le> n" by linarith
  then show "bit (u32_from_be (u32_to_be v ! 0) (u32_to_be v ! 1) (u32_to_be v ! 2) (u32_to_be v ! 3)) n
      = bit v n"
    by cases (use n in \<open>auto simp: u32_from_be_def u32_to_be_def bit_simps numeral_3_eq_3 numeral_2_eq_2\<close>)
qed

lemma byte_bit_above [simp]: "8 \<le> n \<Longrightarrow> \<not> bit (b :: byte) n"
  by (auto dest: bit_imp_le_length)

lemma u32_be_roundtrip' [wire_simps]:
  "u32_to_be (u32_from_be a b c d) = [a, b, c, d]"
  unfolding u32_to_be_def u32_from_be_def
  by (auto intro!: bit_word_eqI simp: bit_simps dest: bit_imp_le_length)

section \<open>What one field's writer and reader promise\<close>

text \<open>
  A codec writes a value at the end of the buffer and reads it back from the position
  where it was written, leaving the reader just after it. Values outside \<open>dom_ok\<close> (a
  string whose length does not fit 32 bits) are not promised anything.
\<close>

definition at_bytes :: "reader \<Rightarrow> bytes \<Rightarrow> bool" where
  "at_bytes r bs \<longleftrightarrow>
     rd_pos r \<le> length (rd_buf r) \<and> drop (rd_pos r) (rd_buf r) = bs \<and> length (rd_buf r) < 2 ^ 64"

locale field_codec =
  fixes put :: "'a \<Rightarrow> bytes \<Rightarrow> bytes"
    and get :: "reader \<Rightarrow> 'a option \<times> reader"
    and dom_ok :: "'a \<Rightarrow> bool"
  assumes put_append: "put x buf = buf @ put x []"
    and get_put: "dom_ok x \<Longrightarrow> at_bytes r (put x [] @ rest) \<Longrightarrow>
      \<exists>r'. get r = (Some x, r') \<and> at_bytes r' rest \<and> rd_buf r' = rd_buf r"
    and put_pos: "0 < length (put x [])"
begin

fun put_list :: "'a list \<Rightarrow> bytes \<Rightarrow> bytes" where
  "put_list [] buf = buf"
| "put_list (x # xs) buf = put_list xs (put x buf)"

fun get_list :: "nat \<Rightarrow> reader \<Rightarrow> 'a list option \<times> reader" where
  "get_list 0 r = (Some [], r)"
| "get_list (Suc n) r =
     (case get r of
        (None, r') \<Rightarrow> (None, r')
      | (Some x, r') \<Rightarrow>
         (case get_list n r' of
            (None, r'') \<Rightarrow> (None, r'')
          | (Some xs, r'') \<Rightarrow> (Some (x # xs), r'')))"

lemma put_list_append: "put_list xs buf = buf @ concat (map (\<lambda>x. put x []) xs)"
proof (induction xs arbitrary: buf)
  case Nil
  then show ?case by simp
next
  case (Cons x xs)
  then show ?case using put_append [of x buf] by simp
qed

lemma get_put_list:
  assumes "\<forall>x \<in> set xs. dom_ok x" and "at_bytes r (put_list xs [] @ rest)"
  shows "\<exists>r'. get_list (length xs) r = (Some xs, r') \<and> at_bytes r' rest \<and> rd_buf r' = rd_buf r"
  using assms
proof (induction xs arbitrary: r)
  case Nil
  then show ?case by simp
next
  case (Cons x xs)
  from Cons.prems have "at_bytes r (put x [] @ put_list xs [] @ rest)"
    by (simp add: put_list_append)
  from get_put [OF _ this] Cons.prems obtain r' where
    r': "get r = (Some x, r')" "at_bytes r' (put_list xs [] @ rest)" "rd_buf r' = rd_buf r"
    by auto
  from Cons.IH [OF _ r'(2)] Cons.prems r'(1,3) show ?case by auto
qed

end

section \<open>The fields the daemon reads and writes keep that promise\<close>

lemma at_bytes_new: "length bs < 2 ^ 64 \<Longrightarrow> at_bytes (reader_new bs) bs"
  by (simp add: at_bytes_def reader_new_def)

lemma at_bytes_advance:
  assumes "at_bytes r (xs @ rest)"
  shows "at_bytes (r\<lparr>rd_pos := rd_pos r + length xs\<rparr>) rest"
    and "get_range (rd_buf r) (rd_pos r) (rd_pos r + length xs) = Some xs"
    and "usize_checked_add (rd_pos r) (length xs) = Some (rd_pos r + length xs)"
proof -
  have "length (drop (rd_pos r) (rd_buf r)) = length (xs @ rest)"
    using assms by (simp add: at_bytes_def)
  moreover have "rd_pos r \<le> length (rd_buf r)" using assms by (simp add: at_bytes_def)
  ultimately have len: "rd_pos r + length xs \<le> length (rd_buf r)" by simp
  show "at_bytes (r\<lparr>rd_pos := rd_pos r + length xs\<rparr>) rest"
    using assms len by (simp add: at_bytes_def add.commute flip: drop_drop)
  show "get_range (rd_buf r) (rd_pos r) (rd_pos r + length xs) = Some xs"
    using assms len by (simp add: at_bytes_def get_range_def)
  show "usize_checked_add (rd_pos r) (length xs) = Some (rd_pos r + length xs)"
    using assms len by (simp add: at_bytes_def usize_checked_add_def)
qed

lemma reader_u8_put:
  assumes "at_bytes r (b # rest)"
  shows "reader_u8 r = (Some b, r\<lparr>rd_pos := rd_pos r + 1\<rparr>)"
    and "at_bytes (r\<lparr>rd_pos := rd_pos r + 1\<rparr>) rest"
proof -
  show "at_bytes (r\<lparr>rd_pos := rd_pos r + 1\<rparr>) rest"
    using at_bytes_advance(1) [of r "[b]" rest] assms by simp
  have "rd_pos r < length (rd_buf r)"
    using assms by (auto simp: at_bytes_def) (metis drop_eq_Nil list.distinct(1) not_less)
  moreover have "rd_buf r ! rd_pos r = b"
    using assms \<open>rd_pos r < length (rd_buf r)\<close>
    by (simp add: at_bytes_def) (metis Cons_nth_drop_Suc list.inject)
  ultimately show "reader_u8 r = (Some b, r\<lparr>rd_pos := rd_pos r + 1\<rparr>)"
    by (simp add: reader_u8_def nth_opt_def)
qed

lemma reader_u32_put:
  assumes "at_bytes r (u32_to_be v @ rest)"
  shows "reader_u32 r = (Some v, r\<lparr>rd_pos := rd_pos r + 4\<rparr>)"
    and "at_bytes (r\<lparr>rd_pos := rd_pos r + 4\<rparr>) rest"
  using at_bytes_advance [OF assms] by (simp_all add: reader_u32_def u32_be_roundtrip [simplified])

lemma unat_of_nat_length:
  "length (v :: bytes) < 2 ^ 32 \<Longrightarrow> unat (of_nat (length v) :: u32) = length v"
  by (simp add: unat_of_nat)

lemma reader_string_put:
  assumes "length v < 2 ^ 32" and "at_bytes r (writer_string v [] @ rest)"
  shows "reader_string r = (Some v, r\<lparr>rd_pos := rd_pos r + 4 + length v\<rparr>)"
    and "at_bytes (r\<lparr>rd_pos := rd_pos r + 4 + length v\<rparr>) rest"
proof -
  from assms(2) have a: "at_bytes r (u32_to_be (of_nat (length v)) @ v @ rest)"
    by (simp add: writer_string_def writer_u32_def)
  note len = reader_u32_put [OF a] and body = at_bytes_advance [OF reader_u32_put(2) [OF a]]
  show "reader_string r = (Some v, r\<lparr>rd_pos := rd_pos r + 4 + length v\<rparr>)"
    using len body unat_of_nat_length [OF assms(1)] by (simp add: reader_string_def)
  show "at_bytes (r\<lparr>rd_pos := rd_pos r + 4 + length v\<rparr>) rest"
    using body(1) by simp
qed

interpretation u8_field: field_codec writer_u8 reader_u8 "\<lambda>_. True"
proof unfold_locales
  fix x :: byte and r rest
  assume "at_bytes r (writer_u8 x [] @ rest)"
  then have "at_bytes r (x # rest)" by (simp add: writer_u8_def)
  from reader_u8_put [OF this]
  show "\<exists>r'. reader_u8 r = (Some x, r') \<and> at_bytes r' rest \<and> rd_buf r' = rd_buf r" by simp
qed (auto simp: writer_u8_def)

interpretation u32_field: field_codec writer_u32 reader_u32 "\<lambda>_. True"
proof unfold_locales
  fix x :: u32 and r rest
  assume "at_bytes r (writer_u32 x [] @ rest)"
  then have "at_bytes r (u32_to_be x @ rest)" by (simp add: writer_u32_def)
  from reader_u32_put [OF this]
  show "\<exists>r'. reader_u32 r = (Some x, r') \<and> at_bytes r' rest \<and> rd_buf r' = rd_buf r" by simp
next
  fix x
  have "length (writer_u32 x []) = 4" by (simp add: writer_u32_def)
  then show "0 < length (writer_u32 x [])" by simp
qed (auto simp: writer_u32_def)

interpretation string_field: field_codec writer_string reader_string "\<lambda>v. length v < 2 ^ 32"
proof unfold_locales
  fix x :: bytes and r rest
  assume "length x < 2 ^ 32" and "at_bytes r (writer_string x [] @ rest)"
  from reader_string_put [OF this]
  show "\<exists>r'. reader_string r = (Some x, r') \<and> at_bytes r' rest \<and> rd_buf r' = rd_buf r" by simp
next
  fix x
  have "4 \<le> length (writer_string x [])"
    by (simp add: writer_string_def writer_u32_def)
  then show "0 < length (writer_string x [])" by linarith
qed (auto simp: writer_string_def writer_u32_def)

lemma writer_string_length [simp]:
  "length (writer_string v buf) = length buf + 4 + length v"
  by (simp add: writer_string_def writer_u32_def)

section \<open>Reading never leaves the buffer\<close>

definition reader_ok :: "reader \<Rightarrow> bool" where
  "reader_ok r \<longleftrightarrow> rd_pos r \<le> length (rd_buf r)"

lemma reader_u8_ok: "reader_ok r \<Longrightarrow> reader_u8 r = (b, r') \<Longrightarrow> reader_ok r' \<and> rd_buf r' = rd_buf r"
  by (auto simp: reader_u8_def reader_ok_def nth_opt_def split: option.splits if_splits)

lemma reader_u32_ok: "reader_ok r \<Longrightarrow> reader_u32 r = (v, r') \<Longrightarrow> reader_ok r' \<and> rd_buf r' = rd_buf r"
  by (auto simp: reader_u32_def reader_ok_def get_range_def split: option.splits if_splits)

lemma reader_string_ok:
  assumes "reader_ok r" and "reader_string r = (v, r')"
  shows "reader_ok r' \<and> rd_buf r' = rd_buf r"
proof -
  obtain n r1 where u: "reader_u32 r = (n, r1)" by (cases "reader_u32 r")
  from reader_u32_ok [OF assms(1) u] have "reader_ok r1" "rd_buf r1 = rd_buf r" by auto
  with assms(2) u show ?thesis
    by (auto simp: reader_string_def reader_ok_def get_range_def split: option.splits if_splits)
qed

text \<open>A string that was read is a stretch of the buffer, and the reader moved past it.\<close>

lemma reader_u32_pos:
  "reader_u32 r = (Some n, r') \<Longrightarrow> r' = r\<lparr>rd_pos := rd_pos r + 4\<rparr>"
  by (auto simp: reader_u32_def usize_checked_add_def split: option.splits if_splits)

lemma get_range_Some:
  "get_range buf i j = Some s \<Longrightarrow>
    length s = j - i \<and> i \<le> j \<and> j \<le> length buf \<and> s = take (j - i) (drop i buf)"
  by (auto simp: get_range_def split: if_splits)

lemma reader_string_sub:
  assumes "reader_string r = (Some s, r')"
  shows "rd_pos r' = rd_pos r + 4 + length s"
    and "s = take (length s) (drop (rd_pos r + 4) (rd_buf r))"
    and "rd_pos r' \<le> length (rd_buf r)"
proof -
  from assms obtain n where n: "reader_u32 r = (Some n, r\<lparr>rd_pos := rd_pos r + 4\<rparr>)"
    by (auto simp: reader_string_def split: prod.splits option.splits dest: reader_u32_pos)
  with assms have g: "get_range (rd_buf r) (rd_pos r + 4) (rd_pos r + 4 + unat n) = Some s"
    and r': "r' = r\<lparr>rd_pos := rd_pos r + 4 + unat n\<rparr>"
    by (auto simp: reader_string_def usize_checked_add_def split: option.splits if_splits)
  from get_range_Some [OF g] r'
  show "rd_pos r' = rd_pos r + 4 + length s"
    and "s = take (length s) (drop (rd_pos r + 4) (rd_buf r))"
    and "rd_pos r' \<le> length (rd_buf r)"
    by auto
qed

end
