(* ===== verification/Redact.thy ===== *)
theory Redact
  imports Rust_Str
begin

text \<open>
  \<open>daemon/src/attrib.rs\<close>, lines 271 to 415: taking credentials out of a command line
  before it is kept. The scanner works on the bytes of the argument with an index, and
  slices the argument as a \<open>str\<close>; a slice that cuts a character in two panics, which is
  \<open>None\<close> here. \<open>redact_total\<close> shows it never does.
\<close>

section \<open>Scanning\<close>

definition REDACTED :: string where
  "REDACTED = ''[redacted]''"

definition is_tokenish :: "char \<Rightarrow> bool" where
  "is_tokenish c \<longleftrightarrow> is_ascii_alnum c \<or> c = CHR ''_'' \<or> c = CHR ''-''"

text \<open>\<open>while i < b.len() && p(b[i]) { i += 1 }\<close>, and the same backwards.\<close>

function advance :: "(char \<Rightarrow> bool) \<Rightarrow> string \<Rightarrow> nat \<Rightarrow> nat" where
  "advance p b i = (if i < length b \<and> p (b ! i) then advance p b (Suc i) else i)"
  by pat_completeness auto
termination by (relation "measure (\<lambda>(p, b, i). length b - i)") auto

declare advance.simps [simp del]

fun retreat :: "(char \<Rightarrow> bool) \<Rightarrow> string \<Rightarrow> nat \<Rightarrow> nat" where
  "retreat p b 0 = 0"
| "retreat p b (Suc s) = (if p (b ! s) then retreat p b s else Suc s)"

definition slice :: "string \<Rightarrow> nat \<Rightarrow> nat \<Rightarrow> string" where
  "slice b i j = take (j - i) (drop i b)"

definition is_char_boundary :: "string \<Rightarrow> nat \<Rightarrow> bool" where
  "is_char_boundary s i \<longleftrightarrow> i = 0 \<or> i = length s \<or> (i < length s \<and> \<not> is_cont (s ! i))"

definition str_slice :: "string \<Rightarrow> nat \<Rightarrow> nat \<Rightarrow> string option" where
  "str_slice s i j =
    (if i \<le> j \<and> is_char_boundary s i \<and> is_char_boundary s j then Some (slice s i j) else None)"

definition word_start :: "string \<Rightarrow> nat \<Rightarrow> bool" where
  "word_start b i \<longleftrightarrow> i = 0 \<or> \<not> (is_ascii_alnum (b ! (i - 1)) \<or> b ! (i - 1) = CHR ''_'')"

definition eq_ignore_ascii_case :: "string \<Rightarrow> string \<Rightarrow> bool" where
  "eq_ignore_ascii_case s t \<longleftrightarrow> map ascii_lower s = map ascii_lower t"

text \<open>Evaluated from the left, the comparison ends at the first difference.\<close>

lemma eq_ignore_ascii_case_code [code]:
  "eq_ignore_ascii_case [] t = (t = [])"
  "eq_ignore_ascii_case (c # s) t =
    (case t of [] \<Rightarrow> False
     | d # t \<Rightarrow> if ascii_lower c = ascii_lower d then eq_ignore_ascii_case s t else False)"
  by (auto simp: eq_ignore_ascii_case_def split: list.splits)

definition scheme_end :: "string \<Rightarrow> nat \<Rightarrow> string \<Rightarrow> nat option" where
  "scheme_end b i s =
    (let e = i + length s
     in if e \<le> length b \<and> eq_ignore_ascii_case (slice b i e) s then Some e else None)"

definition scheme_at :: "string \<Rightarrow> nat \<Rightarrow> nat option" where
  "scheme_at b i = or_else (scheme_end b i ''bearer '') (scheme_end b i ''basic '')"

definition value_end :: "string \<Rightarrow> nat \<Rightarrow> string \<Rightarrow> nat" where
  "value_end b i delims = advance (\<lambda>c. \<not> is_ascii_ws c \<and> c \<notin> set delims) b i"

definition SECRET_KEYS :: "string list" where
  "SECRET_KEYS = [''token'', ''password'', ''secret'', ''api_key'', ''apikey'']"

definition secret_key_before :: "string \<Rightarrow> nat \<Rightarrow> bool" where
  "secret_key_before b eq =
    (let s = retreat is_tokenish b eq
     in if s = eq then False
        else let key = map ascii_lower (from_utf8_lossy (as_bytes (slice b s eq)))
             in list_ex (\<lambda>k. ends_with key k) SECRET_KEYS)"

definition TOKEN_PREFIXES :: "string list" where
  "TOKEN_PREFIXES =
    [''github_pat_'', ''npm_'', ''ghp_'', ''gho_'', ''ghu_'', ''ghs_'', ''ghr_'', ''napi_'',
     ''sk_'', ''xoxa_'', ''xoxb_'', ''xoxp_'', ''xoxr_'']"

fun prefixed_token_at :: "string list \<Rightarrow> string \<Rightarrow> nat \<Rightarrow> nat option" where
  "prefixed_token_at [] b i = None"
| "prefixed_token_at (p # ps) b i =
    (let e = i + length p
     in if e \<le> length b \<and> slice b i e = p then
          let j = advance is_tokenish b e
          in if 8 \<le> j - e then Some j else prefixed_token_at ps b i
        else prefixed_token_at ps b i)"

definition aws_token_at :: "string \<Rightarrow> nat \<Rightarrow> nat option" where
  "aws_token_at b i =
    (if i + 20 \<le> length b \<and> slice b i (i + 4) = ''AKIA'' then
       let j = advance (\<lambda>c. is_ascii_digit c \<or> is_ascii_upper c) b (i + 4)
       in if 20 \<le> j - i then Some j else None
     else None)"

definition token_at :: "string \<Rightarrow> nat \<Rightarrow> nat option" where
  "token_at b i = or_else (prefixed_token_at TOKEN_PREFIXES b i) (aws_token_at b i)"

section \<open>Where the scans stop\<close>

lemma advance_ge: "i \<le> advance p b i"
proof (induction p b i rule: advance.induct)
  case (1 p b i)
  then show ?case by (cases "i < length b \<and> p (b ! i)") (auto simp: advance.simps [of p b i])
qed

lemma advance_le: "i \<le> length b \<Longrightarrow> advance p b i \<le> length b"
proof (induction p b i rule: advance.induct)
  case (1 p b i)
  then show ?case by (simp add: advance.simps [of p b i])
qed

lemma advance_all: "i \<le> k \<Longrightarrow> k < advance p b i \<Longrightarrow> p (b ! k)"
proof (induction p b i rule: advance.induct)
  case (1 p b i)
  show ?case
  proof (cases "i < length b \<and> p (b ! i)")
    case True
    with 1 show ?thesis
      by (cases "k = i") (auto simp: advance.simps [of p b i])
  next
    case False
    with 1 show ?thesis by (auto simp: advance.simps [of p b i])
  qed
qed

lemma advance_stop: "advance p b i < length b \<Longrightarrow> \<not> p (b ! advance p b i)"
proof (induction p b i rule: advance.induct)
  case (1 p b i)
  then show ?case by (auto simp: advance.simps [of p b i])
qed

lemma value_end_ge: "i \<le> value_end b i d"
  by (simp add: value_end_def advance_ge)

lemma value_end_le: "i \<le> length b \<Longrightarrow> value_end b i d \<le> length b"
  by (simp add: value_end_def advance_le)

lemma scheme_at_bounds:
  assumes "scheme_at b i = Some e"
  shows "i < e" and "e \<le> length b"
  using assms by (auto simp: scheme_at_def scheme_end_def Let_def split: option.splits if_splits)

lemma prefixed_token_at_bounds:
  "prefixed_token_at ps b i = Some j \<Longrightarrow> i + 8 \<le> j \<and> j \<le> length b"
proof (induction ps)
  case Nil
  then show ?case by simp
next
  case (Cons p ps)
  then show ?case
    by (auto simp: Let_def advance_le split: if_splits)
qed

lemma token_at_bounds:
  assumes "token_at b i = Some j"
  shows "i < j" and "j \<le> length b"
  using assms prefixed_token_at_bounds [of TOKEN_PREFIXES b i j]
  by (auto simp: token_at_def aws_token_at_def Let_def advance_le split: option.splits if_splits)

section \<open>The scanner\<close>

text \<open>
  What one round of the loop decides at index \<open>i\<close>: an authorisation scheme whose
  credential is \<open>[v, e)\<close>; a secret's \<open>=\<close>, with a quote after it or not, whose value is
  \<open>[v, e)\<close>; a token that ends at \<open>e\<close>; or one character, the next starting at \<open>j\<close>.
\<close>

datatype action = HideScheme nat nat | HideValue bool nat nat | HideToken nat | Keep nat

definition scheme_value :: "string \<Rightarrow> nat \<Rightarrow> (nat \<times> nat) option" where
  "scheme_value arg i =
    (case scheme_at arg i of
       None \<Rightarrow> None
     | Some after \<Rightarrow>
         let v = advance (\<lambda>c. c = CHR 0x20) arg after;
             e = value_end arg v [CHR 0x22, CHR 0x27, CHR ''}'']
         in if v < e then Some (v, e) else None)"

definition assigned_value :: "string \<Rightarrow> nat \<Rightarrow> bool \<times> nat \<times> nat" where
  "assigned_value arg i =
    (let quoted = (i + 1 < length arg \<and>
           (arg ! (i + 1) = CHR 0x22 \<or> arg ! (i + 1) = CHR 0x27));
         v = (if quoted then i + 2 else i + 1)
     in (quoted, v, value_end arg v [CHR ''&'', CHR 0x22, CHR 0x27]))"

definition action_at :: "string \<Rightarrow> nat \<Rightarrow> action" where
  "action_at arg i =
    (case scheme_value arg i of
       Some (v, e) \<Rightarrow> HideScheme v e
     | None \<Rightarrow>
         if arg ! i = CHR ''='' \<and> secret_key_before arg i then
           (case assigned_value arg i of (quoted, v, e) \<Rightarrow> HideValue quoted v e)
         else
           (case (if word_start arg i then token_at arg i else None) of
              Some e \<Rightarrow> HideToken e
            | None \<Rightarrow> Keep (advance is_cont arg (i + 1))))"

text \<open>
  The text a round pushes, and the next index. \<open>None\<close> is a slice off a character
  boundary. The quote after \<open>=\<close> is pushed as the byte it is.
\<close>

definition redact_step :: "string \<Rightarrow> nat \<Rightarrow> (string \<times> nat) option" where
  "redact_step arg i =
    (case action_at arg i of
       HideScheme v e \<Rightarrow> map_option (\<lambda>kept. (kept @ REDACTED, e)) (str_slice arg i v)
     | HideValue quoted v e \<Rightarrow>
         Some (''='' @ (if quoted then [arg ! (i + 1)] else []) @ (if v < e then REDACTED else []), e)
     | HideToken e \<Rightarrow> Some (REDACTED, e)
     | Keep j \<Rightarrow> map_option (\<lambda>kept. (kept, j)) (str_slice arg i j))"

fun action_next :: "action \<Rightarrow> nat" where
  "action_next (HideScheme v e) = e"
| "action_next (HideValue q v e) = e"
| "action_next (HideToken e) = e"
| "action_next (Keep j) = j"

lemma redact_step_next: "redact_step arg i = Some (t, j) \<Longrightarrow> j = action_next (action_at arg i)"
  by (auto simp: redact_step_def split: action.splits)

lemma scheme_valueE:
  assumes "scheme_value arg i = Some (v, e)"
  obtains after where "scheme_at arg i = Some after"
    and "v = advance (\<lambda>c. c = CHR 0x20) arg after"
    and "e = value_end arg v [CHR 0x22, CHR 0x27, CHR ''}'']"
    and "i < after" and "after \<le> v" and "v < e" and "e \<le> length arg"
proof -
  from assms obtain after where a: "scheme_at arg i = Some after"
    and v: "v = advance (\<lambda>c. c = CHR 0x20) arg after"
    and e: "e = value_end arg v [CHR 0x22, CHR 0x27, CHR ''}'']" and ve: "v < e"
    by (auto simp: scheme_value_def Let_def split: option.splits if_splits)
  note bounds = scheme_at_bounds [OF a]
  have "after \<le> v" using v by (simp add: advance_ge)
  moreover have "v \<le> length arg" using v bounds(2) by (simp add: advance_le)
  then have "e \<le> length arg" using e by (simp add: value_end_le)
  ultimately show thesis using that a v e ve bounds by blast
qed

lemma assigned_value_bounds:
  assumes "assigned_value arg i = (q, v, e)" and "i < length arg"
  shows "i < v" and "v \<le> e" and "e \<le> length arg" and "v \<le> i + 2"
  using assms value_end_ge [of v arg] value_end_le [of v arg]
  by (auto simp: assigned_value_def Let_def split: if_splits)

lemma action_at_cases:
  obtains (scheme) v e where "action_at arg i = HideScheme v e" "scheme_value arg i = Some (v, e)"
  | (assign) q v e where "action_at arg i = HideValue q v e" "scheme_value arg i = None"
      "arg ! i = CHR ''=''" "secret_key_before arg i" "assigned_value arg i = (q, v, e)"
  | (token) e where "action_at arg i = HideToken e" "scheme_value arg i = None"
      "word_start arg i" "token_at arg i = Some e"
      "\<not> (arg ! i = CHR ''='' \<and> secret_key_before arg i)"
  | (keep) "action_at arg i = Keep (advance is_cont arg (i + 1))" "scheme_value arg i = None"
      "\<not> (arg ! i = CHR ''='' \<and> secret_key_before arg i)"
      "\<not> (word_start arg i \<and> token_at arg i \<noteq> None)"
proof (cases "scheme_value arg i")
  case (Some p)
  then show ?thesis using scheme by (cases p) (auto simp: action_at_def)
next
  case None
  show ?thesis
  proof (cases "arg ! i = CHR ''='' \<and> secret_key_before arg i")
    case True
    then show ?thesis using assign None
      by (cases "assigned_value arg i") (auto simp: action_at_def)
  next
    case False
    then show ?thesis using token keep None
      by (cases "word_start arg i"; cases "token_at arg i") (auto simp: action_at_def)
  qed
qed

lemma action_at_progress:
  assumes "i < length arg"
  shows "i < action_next (action_at arg i) \<and> action_next (action_at arg i) \<le> length arg"
proof (cases arg i rule: action_at_cases)
  case (scheme v e)
  from scheme(2) show ?thesis by (rule scheme_valueE) (use scheme(1) in simp)
next
  case (assign q v e)
  from assigned_value_bounds [OF assign(5) assms] assign(1) show ?thesis by simp
next
  case (token e)
  with token_at_bounds [of arg i e] show ?thesis by simp
next
  case keep
  with assms advance_ge [of "Suc i" is_cont arg] advance_le [of "Suc i" arg is_cont]
  show ?thesis by simp
qed

function redact_from :: "string \<Rightarrow> nat \<Rightarrow> string option" where
  "redact_from arg i =
    (if i < length arg then
       (case redact_step arg i of
          None \<Rightarrow> None
        | Some (t, j) \<Rightarrow> map_option (\<lambda>out. t @ out) (redact_from arg j))
     else Some [])"
  by pat_completeness auto
termination
  by (relation "measure (\<lambda>(arg, i). length arg - i)")
     (auto dest!: redact_step_next simp: action_at_progress diff_less_mono2)

declare redact_from.simps [simp del]

definition redact :: "string \<Rightarrow> string option" where
  "redact arg = redact_from arg 0"

section \<open>The spans that are cut\<close>

text \<open>
  The specification of the scanner: an argument is shown as it is, but for a list of
  disjoint spans, each of which is shown as the marker.
\<close>

fun render :: "string \<Rightarrow> nat \<Rightarrow> (nat \<times> nat) list \<Rightarrow> string" where
  "render arg i [] = slice arg i (length arg)"
| "render arg i ((a, b) # cs) = slice arg i a @ REDACTED @ render arg b cs"

fun spans_ok :: "nat \<Rightarrow> nat \<Rightarrow> (nat \<times> nat) list \<Rightarrow> bool" where
  "spans_ok n i [] = (i \<le> n)"
| "spans_ok n i ((a, b) # cs) = (i \<le> a \<and> a < b \<and> spans_ok n b cs)"

text \<open>
  Why a span may be cut: it is the credential that one of the three rules finds at \<open>k\<close>,
  the value after a scheme, the value after a secret's \<open>=\<close>, or a token.
\<close>

definition credential_from :: "string \<Rightarrow> nat \<Rightarrow> nat \<Rightarrow> nat \<Rightarrow> bool" where
  "credential_from arg k a b \<longleftrightarrow>
     scheme_value arg k = Some (a, b) \<or>
     (arg ! k = CHR ''='' \<and> secret_key_before arg k \<and> snd (assigned_value arg k) = (a, b) \<and> a < b) \<or>
     (word_start arg k \<and> token_at arg k = Some b \<and> a = k)"

fun action_cuts :: "nat \<Rightarrow> action \<Rightarrow> (nat \<times> nat) list" where
  "action_cuts i (HideScheme v e) = [(v, e)]"
| "action_cuts i (HideValue q v e) = (if v < e then [(v, e)] else [])"
| "action_cuts i (HideToken e) = [(i, e)]"
| "action_cuts i (Keep j) = []"

function redact_cuts :: "string \<Rightarrow> nat \<Rightarrow> (nat \<times> nat) list" where
  "redact_cuts arg i =
    (if i < length arg then
       action_cuts i (action_at arg i) @ redact_cuts arg (action_next (action_at arg i))
     else [])"
  by pat_completeness auto
termination
  by (relation "measure (\<lambda>(arg, i). length arg - i)") (auto simp: action_at_progress diff_less_mono2)

declare redact_cuts.simps [simp del]

lemma spans_ok_weaken: "spans_ok n j cs \<Longrightarrow> i \<le> j \<Longrightarrow> spans_ok n i cs"
  by (cases cs) auto

lemma slice_append: "i \<le> j \<Longrightarrow> j \<le> k \<Longrightarrow> slice s i j @ slice s j k = slice s i k"
  using take_add [of "j - i" "k - j" "drop i s"] by (simp add: slice_def)

lemma slice_empty [simp]: "slice s i i = []"
  by (simp add: slice_def)

lemma slice_Suc: "i < length s \<Longrightarrow> slice s i (Suc i) = [s ! i]"
  by (simp add: slice_def Suc_diff_le take_Suc_conv_app_nth)

lemma render_extend:
  assumes "i \<le> j" and "spans_ok (length arg) j cs"
  shows "slice arg i j @ render arg j cs = render arg i cs"
proof (cases cs)
  case Nil
  with assms show ?thesis by (simp add: slice_append)
next
  case (Cons c cs')
  with assms show ?thesis by (cases c) (simp flip: append_assoc add: slice_append)
qed

lemma redact_cuts_ok: "i \<le> length arg \<Longrightarrow> spans_ok (length arg) i (redact_cuts arg i)"
proof (induction arg i rule: redact_cuts.induct)
  case (1 arg i)
  show ?case
  proof (cases "i < length arg")
    case False
    with "1.prems" show ?thesis by (subst redact_cuts.simps) auto
  next
    case True
    let ?j = "action_next (action_at arg i)"
    have prog: "i < ?j" "?j \<le> length arg" using action_at_progress [OF True] by auto
    with 1 True have IH: "spans_ok (length arg) ?j (redact_cuts arg ?j)" by simp
    have "spans_ok (length arg) i (action_cuts i (action_at arg i) @ redact_cuts arg ?j)"
    proof (cases arg i rule: action_at_cases)
      case (scheme v e)
      with scheme_valueE [OF scheme(2)] IH show ?thesis by fastforce
    next
      case (assign q v e)
      with assigned_value_bounds [OF assign(5) True] IH prog show ?thesis
        by (auto intro: spans_ok_weaken)
    qed (use IH prog in \<open>auto intro: spans_ok_weaken\<close>)
    with True show ?thesis by (simp add: redact_cuts.simps [of arg i])
  qed
qed

lemma redact_cuts_credential:
  "(a, b) \<in> set (redact_cuts arg i) \<Longrightarrow> \<exists>k < length arg. credential_from arg k a b"
proof (induction arg i rule: redact_cuts.induct)
  case (1 arg i)
  then have i: "i < length arg"
    by (auto simp: redact_cuts.simps [of arg i] split: if_splits)
  consider "(a, b) \<in> set (action_cuts i (action_at arg i))"
    | "(a, b) \<in> set (redact_cuts arg (action_next (action_at arg i)))"
    using 1 i by (auto simp: redact_cuts.simps [of arg i])
  then show ?case
  proof cases
    case 1
    then show ?thesis
      by (cases arg i rule: action_at_cases) (use i in \<open>auto simp: credential_from_def split: if_splits\<close>)
  next
    case 2
    with "1.IH" i show ?thesis by simp
  qed
qed

section \<open>No slice cuts a character\<close>

lemma cont_byte_of_char: "cont_byte (of_char c) \<longleftrightarrow> is_cont c"
  by (simp add: cont_byte_def is_cont_def word_le_nat_alt word_less_nat_alt)

lemma ascii_of_char: "(of_char c :: byte) < 0x80 \<longleftrightarrow> code c < 128"
  by (simp add: word_less_nat_alt)

text \<open>The only facts about UTF-8 the scanner needs.\<close>

definition no_ascii_cont :: "string \<Rightarrow> bool" where
  "no_ascii_cont s \<longleftrightarrow>
    (\<forall>k. Suc k < length s \<longrightarrow> code (s ! k) < 128 \<longrightarrow> \<not> is_cont (s ! Suc k))"

lemma utf8_no_ascii_cont: "utf8_valid (as_bytes s) \<Longrightarrow> no_ascii_cont s"
  using utf8_valid_after_ascii [of "as_bytes s"]
  by (auto simp: no_ascii_cont_def as_bytes_def ascii_of_char cont_byte_of_char)

lemma boundary_after_ascii:
  assumes "no_ascii_cont s" and "i < j" and "j \<le> length s" and "code (s ! (j - 1)) < 128"
  shows "is_char_boundary s j"
  using assms by (cases j) (auto simp: no_ascii_cont_def is_char_boundary_def)

lemma boundary_at_ascii: "j \<le> length s \<Longrightarrow> (j < length s \<Longrightarrow> code (s ! j) < 128) \<Longrightarrow> is_char_boundary s j"
  by (auto simp: is_char_boundary_def is_cont_def)

lemma value_end_boundary:
  assumes "v \<le> length s" and "\<And>c. c \<in> set d \<Longrightarrow> code c < 128"
  shows "is_char_boundary s (value_end s v d)"
proof (rule boundary_at_ascii)
  show "value_end s v d \<le> length s" using assms(1) by (rule value_end_le)
  assume "value_end s v d < length s"
  then have "is_ascii_ws (s ! value_end s v d) \<or> s ! value_end s v d \<in> set d"
    unfolding value_end_def by (drule_tac advance_stop) simp
  then show "code (s ! value_end s v d) < 128"
    using assms(2) by (auto simp: is_ascii_ws_def)
qed

lemma tokenish_ascii: "is_tokenish c \<Longrightarrow> code c < 128"
  by (auto simp: is_tokenish_def is_ascii_alnum_def is_ascii_upper_def is_ascii_lower_def is_ascii_digit_def)

lemma prefixed_token_run:
  "prefixed_token_at ps b i = Some j \<Longrightarrow>
    \<exists>p \<in> set ps. slice b i (i + length p) = p \<and> i + length p + 8 \<le> j \<and>
      j = advance is_tokenish b (i + length p)"
  by (induction ps) (auto simp: Let_def split: if_splits)

lemma prefixed_token_from:
  "prefixed_token_at ps b i = Some j \<Longrightarrow>
    \<exists>k. j = advance is_tokenish b k \<and> i \<le> k \<and> k + 8 \<le> j"
  by (drule prefixed_token_run) auto

lemma advance_last:
  assumes "i < advance p b i"
  shows "p (b ! (advance p b i - 1))"
  using advance_all [of i "advance p b i - 1" p b] assms by simp

lemma token_at_last_ascii:
  assumes "token_at b i = Some j"
  shows "code (b ! (j - 1)) < 128"
proof (cases "prefixed_token_at TOKEN_PREFIXES b i")
  case (Some j')
  with assms have "j' = j" by (simp add: token_at_def)
  with prefixed_token_from [OF Some] obtain k where j: "j = advance is_tokenish b k" and "k + 8 \<le> j"
    by auto
  then show ?thesis using advance_last [of k is_tokenish b] tokenish_ascii by auto
next
  case None
  with assms have j: "j = advance (\<lambda>c. is_ascii_digit c \<or> is_ascii_upper c) b (i + 4)"
    and "20 \<le> j - i"
    by (auto simp: token_at_def aws_token_at_def Let_def split: if_splits)
  then have "i + 4 < j" by simp
  with advance_last [of "i + 4" _ b] j show ?thesis
    by (fastforce simp: is_ascii_digit_def is_ascii_upper_def)
qed

lemma scheme_at_form:
  assumes "scheme_at b i = Some e"
  obtains w where "e = i + length w + 1" and "e \<le> length b"
    and "map ascii_lower (slice b i e) = map ascii_lower w @ [CHR 0x20]"
    and "w = ''bearer'' \<or> w = ''basic''"
proof -
  have sp: "map ascii_lower (w @ [CHR 0x20]) = map ascii_lower w @ [CHR 0x20]" for w
    by (simp add: ascii_lower_def is_ascii_upper_def)
  from assms consider "scheme_end b i (''bearer'' @ [CHR 0x20]) = Some e"
    | "scheme_end b i (''basic'' @ [CHR 0x20]) = Some e"
    by (auto simp: scheme_at_def split: option.splits)
  then obtain w where w: "w = ''bearer'' \<or> w = ''basic''"
    and "scheme_end b i (w @ [CHR 0x20]) = Some e" by metis
  then have "e = i + length w + 1" and "e \<le> length b"
    and "map ascii_lower (slice b i e) = map ascii_lower w @ [CHR 0x20]"
    unfolding scheme_end_def eq_ignore_ascii_case_def Let_def sp by (auto split: if_splits)
  with w show thesis using that by blast
qed

lemma ascii_lower_space: "ascii_lower c = CHR 0x20 \<longleftrightarrow> c = CHR 0x20"
proof -
  have "ascii_lower c = CHR 0x20 \<longleftrightarrow> code (ascii_lower c) = code (CHR 0x20)"
    by (simp only: of_char_eq_iff)
  also have "\<dots> \<longleftrightarrow> code c = code (CHR 0x20)"
    by (auto simp: code_ascii_lower is_ascii_upper_def)
  also have "\<dots> \<longleftrightarrow> c = CHR 0x20" by (simp only: of_char_eq_iff)
  finally show ?thesis .
qed

lemma scheme_at_space:
  assumes "scheme_at b i = Some e"
  shows "b ! (e - 1) = CHR 0x20"
proof -
  from assms obtain w where w: "e = i + length w + 1" "e \<le> length b"
    "map ascii_lower (slice b i e) = map ascii_lower w @ [CHR 0x20]"
    by (rule scheme_at_form)
  then have "map ascii_lower (slice b i e) ! length w = CHR 0x20" by (simp add: nth_append)
  moreover have "map ascii_lower (slice b i e) ! length w = ascii_lower (b ! (i + length w))"
    using w(1,2) by (simp add: slice_def)
  ultimately have "ascii_lower (b ! (i + length w)) = CHR 0x20" by simp
  with w show ?thesis by (simp add: ascii_lower_space)
qed

lemma scheme_value_boundary:
  assumes "no_ascii_cont arg" and "scheme_value arg i = Some (v, e)"
  shows "is_char_boundary arg v" and "is_char_boundary arg e"
proof -
  from assms(2) obtain after where a: "scheme_at arg i = Some after"
    and v: "v = advance (\<lambda>c. c = CHR 0x20) arg after"
    and e: "e = value_end arg v [CHR 0x22, CHR 0x27, CHR ''}'']"
    and le: "i < after" "after \<le> v" "v < e" "e \<le> length arg"
    by (rule scheme_valueE)
  show "is_char_boundary arg e"
    unfolding e by (rule value_end_boundary) (use le in auto)
  note sp = scheme_at_space [OF a]
  have "arg ! (v - 1) = CHR 0x20"
  proof (cases "after < v")
    case True
    then show ?thesis unfolding v by (rule advance_last)
  next
    case False
    with le sp show ?thesis by simp
  qed
  then show "is_char_boundary arg v"
    using boundary_after_ascii [of arg i v] assms(1) le by simp
qed

lemma action_next_boundary:
  assumes ok: "no_ascii_cont arg" and i: "i < length arg"
  shows "is_char_boundary arg (action_next (action_at arg i))"
proof (cases arg i rule: action_at_cases)
  case (scheme v e)
  with scheme_value_boundary [OF ok scheme(2)] show ?thesis by simp
next
  case (assign q v e)
  from assigned_value_bounds [OF assign(5) i] have "v \<le> length arg" by simp
  then have "is_char_boundary arg (value_end arg v [CHR ''&'', CHR 0x22, CHR 0x27])"
    by (rule value_end_boundary) auto
  with assign show ?thesis by (auto simp: assigned_value_def Let_def)
next
  case (token e)
  with token_at_bounds [of arg i e] token_at_last_ascii [of arg i e] show ?thesis
    using boundary_after_ascii [OF ok] by simp
next
  case keep
  have "advance is_cont arg (Suc i) \<le> length arg"
    using i by (simp add: advance_le)
  with keep advance_stop [of is_cont arg "Suc i"] show ?thesis
    by (auto simp: is_char_boundary_def le_less)
qed

text \<open>One round shows the stretch it consumed, with the marker for the span it cut.\<close>

lemma redact_step_render:
  assumes ok: "no_ascii_cont arg" and i: "i < length arg" and b: "is_char_boundary arg i"
    and cs: "spans_ok (length arg) (action_next (action_at arg i)) cs"
  shows "\<exists>t. redact_step arg i = Some (t, action_next (action_at arg i)) \<and>
    render arg i (action_cuts i (action_at arg i) @ cs) = t @ render arg (action_next (action_at arg i)) cs"
proof (cases arg i rule: action_at_cases)
  case (scheme v e)
  from scheme(2) have "i \<le> v" by (rule scheme_valueE) simp
  with scheme scheme_value_boundary [OF ok scheme(2)] b show ?thesis
    by (simp add: redact_step_def str_slice_def)
next
  case (assign q v e)
  note bnd = assigned_value_bounds [OF assign(5) i]
  have kept: "slice arg i v = ''='' @ (if q then [arg ! (i + 1)] else [])"
  proof (cases q)
    case True
    with assign have v: "v = Suc (Suc i)" and l: "Suc i < length arg"
      by (auto simp: assigned_value_def Let_def split: if_splits)
    have "slice arg i v = slice arg i (Suc i) @ slice arg (Suc i) (Suc (Suc i))"
      by (simp add: v slice_append)
    with True assign i l show ?thesis by (simp add: slice_Suc)
  next
    case False
    with assign have "v = Suc i" by (auto simp: assigned_value_def Let_def split: if_splits)
    with False assign i show ?thesis by (simp add: slice_Suc)
  qed
  show ?thesis
  proof (cases "v < e")
    case True
    with assign kept show ?thesis by (simp add: redact_step_def)
  next
    case False
    with bnd have "v = e" by simp
    with assign kept cs bnd render_extend [of i e arg cs] show ?thesis
      by (simp add: redact_step_def)
  qed
next
  case (token e)
  then show ?thesis by (simp add: redact_step_def)
next
  case keep
  let ?j = "advance is_cont arg (i + 1)"
  have ij: "i \<le> ?j" using advance_ge [of "i + 1" is_cont arg] by simp
  have bj: "is_char_boundary arg ?j" using action_next_boundary [OF ok i] keep by simp
  have "slice arg i ?j @ render arg ?j cs = render arg i cs"
    using ij cs keep by (intro render_extend) auto
  with keep ij bj b show ?thesis by (simp add: redact_step_def str_slice_def)
qed

lemma redact_from_render:
  "no_ascii_cont arg \<Longrightarrow> i \<le> length arg \<Longrightarrow> is_char_boundary arg i \<Longrightarrow>
    redact_from arg i = Some (render arg i (redact_cuts arg i))"
proof (induction arg i rule: redact_cuts.induct)
  case (1 arg i)
  show ?case
  proof (cases "i < length arg")
    case False
    with "1.prems" show ?thesis
      by (subst redact_from.simps, subst redact_cuts.simps) simp
  next
    case True
    let ?j = "action_next (action_at arg i)"
    have prog: "?j \<le> length arg" using action_at_progress [OF True] by simp
    note bj = action_next_boundary [OF "1.prems"(1) True]
    obtain t where t: "redact_step arg i = Some (t, ?j)"
      and r: "render arg i (action_cuts i (action_at arg i) @ redact_cuts arg ?j) =
        t @ render arg ?j (redact_cuts arg ?j)"
      using redact_step_render [OF "1.prems"(1) True "1.prems"(3) redact_cuts_ok [OF prog]] by blast
    have "redact_from arg ?j = Some (render arg ?j (redact_cuts arg ?j))"
      by (rule "1.IH" [OF True "1.prems"(1) prog bj])
    with True t have "redact_from arg i = Some (t @ render arg ?j (redact_cuts arg ?j))"
      by (subst redact_from.simps) simp
    with True r show ?thesis by (subst redact_cuts.simps) simp
  qed
qed

lemma redact_render:
  assumes "utf8_valid (as_bytes arg)"
  shows "redact arg = Some (render arg 0 (redact_cuts arg 0))"
  using redact_from_render [OF utf8_no_ascii_cont [OF assms], of 0]
  by (simp add: redact_def is_char_boundary_def)

section \<open>No credential is passed over\<close>

text \<open>What a credential can begin with tells the three kinds, and plain text, apart.\<close>

lemma scheme_first:
  assumes "scheme_value arg i = Some (v, e)"
  shows "ascii_lower (arg ! i) = CHR ''b''"
proof -
  from assms obtain after where "scheme_at arg i = Some after" by (rule scheme_valueE)
  then obtain w where w: "after = i + length w + 1" "after \<le> length arg"
    "map ascii_lower (slice arg i after) = map ascii_lower w @ [CHR 0x20]"
    "w = ''bearer'' \<or> w = ''basic''"
    by (rule scheme_at_form)
  have "map ascii_lower (slice arg i after) ! 0 = ascii_lower (arg ! i)"
    using w(1,2) by (simp add: slice_def)
  with w(3,4) show ?thesis by (auto simp: ascii_lower_def is_ascii_upper_def)
qed

lemma prefix_chars_eval:
  "list_all (\<lambda>p. list_all is_tokenish p \<and> p \<noteq> [] \<and> ascii_lower (hd p) \<noteq> CHR ''b'') TOKEN_PREFIXES"
  by code_simp

lemma prefix_chars:
  "p \<in> set TOKEN_PREFIXES \<Longrightarrow>
    (\<forall>c \<in> set p. is_tokenish c) \<and> p \<noteq> [] \<and> ascii_lower (hd p) \<noteq> CHR ''b''"
  using prefix_chars_eval unfolding list_all_iff by blast

lemma slice_nth:
  assumes "slice b i (i + length p) = p" and "m < length p"
  shows "b ! (i + m) = p ! m"
proof -
  from assms(1) have p: "take (length p) (drop i b) = p" by (simp add: slice_def)
  then have "length (take (length p) (drop i b)) = length p" by simp
  then have "length p \<le> length (drop i b)" by simp
  with assms(2) have "i + m < length b" by simp
  moreover have "p ! m = take (length p) (drop i b) ! m" by (simp only: p)
  ultimately show ?thesis using assms(2) by simp
qed

lemma aws_prefix:
  assumes "aws_token_at b i = Some j"
  shows "slice b i (i + length ''AKIA'') = ''AKIA''"
  using assms by (auto simp: aws_token_at_def eval_nat_numeral split: if_splits)

lemma aws_token_run:
  assumes "aws_token_at b i = Some j"
  shows "\<forall>m. i \<le> m \<longrightarrow> m < j \<longrightarrow> is_ascii_digit (b ! m) \<or> is_ascii_upper (b ! m)" and "i < j"
proof -
  note pre = aws_prefix [OF assms]
  from assms have j: "j = advance (\<lambda>c. is_ascii_digit c \<or> is_ascii_upper c) b (i + 4)" and "20 \<le> j - i"
    by (auto simp: aws_token_at_def Let_def split: if_splits)
  then show "i < j" by simp
  show "\<forall>m. i \<le> m \<longrightarrow> m < j \<longrightarrow> is_ascii_digit (b ! m) \<or> is_ascii_upper (b ! m)"
  proof (intro allI impI)
    fix m assume m: "i \<le> m" "m < j"
    show "is_ascii_digit (b ! m) \<or> is_ascii_upper (b ! m)"
    proof (cases "m < i + 4")
      case True
      with m obtain d where d: "m = i + d" "d < 4" by (metis le_add_diff_inverse nat_add_left_cancel_less)
      with slice_nth [OF pre, of d] have "b ! m = ''AKIA'' ! d" by simp
      moreover have "''AKIA'' ! d \<in> set ''AKIA''" using d by (intro nth_mem) simp
      ultimately show ?thesis by (auto simp: is_ascii_upper_def)
    next
      case False
      with m j show ?thesis
        using advance_all [of "i + 4" m "\<lambda>c. is_ascii_digit c \<or> is_ascii_upper c" b] by simp
    qed
  qed
qed

lemma token_run:
  assumes "token_at b i = Some j"
  shows "\<forall>m. i \<le> m \<longrightarrow> m < j \<longrightarrow> is_tokenish (b ! m)" and "ascii_lower (b ! i) \<noteq> CHR ''b''"
proof -
  have "(\<forall>m. i \<le> m \<longrightarrow> m < j \<longrightarrow> is_tokenish (b ! m)) \<and> ascii_lower (b ! i) \<noteq> CHR ''b''"
  proof (cases "prefixed_token_at TOKEN_PREFIXES b i")
    case (Some j')
    with assms have [simp]: "j' = j" by (simp add: token_at_def)
    from prefixed_token_run [OF Some] obtain p where p: "p \<in> set TOKEN_PREFIXES"
      and sl: "slice b i (i + length p) = p" and j: "j = advance is_tokenish b (i + length p)" by auto
    note pc = prefix_chars [OF p]
    have "is_tokenish (b ! m)" if m: "i \<le> m" "m < j" for m
    proof (cases "m < i + length p")
      case True
      with m have d: "m - i < length p" and "i + (m - i) = m" by simp_all
      with slice_nth [OF sl d] have "b ! m = p ! (m - i)" by simp
      with pc d show ?thesis by (metis nth_mem)
    next
      case False
      with m j show ?thesis using advance_all [of "i + length p" m is_tokenish b] by simp
    qed
    moreover have "b ! i = hd p" using slice_nth [OF sl, of 0] pc by (simp add: hd_conv_nth)
    ultimately show ?thesis using pc by simp
  next
    case None
    with assms have a: "aws_token_at b i = Some j" by (simp add: token_at_def)
    from slice_nth [OF aws_prefix [OF this], of 0] have "b ! i = CHR ''A''" by simp
    moreover have "ascii_lower (CHR ''A'') \<noteq> CHR ''b''" by code_simp
    ultimately show ?thesis
      using aws_token_run [OF a] by (auto simp: is_tokenish_def is_ascii_alnum_def)
  qed
  then show "\<forall>m. i \<le> m \<longrightarrow> m < j \<longrightarrow> is_tokenish (b ! m)" and "ascii_lower (b ! i) \<noteq> CHR ''b''"
    by auto
qed

text \<open>The text a scheme keeps holds no other credential's start.\<close>

lemma scheme_kept:
  assumes sv: "scheme_value arg i = Some (v, e)" and k: "i < k" "k < v"
  shows "arg ! k \<noteq> CHR ''=''" and "ascii_lower (arg ! k) \<noteq> CHR ''b''"
    and "\<not> (word_start arg k \<and> is_tokenish (arg ! k))"
proof -
  from sv obtain after where a: "scheme_at arg i = Some after"
    and v: "v = advance (\<lambda>c. c = CHR 0x20) arg after" by (rule scheme_valueE)
  from a obtain w where w: "after = i + length w + 1" "after \<le> length arg"
    "map ascii_lower (slice arg i after) = map ascii_lower w @ [CHR 0x20]"
    "w = ''bearer'' \<or> w = ''basic''" by (rule scheme_at_form)
  have lw: "map ascii_lower w = w" using w(4) by (auto simp: ascii_lower_def is_ascii_upper_def)
  have ch: "ascii_lower (arg ! (i + d)) = w ! d" if "d < length w" for d
  proof -
    have "map ascii_lower (slice arg i after) ! d = ascii_lower (arg ! (i + d))"
      using that w(1,2) by (simp add: slice_def)
    with w(3) lw that show ?thesis by (simp add: nth_append)
  qed
  have "arg ! k \<noteq> CHR ''='' \<and> ascii_lower (arg ! k) \<noteq> CHR ''b'' \<and>
      \<not> (word_start arg k \<and> is_tokenish (arg ! k))"
  proof (cases "k < i + length w")
    case True
    with k obtain d where d: "k = i + Suc d" "Suc d < length w"
      by (metis add_Suc_right less_imp_Suc_add nat_add_left_cancel_less)
    have wd: "w ! Suc d \<in> set (tl w)" "w ! d \<in> set w"
      using d(2) by (auto simp: nth_tl [symmetric] simp del: nth_tl intro!: nth_mem)
    have "is_ascii_lower (w ! d)" using wd(2) w(4) by (auto simp: is_ascii_lower_def)
    then have "is_ascii_alnum (arg ! (i + d))"
      using ch [of d] d(2)
      by (auto simp: is_ascii_alnum_def ascii_lower_def split: if_splits)
    moreover have "w ! Suc d \<noteq> CHR ''='' \<and> w ! Suc d \<noteq> CHR ''b''" using wd(1) w(4) by auto
    ultimately show ?thesis
      using ch [OF d(2)] d(1) by (auto simp: word_start_def ascii_lower_def is_ascii_upper_def)
  next
    case False
    have "arg ! k = CHR 0x20"
    proof (cases "k < after")
      case True
      with False w(1) scheme_at_space [OF a] show ?thesis by (simp add: less_Suc_eq)
    next
      case False
      with k v show ?thesis using advance_all [of after k "\<lambda>c. c = CHR 0x20" arg] by simp
    qed
    then show ?thesis
      by (auto simp: is_tokenish_def is_ascii_alnum_def is_ascii_upper_def is_ascii_lower_def
          is_ascii_digit_def ascii_lower_def)
  qed
  then show "arg ! k \<noteq> CHR ''=''" and "ascii_lower (arg ! k) \<noteq> CHR ''b''"
    and "\<not> (word_start arg k \<and> is_tokenish (arg ! k))" by auto
qed

text \<open>What any credential's first byte looks like.\<close>

lemma credential_start:
  assumes "credential_from arg k a b"
  shows "arg ! k = CHR ''='' \<or> ascii_lower (arg ! k) = CHR ''b'' \<or>
    (word_start arg k \<and> is_tokenish (arg ! k))"
proof -
  consider "scheme_value arg k = Some (a, b)" | "arg ! k = CHR ''=''"
    | "word_start arg k" "token_at arg k = Some b"
    using assms by (auto simp: credential_from_def)
  then show ?thesis
  proof cases
    case 1
    then show ?thesis by (simp add: scheme_first)
  next
    case 2
    then show ?thesis by simp
  next
    case 3
    with token_run(1) [OF 3(2)] token_at_bounds(1) [OF 3(2)] show ?thesis by simp
  qed
qed

lemma credential_not_quote:
  assumes "credential_from arg k a b" and "arg ! k = CHR 0x22 \<or> arg ! k = CHR 0x27 \<or> is_cont (arg ! k)"
  shows False
  using credential_start [OF assms(1)] assms(2)
  by (auto simp: is_tokenish_def is_ascii_alnum_def is_ascii_upper_def is_ascii_lower_def
      is_ascii_digit_def is_cont_def ascii_lower_def split: if_splits)

text \<open>
  Every credential that starts at or after the scan position is cut, or starts inside a
  span that is.
\<close>

definition hidden_start :: "(nat \<times> nat) list \<Rightarrow> nat \<Rightarrow> bool" where
  "hidden_start cs k \<longleftrightarrow> list_ex (\<lambda>(a, b). a \<le> k \<and> k < b) cs"

lemma action_covers:
  assumes cred: "credential_from arg k a b" and i: "i < length arg"
    and k: "i \<le> k" "k < action_next (action_at arg i)"
  shows "hidden_start (action_cuts i (action_at arg i)) k \<or> (a, b) \<in> set (action_cuts i (action_at arg i))"
proof (cases arg i rule: action_at_cases)
  case (scheme v e)
  show ?thesis
  proof (cases "v \<le> k")
    case True
    with scheme k show ?thesis by (simp add: hidden_start_def)
  next
    case False
    have "k = i"
    proof (rule ccontr)
      assume "k \<noteq> i"
      with k False have "i < k" "k < v" by auto
      from scheme_kept [OF scheme(2) this] credential_start [OF cred] show False by auto
    qed
    have b: "ascii_lower (arg ! i) = CHR ''b''" using scheme(2) by (rule scheme_first)
    then have "arg ! i \<noteq> CHR ''=''" by (auto simp: ascii_lower_def is_ascii_upper_def)
    with cred b token_run(2) [of arg i] scheme \<open>k = i\<close> show ?thesis
      by (auto simp: credential_from_def)
  qed
next
  case (assign q v e)
  note bnd = assigned_value_bounds [OF assign(5) i]
  show ?thesis
  proof (cases "v \<le> k")
    case True
    with assign k show ?thesis by (auto simp: hidden_start_def)
  next
    case False
    have "\<not> (q \<and> k = i + 1)"
    proof
      assume "q \<and> k = i + 1"
      with assign(5) have "arg ! k = CHR 0x22 \<or> arg ! k = CHR 0x27"
        by (auto simp: assigned_value_def Let_def split: if_splits)
      with credential_not_quote [OF cred] show False by blast
    qed
    with False bnd k assign(5) have ki: "k = i"
      by (auto simp: assigned_value_def Let_def split: if_splits)
    have "ascii_lower (CHR ''='') = CHR ''=''" by code_simp
    moreover have "\<not> is_tokenish (CHR ''='')" by code_simp
    moreover have "token_at arg i = Some b \<Longrightarrow> is_tokenish (arg ! i)"
      using token_run(1) [of arg i b] token_at_bounds(1) [of arg i b] by blast
    ultimately have "snd (assigned_value arg i) = (a, b)" and "a < b"
      using cred ki assign by (auto simp: credential_from_def)
    with assign show ?thesis by auto
  qed
next
  case (token e)
  with k show ?thesis by (simp add: hidden_start_def)
next
  case keep
  show ?thesis
  proof (cases "k = i")
    case True
    with keep cred show ?thesis by (auto simp: credential_from_def)
  next
    case False
    with k keep have "is_cont (arg ! k)"
      using advance_all [of "i + 1" k is_cont arg] by simp
    with credential_not_quote [OF cred] show ?thesis by blast
  qed
qed

lemma hidden_start_append [simp]:
  "hidden_start (cs @ ds) k \<longleftrightarrow> hidden_start cs k \<or> hidden_start ds k"
  by (simp add: hidden_start_def)

lemma redact_cuts_complete:
  "credential_from arg k a b \<Longrightarrow> k < length arg \<Longrightarrow> i \<le> k \<Longrightarrow>
    hidden_start (redact_cuts arg i) k \<or> (a, b) \<in> set (redact_cuts arg i)"
proof (induction arg i rule: redact_cuts.induct)
  case (1 arg i)
  then have i: "i < length arg" by simp
  let ?j = "action_next (action_at arg i)"
  have u: "redact_cuts arg i = action_cuts i (action_at arg i) @ redact_cuts arg ?j"
    using i by (subst redact_cuts.simps) simp
  show ?case
  proof (cases "k < ?j")
    case True
    with action_covers [OF "1.prems"(1) i "1.prems"(3)] show ?thesis by (auto simp: u)
  next
    case False
    with "1.IH" [OF i "1.prems"(1,2)] show ?thesis by (auto simp: u)
  qed
qed

text \<open>A cut ends where a token cannot go on, so a token inside one is inside it wholly.\<close>

lemma ascii_ws_not_tokenish: "is_ascii_ws c \<Longrightarrow> \<not> is_tokenish c"
  by (auto simp: is_ascii_ws_def is_tokenish_def is_ascii_alnum_def is_ascii_upper_def
      is_ascii_lower_def is_ascii_digit_def)

lemma value_end_stop:
  assumes "value_end arg v d < length arg" and "list_all (\<lambda>c. \<not> is_tokenish c) d"
  shows "\<not> is_tokenish (arg ! value_end arg v d)"
proof -
  have "is_ascii_ws (arg ! value_end arg v d) \<or> arg ! value_end arg v d \<in> set d"
    using assms(1) unfolding value_end_def by (drule_tac advance_stop) simp
  then show ?thesis
    using assms(2) ascii_ws_not_tokenish unfolding list_all_iff by blast
qed

lemma delims_not_tokenish:
  "list_all (\<lambda>c. \<not> is_tokenish c) [CHR 0x22, CHR 0x27, CHR ''}'']"
  "list_all (\<lambda>c. \<not> is_tokenish c) [CHR ''&'', CHR 0x22, CHR 0x27]"
  by code_simp+

lemma token_at_cases:
  "token_at b i = Some j \<Longrightarrow>
    prefixed_token_at TOKEN_PREFIXES b i = Some j \<or> aws_token_at b i = Some j"
  by (cases "prefixed_token_at TOKEN_PREFIXES b i") (simp_all add: token_at_def)

lemma credential_end:
  assumes "credential_from arg k a b" and "b < length arg"
  shows "\<not> is_tokenish (arg ! b) \<or> (\<forall>m. a \<le> m \<longrightarrow> m < b \<longrightarrow> is_ascii_alnum (arg ! m))"
proof -
  consider "scheme_value arg k = Some (a, b)"
    | "snd (assigned_value arg k) = (a, b)"
    | "prefixed_token_at TOKEN_PREFIXES arg a = Some b"
    | "aws_token_at arg a = Some b"
    using assms(1) token_at_cases [of arg k b] unfolding credential_from_def by blast
  then show ?thesis
  proof cases
    case 1
    then show ?thesis
      by (rule scheme_valueE) (use assms(2) value_end_stop delims_not_tokenish in metis)
  next
    case 2
    then have "b = value_end arg a [CHR ''&'', CHR 0x22, CHR 0x27]"
      by (auto simp: assigned_value_def Let_def)
    with assms(2) value_end_stop delims_not_tokenish show ?thesis by metis
  next
    case 3
    with prefixed_token_from obtain m where "b = advance is_tokenish arg m" by blast
    with assms(2) advance_stop show ?thesis by blast
  next
    case 4
    from aws_token_run(1) [OF 4] show ?thesis by (auto simp: is_ascii_alnum_def)
  qed
qed

lemma token_within_cut:
  assumes cut: "credential_from arg k' a b" and tok: "word_start arg k" "token_at arg k = Some e"
    and k: "a \<le> k" "k < b"
  shows "e \<le> b"
proof (rule ccontr)
  assume "\<not> e \<le> b"
  then have be: "b < e" by simp
  with token_at_bounds(2) [OF tok(2)] have bl: "b < length arg" by simp
  from token_run(1) [OF tok(2)] k be have "is_tokenish (arg ! b)" by simp
  with credential_end [OF cut bl] have al: "\<forall>m. a \<le> m \<longrightarrow> m < b \<longrightarrow> is_ascii_alnum (arg ! m)"
    by blast
  show False
  proof (cases "k = a")
    case True
    from cut consider "scheme_value arg k' = Some (a, b)" | "snd (assigned_value arg k') = (a, b)"
      | "token_at arg a = Some b"
      by (auto simp: credential_from_def)
    then show False
    proof cases
      case 1
      then show False
        by (rule scheme_valueE)
           (use bl \<open>is_tokenish (arg ! b)\<close> value_end_stop delims_not_tokenish in metis)
    next
      case 2
      then have "b = value_end arg a [CHR ''&'', CHR 0x22, CHR 0x27]"
        by (auto simp: assigned_value_def Let_def)
      with bl \<open>is_tokenish (arg ! b)\<close> value_end_stop delims_not_tokenish show False by metis
    next
      case 3
      with tok(2) True be show False by simp
    qed
  next
    case False
    with al k have "is_ascii_alnum (arg ! (k - 1))" by simp
    with tok(1) k False show False by (simp add: word_start_def)
  qed
qed

section \<open>Properties\<close>

lemma redact_plain_cuts:
  assumes "\<And>k a b. k < length arg \<Longrightarrow> \<not> credential_from arg k a b"
  shows "redact_cuts arg i = []"
proof (cases "redact_cuts arg i")
  case (Cons c cs)
  then have "(fst c, snd c) \<in> set (redact_cuts arg i)" by simp
  with redact_cuts_credential assms show ?thesis by blast
qed

text \<open>
  C16: Redaction of a command-line argument never panics on a character boundary, and
  changes nothing but disjoint spans, each of them a credential by one of the three rules
  (the value after an authorisation scheme, the value after a secret's \<open>=\<close>, a token that
  names its own kind), which it shows as the marker.
\<close>

theorem redact_shows_only_markers:
  assumes "utf8_valid (as_bytes arg)"
  shows "redact arg = Some (render arg 0 (redact_cuts arg 0)) \<and>
    spans_ok (length arg) 0 (redact_cuts arg 0) \<and>
    (\<forall>(a, b) \<in> set (redact_cuts arg 0). \<exists>k < length arg. credential_from arg k a b)"
  using redact_render [OF assms] redact_cuts_ok [of 0 arg] redact_cuts_credential [of _ _ arg 0]
  by auto

theorem redact_shows_only_markers_witness:
  "utf8_valid (as_bytes ''--token=abc'') \<and>
   redact ''--token=abc'' = Some ''--token=[redacted]''"
proof -
  have u: "utf8_valid (as_bytes ''--token=abc'')" by code_simp
  from redact_shows_only_markers [OF u]
  have "redact ''--token=abc'' = Some (render ''--token=abc'' 0 (redact_cuts ''--token=abc'' 0))"
    by blast
  moreover have "render ''--token=abc'' 0 (redact_cuts ''--token=abc'' 0) = ''--token=[redacted]''"
    by code_simp
  ultimately show ?thesis using u by simp
qed



text \<open>
  A token that names its own kind (\<open>ghp_...\<close>, \<open>AKIA...\<close> and the rest) and does not
  start inside a word is hidden whole, wherever in the argument it stands: some cut span
  holds all of it.
\<close>

lemma redact_hides_tokens:
  assumes "word_start arg k" and "token_at arg k = Some e"
  shows "\<exists>(a, b) \<in> set (redact_cuts arg 0). a \<le> k \<and> e \<le> b"
proof -
  have cred: "credential_from arg k k e" using assms by (simp add: credential_from_def)
  have k: "k < length arg" using token_at_bounds [OF assms(2)] by simp
  from redact_cuts_complete [OF cred k, of 0]
  consider a b where "(a, b) \<in> set (redact_cuts arg 0)" "a \<le> k" "k < b" | "(k, e) \<in> set (redact_cuts arg 0)"
    by (auto simp: hidden_start_def list_ex_iff)
  then show ?thesis
  proof cases
    case 1
    with redact_cuts_credential [OF 1(1)] token_within_cut [OF _ assms] show ?thesis by blast
  next
    case 2
    then show ?thesis by blast
  qed
qed

theorem redact_hides_tokens_witness:
  "word_start ''xx ghp_FAKE12345678 yy'' 3 \<and> token_at ''xx ghp_FAKE12345678 yy'' 3 = Some 19 \<and>
   (\<exists>(a, b) \<in> set (redact_cuts ''xx ghp_FAKE12345678 yy'' 0). a \<le> 3 \<and> 19 \<le> b)"
proof -
  have w: "word_start ''xx ghp_FAKE12345678 yy'' 3" by code_simp
  have t: "token_at ''xx ghp_FAKE12345678 yy'' 3 = Some 19" by code_simp
  from redact_hides_tokens [OF w t] w t show ?thesis by blast
qed

text \<open>An argument in which no rule finds a credential comes through unchanged.\<close>

lemma redact_ordinary_unchanged:
  assumes "utf8_valid (as_bytes arg)"
    and "\<And>k a b. k < length arg \<Longrightarrow> \<not> credential_from arg k a b"
  shows "redact arg = Some arg"
  using redact_render [OF assms(1)] redact_plain_cuts [OF assms(2)]
  by (simp add: slice_def)

theorem redact_ordinary_unchanged_witness: "redact ''ls'' = Some ''ls''"
proof (rule redact_ordinary_unchanged)
  show "utf8_valid (as_bytes ''ls'')" by code_simp
next
  fix k :: nat and a b assume "k < length ''ls''"
  then have k: "k = 0 \<or> k = 1" by auto
  have "scheme_value ''ls'' 0 = None \<and> scheme_value ''ls'' 1 = None" by code_simp
  moreover have "token_at ''ls'' 0 = None \<and> token_at ''ls'' 1 = None" by code_simp
  ultimately show "\<not> credential_from ''ls'' k a b" using k by (auto simp: credential_from_def)
qed

end
