(* ===== verification/Proc.thy ===== *)
theory Proc
  imports Redact
begin

text \<open>
  \<open>daemon/src/attrib.rs\<close>: what the daemon knows of one process (\<open>ProcInfo\<close>), and the
  parser of the kernel's \<open>KERN_PROCARGS2\<close> buffer that yields its argument list and
  environment. The kernel calls themselves are inputs: the buffer's bytes, the process
  table.
\<close>

section \<open>ProcInfo\<close>

record proc_info =
  pi_pid :: int
  pi_name :: "string option"
  pi_path :: "string option"
  pi_cwd :: "string option"
  pi_args :: "string list"

definition commandline :: "proc_info \<Rightarrow> string" where
  "commandline p = (if pi_args p = [] then unwrap_or (pi_path p) [] else join '' '' (pi_args p))"

definition name_is :: "string \<Rightarrow> proc_info \<Rightarrow> bool" where
  "name_is n p \<longleftrightarrow> pi_name p = Some n"

section \<open>The kernel's argument buffer\<close>

text \<open>A C string field of a fixed-size array: the bytes before the first NUL.\<close>

definition cstr_field :: "bytes \<Rightarrow> string option" where
  "cstr_field f =
    (let bytes = takeWhile (\<lambda>b. b \<noteq> 0) f
     in if bytes = [] then None else from_utf8 bytes)"

text \<open>
  The closure \<open>take\<close>: skip NULs, then the string up to the next NUL. It returns the
  string, \<open>None\<close> at the end of the buffer or for bytes that are not UTF-8, and the rest
  of the buffer.
\<close>

definition take_arg :: "bytes \<Rightarrow> string option \<times> bytes" where
  "take_arg buf =
    (let b = dropWhile (\<lambda>x. x = 0) buf
     in if b = [] then (None, [])
        else (from_utf8 (takeWhile (\<lambda>x. x \<noteq> 0) b), dropWhile (\<lambda>x. x \<noteq> 0) b))"

fun take_args :: "nat \<Rightarrow> bytes \<Rightarrow> string list \<times> bytes" where
  "take_args 0 buf = ([], buf)"
| "take_args (Suc n) buf =
    (case take_arg buf of
       (None, rest) \<Rightarrow> ([], rest)
     | (Some a, rest) \<Rightarrow> (case take_args n rest of (as, rest') \<Rightarrow> (a # as, rest')))"

lemma take_arg_shorter:
  assumes "take_arg buf = (Some a, rest)"
  shows "length rest < length buf"
proof -
  let ?b = "dropWhile (\<lambda>x. x = 0) buf"
  from assms have ne: "?b \<noteq> []" and rest: "rest = dropWhile (\<lambda>x. x \<noteq> 0) ?b"
    by (auto simp: take_arg_def Let_def split: if_splits)
  from ne have "hd ?b \<noteq> 0" by (rule hd_dropWhile)
  with ne rest have "length rest < length ?b"
    by (cases ?b) (auto simp: length_dropWhile_less_Suc)
  also have "\<dots> \<le> length buf" by (rule length_dropWhile_le)
  finally show ?thesis .
qed

text \<open>The environment: every string with an \<open>=\<close> after a non-empty name, until a read fails.\<close>

function take_env :: "bytes \<Rightarrow> (string \<times> string) list" where
  "take_env buf =
    (case take_arg buf of
       (None, _) \<Rightarrow> []
     | (Some e, rest) \<Rightarrow>
         (case split_once e ''='' of
            Some (k, v) \<Rightarrow> (if k \<noteq> [] then (k, v) # take_env rest else take_env rest)
          | None \<Rightarrow> take_env rest))"
  by pat_completeness auto
termination
  by (relation "measure length") (auto dest: take_arg_shorter sym)

declare take_env.simps [simp del]

text \<open>
  \<open>proc_argv_env\<close> on the buffer \<open>sysctl\<close> filled, \<open>None\<close> when either call failed. The
  first four bytes are \<open>argc\<close>, native (little-endian) order; then come the exec path and
  its NUL padding.
\<close>

definition u32_from_le :: "bytes \<Rightarrow> nat" where
  "u32_from_le b =
    unat (b ! 0) + 256 * unat (b ! 1) + 65536 * unat (b ! 2) + 16777216 * unat (b ! 3)"

definition proc_argv_env :: "bytes option \<Rightarrow> string list \<times> (string \<times> string) list" where
  "proc_argv_env procargs =
    (case procargs of
       None \<Rightarrow> ([], [])
     | Some buf \<Rightarrow>
         if length buf < 4 then ([], [])
         else
           let argc = u32_from_le buf;
               i = dropWhile (\<lambda>x. x = 0) (dropWhile (\<lambda>x. x \<noteq> 0) (drop 4 buf));
               (args, rest) = take_args argc i
           in (args, take_env rest))"

text \<open>
  \<open>proc_args\<close> keeps the arguments redacted. Its arguments are UTF-8, for which
  \<open>redact\<close> always answers (\<open>proc_args_redacted\<close>), so the default is never used.
\<close>

definition proc_args :: "bytes option \<Rightarrow> string list" where
  "proc_args procargs = map (\<lambda>a. unwrap_or (redact a) []) (fst (proc_argv_env procargs))"

section \<open>What the parser keeps\<close>

lemma from_utf8_Some: "from_utf8 bs = Some s \<longleftrightarrow> utf8_valid bs \<and> s = of_bytes bs"
  by (auto simp: from_utf8_def)

lemma take_arg_utf8: "take_arg buf = (Some a, rest) \<Longrightarrow> utf8_valid (as_bytes a)"
  by (auto simp: take_arg_def Let_def from_utf8_Some split: if_splits)

lemma take_args_utf8: "a \<in> set (fst (take_args n buf)) \<Longrightarrow> utf8_valid (as_bytes a)"
  by (induction n buf rule: take_args.induct) (auto split: prod.splits option.splits dest: take_arg_utf8)

lemma argv_utf8: "a \<in> set (fst (proc_argv_env b)) \<Longrightarrow> utf8_valid (as_bytes a)"
  by (auto simp: proc_argv_env_def Let_def split: option.splits if_splits prod.splits)
     (metis fst_conv take_args_utf8)

lemma proc_args_redacted: "map Some (proc_args b) = map redact (fst (proc_argv_env b))"
  by (auto simp: proc_args_def redact_render argv_utf8)

lemma take_env_step:
  "take_arg buf = (None, rest) \<Longrightarrow> take_env buf = []"
  "take_arg buf = (Some e, rest) \<Longrightarrow>
    take_env buf = (case split_once e ''='' of
        Some (k, v) \<Rightarrow> (if k \<noteq> [] then [(k, v)] else []) | None \<Rightarrow> []) @ take_env rest"
  by (subst take_env.simps, simp split: option.splits)+

text \<open>
  What the parser makes of a buffer of NUL-terminated strings: runs of NULs are skipped,
  so an empty string in it is lost, and the ones after it move up.
\<close>

definition lay_out :: "string list \<Rightarrow> bytes" where
  "lay_out xs = concat (map (\<lambda>x. as_bytes x @ [0]) xs)"

definition c_string :: "string \<Rightarrow> bool" where
  "c_string x \<longleftrightarrow> 0 \<notin> set (as_bytes x) \<and> utf8_valid (as_bytes x)"

definition env_pairs :: "string list \<Rightarrow> (string \<times> string) list" where
  "env_pairs xs =
    concat (map (\<lambda>e. case split_once e ''='' of
      Some (k, v) \<Rightarrow> if k \<noteq> [] then [(k, v)] else [] | None \<Rightarrow> []) xs)"

lemma take_arg_lay_out:
  assumes "c_string x" and ne: "x \<noteq> []"
  shows "take_arg (as_bytes x @ 0 # rest) = (Some x, 0 # rest)"
proof -
  obtain b bs where x: "as_bytes x = b # bs" and "b \<noteq> 0"
    using assms by (cases "as_bytes x") (auto simp: c_string_def as_bytes_def)
  then have d: "dropWhile (\<lambda>x. x = 0) (as_bytes x @ 0 # rest) = as_bytes x @ 0 # rest" by simp
  have nz: "\<forall>y \<in> set (as_bytes x). y \<noteq> 0" using assms by (auto simp: c_string_def)
  have tw: "takeWhile (\<lambda>x. x \<noteq> 0) (as_bytes x @ 0 # rest) = as_bytes x"
    and dw: "dropWhile (\<lambda>x. x \<noteq> 0) (as_bytes x @ 0 # rest) = 0 # rest"
    using nz by (auto simp: takeWhile_append2 dropWhile_append2)
  show ?thesis using d tw dw assms by (simp add: take_arg_def Let_def from_utf8_def c_string_def)
qed

lemma take_arg_skip [simp]: "take_arg (0 # buf) = take_arg buf"
  by (simp add: take_arg_def)

lemma take_env_skip [simp]: "take_env (0 # buf) = take_env buf"
  by (simp add: take_env.simps [of "0 # buf"] take_env.simps [of buf])

lemma take_env_Nil [simp]: "take_env [] = []"
  by (simp add: take_env.simps take_arg_def)

lemma take_args_skip:
  "fst (take_args n (0 # buf)) = fst (take_args n buf)"
  "take_env (snd (take_args n (0 # buf))) = take_env (snd (take_args n buf))"
  by (cases n; simp)+

lemma take_args_Nil [simp]: "take_args n [] = ([], [])"
  by (cases n) (simp_all add: take_arg_def)

lemma parse_lay_out:
  assumes "\<forall>x \<in> set xs. c_string x"
  shows "fst (take_args n (lay_out xs)) = take n (filter (\<lambda>x. x \<noteq> []) xs) \<and>
    take_env (snd (take_args n (lay_out xs))) = env_pairs (drop n (filter (\<lambda>x. x \<noteq> []) xs))"
  using assms
proof (induction xs arbitrary: n)
  case Nil
  then show ?case by (simp add: lay_out_def env_pairs_def)
next
  case (Cons x xs)
  have lay: "lay_out (x # xs) = as_bytes x @ 0 # lay_out xs" by (simp add: lay_out_def)
  show ?case
  proof (cases "x = []")
    case True
    then have "lay_out (x # xs) = 0 # lay_out xs" by (simp add: lay_out_def as_bytes_def)
    with Cons True show ?thesis by (simp add: take_args_skip)
  next
    case False
    with Cons.prems have t: "take_arg (lay_out (x # xs)) = (Some x, 0 # lay_out xs)"
      by (simp add: lay take_arg_lay_out)
    show ?thesis
    proof (cases n)
      case 0
      have "take_env (lay_out (x # xs)) = env_pairs [x] @ take_env (lay_out xs)"
        by (subst take_env.simps) (simp add: t env_pairs_def split: option.splits)
      with 0 False Cons.IH [of 0] Cons.prems show ?thesis by (simp add: env_pairs_def)
    next
      case (Suc m)
      have "take_args n (lay_out (x # xs)) =
          (x # fst (take_args m (0 # lay_out xs)), snd (take_args m (0 # lay_out xs)))"
        by (simp add: Suc t split: prod.splits)
      with Suc False Cons.IH [of m] Cons.prems show ?thesis by (simp add: take_args_skip)
    qed
  qed
qed

text \<open>The buffer the kernel fills: \<open>argc\<close>, the exec path, NUL padding, argv, the environment.\<close>

definition procargs_buffer :: "bytes \<Rightarrow> string \<Rightarrow> nat \<Rightarrow> string list \<Rightarrow> string list \<Rightarrow> bytes" where
  "procargs_buffer argc exec pad args env =
    argc @ as_bytes exec @ replicate (Suc pad) 0 @ lay_out (args @ env)"

text \<open>
  C17: Reading the kernel's argument buffer: the parser returns the first \<open>argc\<close> non-empty
  strings as arguments, redacts nothing yet, and the \<open>name=value\<close> strings after them as the
  environment. With no empty argument that is the process's own argv and environment; an
  empty argument is lost, and the first string of the environment takes its place among
  the arguments.
\<close>

theorem proc_argv_env_of_buffer:
  assumes "length argc = 4" and "u32_from_le argc = length args"
    and "c_string exec" and "\<forall>x \<in> set (args @ env). c_string x"
  shows "proc_argv_env (Some (procargs_buffer argc exec pad args env)) =
    (take (length args) (filter (\<lambda>x. x \<noteq> []) (args @ env)),
     env_pairs (drop (length args) (filter (\<lambda>x. x \<noteq> []) (args @ env))))"
proof -
  let ?b = "procargs_buffer argc exec pad args env"
  have nz: "\<forall>y \<in> set (as_bytes exec). y \<noteq> 0" using assms(3) by (auto simp: c_string_def)
  have d4: "drop 4 ?b = as_bytes exec @ replicate (Suc pad) 0 @ lay_out (args @ env)"
    using assms(1) by (simp add: procargs_buffer_def)
  have "dropWhile (\<lambda>x. x \<noteq> 0) (drop 4 ?b) = replicate (Suc pad) 0 @ lay_out (args @ env)"
    using nz by (simp add: d4 dropWhile_append2)
  moreover have "dropWhile (\<lambda>x. x = 0) (replicate n 0 @ bs) = dropWhile (\<lambda>x. x = 0) bs"
    for n and bs :: bytes by (induction n) auto
  ultimately have i: "dropWhile (\<lambda>x. x = 0) (dropWhile (\<lambda>x. x \<noteq> 0) (drop 4 ?b)) =
      dropWhile (\<lambda>x. x = 0) (lay_out (args @ env))"
    by (simp del: replicate_Suc)
  have drop0: "fst (take_args n (dropWhile (\<lambda>x. x = 0) bs)) = fst (take_args n bs) \<and>
      take_env (snd (take_args n (dropWhile (\<lambda>x. x = 0) bs))) = take_env (snd (take_args n bs))" for n bs
    by (induction bs) (simp_all add: take_args_skip)
  have argc: "u32_from_le ?b = length args"
    using assms(1,2) by (simp add: u32_from_le_def procargs_buffer_def nth_append)
  have "4 \<le> length ?b" using assms(1) by (simp add: procargs_buffer_def)
  then have "proc_argv_env (Some ?b) =
      (fst (take_args (length args) (lay_out (args @ env))),
       take_env (snd (take_args (length args) (lay_out (args @ env)))))"
    using drop0 [of "length args" "lay_out (args @ env)"]
    by (simp add: proc_argv_env_def Let_def argc i case_prod_beta)
  with parse_lay_out [OF assms(4), of "length args"] show ?thesis by simp
qed

theorem proc_argv_env_of_buffer_witness:
  "proc_argv_env (Some (procargs_buffer [2, 0, 0, 0] ''/bin/x'' 3 [''x'', ''''] [''S=1'', ''T=2''])) =
    ([''x'', ''S=1''], [(''T'', ''2'')])"
proof -
  have c: "length [2, 0, 0, 0 :: byte] = 4" "u32_from_le [2, 0, 0, 0] = length [''x'', '''']"
    by (simp_all add: u32_from_le_def)
  have d: "c_string ''/bin/x''" "\<forall>x \<in> set ([''x'', ''''] @ [''S=1'', ''T=2'']). c_string x"
    by code_simp+
  have "take (length [''x'', '''']) (filter (\<lambda>x. x \<noteq> []) ([''x'', ''''] @ [''S=1'', ''T=2''])) = [''x'', ''S=1'']"
    by simp
  moreover have "env_pairs (drop (length [''x'', ''''])
      (filter (\<lambda>x. x \<noteq> []) ([''x'', ''''] @ [''S=1'', ''T=2'']))) = [(''T'', ''2'')]"
    by (simp add: env_pairs_def split_once_def)
  ultimately show ?thesis
    using proc_argv_env_of_buffer [OF c d, of 3] by (simp only:)
qed

end
