(* ===== verification/Rust_Path.thy ===== *)
theory Rust_Path
  imports Rust_Str
begin

text \<open>
  The parts of \<open>std::path\<close> the daemon uses, on Unix paths held as strings: joining, the
  parent, the file name and its stem. As in Rust, a trailing slash and a \<open>/.\<close> are not
  components, and a file name is never \<open>.\<close> or \<open>..\<close>.
\<close>

definition path_join :: "string \<Rightarrow> string \<Rightarrow> string" where
  "path_join a b =
    (if starts_with b ''/'' then b
     else if a = [] then b
     else if ends_with a ''/'' then a @ b
     else a @ ''/'' @ b)"

text \<open>The path without the separators and current-directory components at its end.\<close>

function path_trim :: "string \<Rightarrow> string" where
  "path_trim s =
    (if (ends_with s ''/'' \<and> 1 < length s) \<or> ends_with s ''/.'' then path_trim (butlast s) else s)"
  by pat_completeness auto
termination
proof (relation "measure length", goal_cases)
  case 1
  show ?case by simp
next
  case (2 s)
  then have "s \<noteq> []" by (auto elim: ends_withE)
  then show ?case by (cases s) auto
qed

declare path_trim.simps [simp del]

definition last_component :: "string \<Rightarrow> string" where
  "last_component t = rev (takeWhile (\<lambda>c. c \<noteq> CHR ''/'') (rev t))"

definition path_parent :: "string \<Rightarrow> string option" where
  "path_parent s =
    (let t = path_trim s; c = last_component t; rest = take (length t - length c) t
     in if t = [] \<or> t = ''/'' then None
        else if rest = [] then Some [] else Some (path_trim rest))"

definition file_name :: "string \<Rightarrow> string option" where
  "file_name s =
    (let t = path_trim s; c = last_component t
     in if c = [] \<or> c = ''.'' \<or> c = ''..'' then None else Some c)"

definition file_stem :: "string \<Rightarrow> string option" where
  "file_stem s =
    map_option (\<lambda>n.
      let ext = takeWhile (\<lambda>c. c \<noteq> CHR ''.'') (rev n);
          stem = take (length n - length ext - 1) n
      in if length ext = length n \<or> stem = [] then n else stem) (file_name s)"

lemma length_path_trim: "length (path_trim s) \<le> length s"
proof (induction s rule: path_trim.induct)
  case (1 s)
  then show ?case by (subst path_trim.simps) auto
qed

lemma path_trim_end: "path_trim s = t \<Longrightarrow> 1 < length t \<Longrightarrow> \<not> ends_with t ''/''"
proof (induction s rule: path_trim.induct)
  case (1 s)
  show ?case
  proof (cases "(ends_with s ''/'' \<and> 1 < length s) \<or> ends_with s ''/.''")
    case True
    with 1 show ?thesis by (simp add: path_trim.simps [of s])
  next
    case False
    then have "path_trim s = s" by (subst path_trim.simps) auto
    with "1.prems" False show ?thesis by auto
  qed
qed

lemma path_parent_shorter:
  assumes "path_parent s = Some q"
  shows "length q < length s"
proof -
  define t where "t = path_trim s"
  define c where "c = last_component t"
  have ts: "length t \<le> length s" by (simp add: t_def length_path_trim)
  from assms have t: "t \<noteq> []" "t \<noteq> ''/''" by (auto simp: path_parent_def Let_def t_def split: if_splits)
  have c: "c \<noteq> []"
  proof
    assume "c = []"
    with t(1) have "last t = CHR ''/''"
      by (simp add: c_def last_component_def takeWhile_eq_Nil_iff hd_rev)
    with t(1) have "t = butlast t @ ''/''" by (metis append_butlast_last_id)
    then have "ends_with t ''/''" by (metis ends_with_append)
    moreover have "1 < length t"
      using t \<open>t = butlast t @ ''/''\<close> by (cases "butlast t") auto
    ultimately show False using path_trim_end [of s t] by (simp add: t_def)
  qed
  have "length q \<le> length t - length c"
    using assms length_path_trim [of "take (length t - length c) t"]
    by (auto simp: path_parent_def Let_def t_def c_def split: if_splits)
  moreover have "length t - length c < length t" using c t by simp
  ultimately show ?thesis using ts by simp
qed

end
