(* ===== verification/Purpose.thy ===== *)
theory Purpose
  imports Proc Rust_Path
begin

text \<open>
  \<open>daemon/src/purpose.rs\<close>: what a signature is for, read off the caller's process chain.
  The one thing it reads from disk, whether a directory has a \<open>.git\<close>, is the argument
  \<open>exists_path\<close>.
\<close>

section \<open>Types\<close>

datatype purpose_kind =
  SshLogin | RemoteCommand | GitFetch | GitPush | GitOverSsh | CommitSigning | Signing
  | FileTransfer | Unknown

record purpose =
  pu_kind :: purpose_kind
  pu_summary :: string
  pu_host :: "string option"
  pu_repo :: "string option"
  pu_repo_path :: "string option"
  pu_remote_repo :: "string option"
  pu_namespace :: "string option"
  pu_remote_command :: "string option"

text \<open>Non-ASCII punctuation of the messages, in UTF-8.\<close>

definition ellipsis :: string where
  "ellipsis = [CHR 0xE2, CHR 0x80, CHR 0xA6]"

definition em_dash :: string where
  "em_dash = [CHR 0xE2, CHR 0x80, CHR 0x94]"

definition truncate_str :: "string \<Rightarrow> nat \<Rightarrow> string" where
  "truncate_str s n =
    (if char_count s \<le> n then s else concat (take n (utf8_chars s)) @ ellipsis)"

definition shorten :: "string \<Rightarrow> nat \<Rightarrow> string" where
  "shorten s n = truncate_str s n"

section \<open>Reading an ssh command line\<close>

definition SSH_TAKES_ARG :: "string list" where
  "SSH_TAKES_ARG =
    [''-o'', ''-i'', ''-p'', ''-l'', ''-F'', ''-b'', ''-c'', ''-D'', ''-E'', ''-e'', ''-I'',
     ''-J'', ''-L'', ''-m'', ''-O'', ''-Q'', ''-R'', ''-S'', ''-W'', ''-w'']"

text \<open>
  The loop of \<open>split_ssh\<close> from index \<open>i\<close> while there is no destination yet: the
  destination, and the index after it. An option's argument is skipped even when the
  command line ends before it.
\<close>

function split_ssh_loop :: "string list \<Rightarrow> nat \<Rightarrow> string option \<times> nat" where
  "split_ssh_loop args i =
    (if i < length args then
       let a = args ! i
       in if a \<in> set SSH_TAKES_ARG then split_ssh_loop args (i + 2)
          else if starts_with a ''-'' then split_ssh_loop args (i + 1)
          else (Some a, i + 1)
     else (None, i))"
  by pat_completeness auto
termination by (relation "measure (\<lambda>(args, i). length args - i)") auto

declare split_ssh_loop.simps [simp del]

definition split_ssh :: "string list \<Rightarrow> string option \<times> string option" where
  "split_ssh args =
    (let (dest, i) = split_ssh_loop args 1;
         rest = drop i args;
         cmd = (if rest = [] then None else Some (join '' '' rest))
     in (dest, cmd))"

definition arg_after :: "string list \<Rightarrow> string \<Rightarrow> string option" where
  "arg_after args flag =
    (case position (\<lambda>a. a = flag) args of None \<Rightarrow> None | Some i \<Rightarrow> nth_opt args (i + 1))"

section \<open>Repositories\<close>

function repo_root :: "(string \<Rightarrow> bool) \<Rightarrow> string \<Rightarrow> string option" where
  "repo_root exists_path p =
    (if exists_path (path_join p ''.git'') then Some p
     else (case path_parent p of None \<Rightarrow> None | Some q \<Rightarrow> repo_root exists_path q))"
  by pat_completeness auto
termination
  by (relation "measure (\<lambda>(f, p). length p)") (auto dest: path_parent_shorter)

declare repo_root.simps [simp del]

definition basename :: "string \<Rightarrow> string" where
  "basename p = unwrap_or (file_name p) p"

definition is_quote :: "string \<Rightarrow> bool" where
  "is_quote g \<longleftrightarrow> g = [CHR 0x27] \<or> g = [CHR 0x22]"

definition pack_repo :: "string \<Rightarrow> string option" where
  "pack_repo arg =
    (case or_else (split_once arg ''git-upload-pack'') (split_once arg ''git-receive-pack'') of
       None \<Rightarrow> None
     | Some (_, rest) \<Rightarrow>
         let trimmed = trim_by is_quote (trim rest)
         in if trimmed = [] then None else Some trimmed)"

definition git_cwd :: "proc_info list \<Rightarrow> string option" where
  "git_cwd chain =
    or_else
      (case find (name_is ''git'') chain of None \<Rightarrow> None | Some p \<Rightarrow> pi_cwd p)
      (case chain of [] \<Rightarrow> None | p # _ \<Rightarrow> pi_cwd p)"

section \<open>Classification\<close>

definition unknown_purpose :: purpose where
  "unknown_purpose =
    \<lparr>pu_kind = Unknown, pu_summary = ''Unknown request'', pu_host = None, pu_repo = None,
     pu_repo_path = None, pu_remote_repo = None, pu_namespace = None, pu_remote_command = None\<rparr>"

text \<open>The branch \<open>name == "ssh-keygen"\<close> with the operation \<open>sign\<close>.\<close>

definition classify_keygen :: "string list \<Rightarrow> string option \<Rightarrow> string option \<Rightarrow> purpose option" where
  "classify_keygen args repo local =
    (if unwrap_or (arg_after args ''-Y'') [] = ''sign'' then
       let ns = arg_after args ''-n'';
           (kind, summary) =
             (case ns of
                Some n \<Rightarrow>
                  (if n = ''git'' then
                     (case repo of
                        Some r \<Rightarrow> (CommitSigning, ''Signed a git commit in '' @ r)
                      | None \<Rightarrow> (CommitSigning, ''Signed a git commit''))
                   else (Signing, ''Signed data (namespace '' @ n @ '')''))
              | None \<Rightarrow> (Signing, ''Signed data''))
       in Some \<lparr>pu_kind = kind, pu_summary = summary, pu_host = None, pu_repo = repo,
            pu_repo_path = local, pu_remote_repo = None, pu_namespace = ns,
            pu_remote_command = None\<rparr>
     else None)"

definition classify_transfer :: "string list \<Rightarrow> string option \<Rightarrow> string option \<Rightarrow> purpose" where
  "classify_transfer args repo local =
    (let (dest, _) = split_ssh args
     in \<lparr>pu_kind = FileTransfer,
         pu_summary = (case dest of Some h \<Rightarrow> ''File transfer with '' @ h | None \<Rightarrow> ''File transfer''),
         pu_host = dest, pu_repo = repo, pu_repo_path = local, pu_remote_repo = None,
         pu_namespace = None, pu_remote_command = None\<rparr>)"

definition with_remote_repo :: "string \<Rightarrow> string option \<Rightarrow> string" where
  "with_remote_repo s r = (case r of Some r \<Rightarrow> s @ '' '' @ em_dash @ '' '' @ r | None \<Rightarrow> s)"

definition classify_ssh :: "proc_info list \<Rightarrow> string list \<Rightarrow> string option \<Rightarrow> string option \<Rightarrow> purpose" where
  "classify_ssh chain args repo local =
    (let (dest, cmd) = split_ssh args;
         host = unwrap_or dest ''unknown host'';
         remote_repo = (case cmd of None \<Rightarrow> None | Some c \<Rightarrow> pack_repo c)
     in case cmd of
          Some c \<Rightarrow>
            (if contains c ''git-receive-pack'' then
               \<lparr>pu_kind = GitPush,
                pu_summary = with_remote_repo (''git push to '' @ host) remote_repo,
                pu_host = dest, pu_repo = repo, pu_repo_path = local, pu_remote_repo = remote_repo,
                pu_namespace = None, pu_remote_command = cmd\<rparr>
             else if contains c ''git-upload-pack'' then
               \<lparr>pu_kind = GitFetch,
                pu_summary = with_remote_repo (''git fetch from '' @ host) remote_repo,
                pu_host = dest, pu_repo = repo, pu_repo_path = local, pu_remote_repo = remote_repo,
                pu_namespace = None, pu_remote_command = cmd\<rparr>
             else
               \<lparr>pu_kind = RemoteCommand,
                pu_summary = ''Ran `'' @ truncate_str c 60 @ ''` on '' @ host,
                pu_host = dest, pu_repo = repo, pu_repo_path = local, pu_remote_repo = None,
                pu_namespace = None, pu_remote_command = cmd\<rparr>)
        | None \<Rightarrow>
            let via_git = list_ex (name_is ''git'') chain
            in \<lparr>pu_kind = (if via_git then GitOverSsh else SshLogin),
                pu_summary = (if via_git then ''git over SSH to '' else ''SSH login to '') @ host,
                pu_host = dest, pu_repo = repo, pu_repo_path = local, pu_remote_repo = None,
                pu_namespace = None, pu_remote_command = None\<rparr>)"

definition classify_other :: "string \<Rightarrow> string option \<Rightarrow> string option \<Rightarrow> purpose" where
  "classify_other name repo local =
    \<lparr>pu_kind = Unknown,
     pu_summary = (if name = [] then ''A process'' else name) @ '' used your key'',
     pu_host = None, pu_repo = repo, pu_repo_path = local, pu_remote_repo = None,
     pu_namespace = None, pu_remote_command = None\<rparr>"

definition classify :: "(string \<Rightarrow> bool) \<Rightarrow> proc_info list \<Rightarrow> purpose" where
  "classify exists_path chain =
    (case chain of
       [] \<Rightarrow> unknown_purpose
     | caller # _ \<Rightarrow>
         let name = unwrap_or (pi_name caller) [];
             args = pi_args caller;
             local = (case git_cwd chain of None \<Rightarrow> None | Some c \<Rightarrow> repo_root exists_path c);
             repo = map_option basename local;
             signing = (if name = ''ssh-keygen'' \<and> list_ex (\<lambda>a. a = ''-Y'') args
                        then classify_keygen args repo local else None)
         in case signing of
              Some p \<Rightarrow> p
            | None \<Rightarrow>
                if name = ''scp'' \<or> name = ''sftp'' then classify_transfer args repo local
                else if name = ''ssh'' then classify_ssh chain args repo local
                else classify_other name repo local)"

section \<open>Truncation\<close>

lemma ellipsis_one_char: "starts_clean ellipsis" "char_count ellipsis = 1"
  by (simp_all add: ellipsis_def starts_clean_def char_count_def is_cont_def)

lemma starts_clean_take: "starts_clean s \<Longrightarrow> starts_clean (concat (take n (utf8_chars s)))"
proof (cases "concat (take n (utf8_chars s))")
  case (Cons c cs)
  assume s: "starts_clean s"
  have "concat (take n (utf8_chars s)) @ concat (drop n (utf8_chars s)) = s"
    by (simp flip: concat_append)
  with Cons have "hd s = c \<and> s \<noteq> []" by (metis append_Cons list.sel(1) list.distinct(1))
  with s Cons show ?thesis by (cases s) (auto simp: starts_clean_def)
qed (simp only: starts_clean_def list.case)

lemma truncate_str_length:
  assumes "starts_clean s"
  shows "char_count (truncate_str s n) \<le> n + 1"
  using assms char_count_append [OF starts_clean_take [OF assms] ellipsis_one_char(1), of n]
  by (auto simp: truncate_str_def char_count_take ellipsis_one_char)

section \<open>The destination is the first operand\<close>

text \<open>An ssh command line's options: a flag alone, or a flag and its argument.\<close>

datatype ssh_opt = Flag string | Pair string string

fun ssh_opt_ok :: "ssh_opt \<Rightarrow> bool" where
  "ssh_opt_ok (Flag f) \<longleftrightarrow> starts_with f ''-'' \<and> f \<notin> set SSH_TAKES_ARG"
| "ssh_opt_ok (Pair f a) \<longleftrightarrow> f \<in> set SSH_TAKES_ARG"

fun ssh_opt_words :: "ssh_opt \<Rightarrow> string list" where
  "ssh_opt_words (Flag f) = [f]"
| "ssh_opt_words (Pair f a) = [f, a]"

lemma split_ssh_loop_opts:
  assumes "list_all ssh_opt_ok opts" and "\<not> starts_with dest ''-''"
  shows "split_ssh_loop (pre @ concat (map ssh_opt_words opts) @ dest # cmd) (length pre) =
    (Some dest, length pre + length (concat (map ssh_opt_words opts)) + 1)"
  using assms(1)
proof (induction opts arbitrary: pre)
  case Nil
  have "dest \<notin> set SSH_TAKES_ARG" using assms(2) by (auto simp: SSH_TAKES_ARG_def)
  with assms(2) show ?case by (subst split_ssh_loop.simps) (simp add: Let_def)
next
  case (Cons x opts)
  show ?case
  proof (cases x)
    case (Flag f)
    with Cons.prems Cons.IH [of "pre @ [f]"] show ?thesis
      by (subst split_ssh_loop.simps) (simp add: Let_def)
  next
    case (Pair f a)
    with Cons.prems Cons.IH [of "pre @ [f, a]"] show ?thesis
      by (subst split_ssh_loop.simps) (simp add: Let_def)
  qed
qed

text \<open>
  Splitting an ssh command line: whatever options stand before it, with or without an
  argument of their own, the first word that is neither is the destination, and everything
  after it is the remote command.
\<close>

lemma split_ssh_operand:
  assumes "list_all ssh_opt_ok opts" and "\<not> starts_with dest ''-''"
  shows "split_ssh (prog # concat (map ssh_opt_words opts) @ dest # cmd) =
    (Some dest, if cmd = [] then None else Some (join '' '' cmd))"
  using split_ssh_loop_opts [OF assms, of "[prog]" cmd] by (simp add: split_ssh_def)

theorem split_ssh_operand_witness:
  "split_ssh [''ssh'', ''-4'', ''-p'', ''22'', ''me@host'', ''uptime'', ''-p''] =
    (Some ''me@host'', Some ''uptime -p'')"
proof -
  have "list_all ssh_opt_ok [Flag ''-4'', Pair ''-p'' ''22'']"
    and "\<not> starts_with ''me@host'' ''-''"
    by (simp_all add: SSH_TAKES_ARG_def)
  from split_ssh_operand [OF this, of "''ssh''" "[''uptime'', ''-p'']"] show ?thesis by simp
qed

section \<open>What git's own command lines are classified as\<close>

lemma find_sub_prefix: "starts_with s p \<Longrightarrow> find_sub s p = Some 0"
  by (cases s) (auto elim: starts_withE)

lemma split_once_prefix: "split_once (p @ s) p = Some ([], s)"
  by (simp add: split_once_def find_sub_prefix)

lemma contains_prefix: "contains (p @ s) p"
  by (simp add: contains_def find_sub_prefix)

lemma utf8_chars_wrap:
  assumes "starts_clean r"
  shows "utf8_chars ([CHR 0x20, CHR 0x27] @ r @ [CHR 0x27]) =
    [[CHR 0x20], [CHR 0x27]] @ utf8_chars r @ [[CHR 0x27]]"
proof -
  have "utf8_chars (concat ([[CHR 0x20], [CHR 0x27]] @ utf8_chars r @ [[CHR 0x27]])) =
      [[CHR 0x20], [CHR 0x27]] @ utf8_chars r @ [[CHR 0x27]]"
    by (rule utf8_chars_concat)
       (use utf8_chars_clean [OF assms] utf8_chars_group in \<open>auto simp: utf8_group_def is_cont_def\<close>)
  then show ?thesis by simp
qed

lemma is_ws_space: "is_ws [CHR 0x20]" and quote_not_ws: "\<not> is_ws [CHR 0x27]"
  by (simp_all add: is_ws_def ws_chars_def)

text \<open>A repository path git would quote as it is.\<close>

definition plain_repo :: "string \<Rightarrow> bool" where
  "plain_repo r \<longleftrightarrow> r \<noteq> [] \<and> starts_clean r \<and>
     \<not> is_quote (hd (utf8_chars r)) \<and> \<not> is_quote (last (utf8_chars r))"

lemma dropWhile_hd: "xs \<noteq> [] \<Longrightarrow> \<not> P (hd xs) \<Longrightarrow> dropWhile P xs = xs"
  by (cases xs) auto

lemma trim_quoted:
  assumes "plain_repo r"
  shows "trim_by is_quote (trim ([CHR 0x20, CHR 0x27] @ r @ [CHR 0x27])) = r"
proof -
  let ?q = "[CHR 0x27]"
  have clean: "starts_clean r" and ne: "utf8_chars r \<noteq> []"
    using assms by (auto simp: plain_repo_def) (metis concat_utf8_chars concat.simps(1))
  have t: "trim ([CHR 0x20, CHR 0x27] @ r @ [CHR 0x27]) = ?q @ r @ ?q"
    unfolding trim_by_def utf8_chars_wrap [OF clean]
    by (simp add: is_ws_space quote_not_ws)
  have u: "utf8_chars (?q @ r @ ?q) = [?q] @ utf8_chars r @ [?q]"
  proof -
    have "utf8_chars (concat ([?q] @ utf8_chars r @ [?q])) = [?q] @ utf8_chars r @ [?q]"
      by (rule utf8_chars_concat)
         (use utf8_chars_clean [OF clean] utf8_chars_group in \<open>auto simp: utf8_group_def is_cont_def\<close>)
    then show ?thesis by simp
  qed
  have q: "is_quote ?q" by (simp add: is_quote_def)
  have h: "\<not> is_quote (hd (utf8_chars r @ [?q]))" "\<not> is_quote (hd (rev (utf8_chars r)))"
    using assms ne by (simp_all add: plain_repo_def hd_rev)
  have "dropWhile is_quote (utf8_chars (?q @ r @ ?q)) = utf8_chars r @ [?q]"
    unfolding u using h(1) q by (simp add: dropWhile_hd)
  moreover have "dropWhile is_quote (rev (utf8_chars r @ [?q])) = rev (utf8_chars r)"
    using h(2) q ne by (simp add: dropWhile_hd)
  ultimately show ?thesis unfolding t by (simp add: trim_by_def)
qed

lemma pack_repo_receive:
  assumes "plain_repo r"
    and "\<not> contains (''git-receive-pack'' @ [CHR 0x20, CHR 0x27] @ r @ [CHR 0x27]) ''git-upload-pack''"
  shows "pack_repo (''git-receive-pack'' @ [CHR 0x20, CHR 0x27] @ r @ [CHR 0x27]) = Some r"
proof -
  let ?c = "''git-receive-pack'' @ [CHR 0x20, CHR 0x27] @ r @ [CHR 0x27]"
  have n: "split_once ?c ''git-upload-pack'' = None"
    using assms(2) by (simp only: contains_def split_once_def) auto
  have s: "split_once ?c ''git-receive-pack'' = Some ([], [CHR 0x20, CHR 0x27] @ r @ [CHR 0x27])"
    by (rule split_once_prefix)
  show ?thesis
    unfolding pack_repo_def n s option.case prod.case trim_quoted [OF assms(1)] Let_def
    using assms(1) by (simp add: plain_repo_def)
qed

text \<open>The ssh that \<open>git push\<close> runs.\<close>

definition push_caller :: "proc_info \<Rightarrow> ssh_opt list \<Rightarrow> string \<Rightarrow> string \<Rightarrow> bool" where
  "push_caller p opts dest r \<longleftrightarrow>
     pi_name p = Some ''ssh'' \<and>
     pi_args p = ''ssh'' # concat (map ssh_opt_words opts) @
       [dest, ''git-receive-pack'' @ [CHR 0x20, CHR 0x27] @ r @ [CHR 0x27]] \<and>
     list_all ssh_opt_ok opts \<and> \<not> starts_with dest ''-''"

text \<open>
  A push as git makes it, \<open>ssh [options] host "git-receive-pack 'repo'"\<close>, is classified
  as a push to that host, with the remote repository taken out of its quotes, whatever the
  process chain above it.
\<close>

lemma classify_git_push:
  assumes "push_caller p opts dest r" and "plain_repo r"
    and "\<not> contains (''git-receive-pack'' @ [CHR 0x20, CHR 0x27] @ r @ [CHR 0x27]) ''git-upload-pack''"
  shows "pu_kind (classify ex (p # ps)) = GitPush \<and>
    pu_host (classify ex (p # ps)) = Some dest \<and>
    pu_remote_repo (classify ex (p # ps)) = Some r \<and>
    pu_summary (classify ex (p # ps)) =
      ''git push to '' @ dest @ '' '' @ em_dash @ '' '' @ r"
proof -
  let ?c = "''git-receive-pack'' @ [CHR 0x20, CHR 0x27] @ r @ [CHR 0x27]"
  have sp: "split_ssh (pi_args p) = (Some dest, Some ?c)"
    using assms(1) split_ssh_operand [of opts dest "''ssh''" "[?c]"]
    by (simp add: push_caller_def)
  have c: "contains ?c ''git-receive-pack''" by (rule contains_prefix)
  note pr = pack_repo_receive [OF assms(2,3)]
  have name: "pi_name p = Some ''ssh''" using assms(1) by (simp add: push_caller_def)
  have cl: "classify ex (p # ps) = classify_ssh (p # ps) (pi_args p)
      (map_option basename (case git_cwd (p # ps) of None \<Rightarrow> None | Some c \<Rightarrow> repo_root ex c))
      (case git_cwd (p # ps) of None \<Rightarrow> None | Some c \<Rightarrow> repo_root ex c)"
    by (simp add: classify_def name Let_def)
  show ?thesis
    using c unfolding cl classify_ssh_def sp prod.case option.case Let_def pr with_remote_repo_def
    by simp
qed

definition push_example :: proc_info where
  "push_example =
    \<lparr>pi_pid = 4, pi_name = Some ''ssh'', pi_path = None, pi_cwd = None,
     pi_args = [''ssh'', ''-p'', ''22'', ''git@host'',
       ''git-receive-pack'' @ [CHR 0x20, CHR 0x27] @ ''me/repo.git'' @ [CHR 0x27]]\<rparr>"

theorem classify_git_push_witness:
  "pu_kind (classify (\<lambda>_. False) [push_example]) = GitPush \<and>
   pu_remote_repo (classify (\<lambda>_. False) [push_example]) = Some ''me/repo.git''"
proof -
  have c: "push_caller push_example [Pair ''-p'' ''22''] ''git@host'' ''me/repo.git''"
    by (simp add: push_caller_def push_example_def SSH_TAKES_ARG_def)
  have r: "plain_repo ''me/repo.git''" by code_simp
  have n: "\<not> contains (''git-receive-pack'' @ [CHR 0x20, CHR 0x27] @ ''me/repo.git'' @ [CHR 0x27])
      ''git-upload-pack''" by code_simp
  from classify_git_push [OF c r n] show ?thesis by blast
qed

lemma classify_ssh_kind:
  "pu_kind (classify_ssh chain args repo local) \<in>
    {GitPush, GitFetch, RemoteCommand, GitOverSsh, SshLogin}"
  by (auto simp: classify_ssh_def Let_def split: option.splits prod.splits)

lemma classify_keygen_kind:
  "classify_keygen args repo local = Some p \<Longrightarrow>
    pu_kind p = CommitSigning \<and> arg_after args ''-n'' = Some ''git'' \<or>
    pu_kind p = Signing \<and> arg_after args ''-n'' \<noteq> Some ''git''"
  by (auto simp: classify_keygen_def Let_def split: if_splits option.splits prod.splits)

lemma classify_keygen_None:
  "classify_keygen args repo local = None \<longleftrightarrow> unwrap_or (arg_after args ''-Y'') [] \<noteq> ''sign''"
  by (auto simp: classify_keygen_def Let_def split: prod.splits)

lemma arg_after_member: "arg_after args f = Some v \<Longrightarrow> list_ex (\<lambda>a. a = f) args"
  by (auto simp: arg_after_def list_ex_iff dest!: position_Some split: option.splits)

text \<open>
  A request is called commit signing exactly when the caller is \<open>ssh-keygen\<close> run as
  \<open>-Y sign\<close> with the namespace \<open>-n git\<close>; no other process, operation or namespace is.
\<close>

lemma classify_commit_signing_iff:
  "pu_kind (classify ex chain) = CommitSigning \<longleftrightarrow>
    (case chain of
       [] \<Rightarrow> False
     | p # _ \<Rightarrow> pi_name p = Some ''ssh-keygen'' \<and> arg_after (pi_args p) ''-Y'' = Some ''sign'' \<and>
         arg_after (pi_args p) ''-n'' = Some ''git'')"
proof (cases chain)
  case Nil
  then show ?thesis by (simp add: classify_def unknown_purpose_def)
next
  case (Cons p ps)
  define local where "local = (case git_cwd chain of None \<Rightarrow> None | Some c \<Rightarrow> repo_root ex c)"
  define repo where "repo = map_option basename local"
  show ?thesis
  proof (cases "pi_name p = Some ''ssh-keygen'' \<and> arg_after (pi_args p) ''-Y'' = Some ''sign''")
    case True
    then obtain q where q: "classify_keygen (pi_args p) repo local = Some q"
      using classify_keygen_None [of "pi_args p" repo local] by (cases "classify_keygen (pi_args p) repo local") auto
    have k: "(if unwrap_or (pi_name p) [] = ''ssh-keygen'' \<and> list_ex (\<lambda>a. a = ''-Y'') (pi_args p)
        then classify_keygen (pi_args p) repo local else None) = Some q"
      using True q arg_after_member [of "pi_args p" "''-Y''"] by simp
    have "classify ex chain = q"
      unfolding classify_def Cons list.case Let_def
      unfolding Cons [symmetric] local_def [symmetric] repo_def [symmetric] k
      by simp
    with classify_keygen_kind [OF q] True Cons show ?thesis by auto
  next
    case False
    have "pu_kind (classify ex chain) \<noteq> CommitSigning"
    proof -
      have k: "(if unwrap_or (pi_name p) [] = ''ssh-keygen'' \<and> list_ex (\<lambda>a. a = ''-Y'') (pi_args p)
          then classify_keygen (pi_args p) repo local else None) = None"
        using False by (auto simp: classify_keygen_None split: option.splits)
      have "classify ex chain \<in> {classify_transfer (pi_args p) repo local,
          classify_ssh chain (pi_args p) repo local, classify_other (unwrap_or (pi_name p) []) repo local}"
        unfolding classify_def Cons list.case Let_def
        unfolding Cons [symmetric] local_def [symmetric] repo_def [symmetric] k
        by simp
      then show ?thesis
        using classify_ssh_kind [of chain "pi_args p" repo local]
        by (auto simp: classify_transfer_def classify_other_def split: prod.splits)
    qed
    with False Cons show ?thesis by auto
  qed
qed

end
