(* ===== verification/Request_Context.thy ===== *)
theory Request_Context
  imports Purpose
begin

text \<open>
  \<open>daemon/src/context.rs\<close>: what the caller's environment, a declaration file and the
  repository say about a request. Everything read from the machine is a field of the
  record \<open>os\<close>: the environment buffers, files, directories, the \<open>git\<close> program and the
  JSON parser, one consistent snapshot for the time of a request.
\<close>

section \<open>The machine\<close>

text \<open>\<open>serde_json::Value\<close>; a number is kept as its text.\<close>

datatype json =
  JNull | JBool bool | JNumber string | JString string | JArray "json list"
  | JObject "(string \<times> json) list"

text \<open>
  A call of the kernel answers with what it wrote, or fails: \<open>proc_pidinfo\<close> for a process and
  a flavour, \<open>proc_pidfdinfo\<close> for a descriptor of it too, \<open>proc_pidpath\<close>. \<open>sysctl\<close> and
  \<open>getsockopt\<close> answer with a return code and the value.
\<close>

record os =
  os_home :: "string option"
  os_pidinfo :: "int \<Rightarrow> int \<Rightarrow> bytes option"
  os_pidfdinfo :: "int \<Rightarrow> int \<Rightarrow> int \<Rightarrow> bytes option"
  os_pidpath :: "int \<Rightarrow> bytes option"
  os_argmax :: "int \<times> int"
  os_procargs2 :: "int \<Rightarrow> int \<times> bytes"
  os_peerpid :: "int \<Rightarrow> int \<times> int"
  os_read :: "string \<Rightarrow> string option"
  os_exists :: "string \<Rightarrow> bool"
  os_is_dir :: "string \<Rightarrow> bool"
  os_is_file :: "string \<Rightarrow> bool"
  os_read_dir :: "string \<Rightarrow> string list option"
  os_canonicalize :: "string \<Rightarrow> string option"
  os_git :: "string list \<Rightarrow> (bool \<times> bytes) option"
  os_json :: "string \<Rightarrow> json option"
  os_gathered_in_time :: bool

section \<open>Types\<close>

record git_context =
  gc_branch :: "string option"
  gc_remote :: "string option"
  gc_subject :: "string option"
  gc_push_remote :: "string option"
  gc_push_remote_url :: "string option"
  gc_commits :: "string list"
  gc_commit_count :: "nat option"
  gc_stat :: "string option"
  gc_upstream :: "string option"

definition empty_git :: git_context where
  "empty_git =
    \<lparr>gc_branch = None, gc_remote = None, gc_subject = None, gc_push_remote = None,
     gc_push_remote_url = None, gc_commits = [], gc_commit_count = None, gc_stat = None,
     gc_upstream = None\<rparr>"

record req_context =
  cx_env :: "string \<rightharpoonup> string"
  cx_env_from_pid :: "int option"
  cx_env_from :: "string option"
  cx_declared :: "json option"
  cx_declared_from_pid :: "int option"
  cx_git :: "git_context option"
  cx_session_title :: "string option"

definition empty_context :: req_context where
  "empty_context =
    \<lparr>cx_env = Map.empty, cx_env_from_pid = None, cx_env_from = None, cx_declared = None,
     cx_declared_from_pid = None, cx_git = None, cx_session_title = None\<rparr>"

definition cx_truncate :: "string \<Rightarrow> nat \<Rightarrow> string" where
  "cx_truncate s n =
    (if char_count s \<le> n then s else concat (take n (utf8_chars s)) @ ellipsis)"

section \<open>The environment\<close>

text \<open>
  The two \<open>sysctl\<close> calls at the head of \<open>proc_argv_env\<close> (\<open>daemon/src/attrib.rs\<close>): how large the
  buffer may be, and the process's own.
\<close>

definition procargs :: "os \<Rightarrow> int \<Rightarrow> bytes option" where
  "procargs m pid =
    (let (rc, argmax) = os_argmax m
     in if rc \<noteq> 0 \<or> argmax \<le> 0 then None
        else let (rc, buf) = os_procargs2 m pid in if rc \<noteq> 0 then None else Some buf)"

definition ENV_ALLOW :: "string list" where
  "ENV_ALLOW =
    [''CLAUDE_CODE_ENTRYPOINT'', ''CLAUDE_CODE_HOST_SESSION_ID'', ''CLAUDE_AGENT_SDK_VERSION'',
     ''CLAUDE_CODE_SUBSCRIPTION_TYPE'', ''FRIZZ_THREAD'', ''OTEL_SERVICE_NAME'',
     ''OTEL_RESOURCE_ATTRIBUTES'', ''BAGGAGE'', ''TERM_PROGRAM'', ''__CFBundleIdentifier'',
     ''SSH_CONNECTION'']"

definition secret_needles :: "string list" where
  "secret_needles =
    [''TOKEN'', ''SECRET'', ''PASSWORD'', ''PASSWD'', ''APIKEY'', ''API_KEY'', ''CREDENTIAL'',
     ''COOKIE'']"

definition looks_secret :: "string \<Rightarrow> bool" where
  "looks_secret key \<longleftrightarrow> list_ex (contains (map ascii_upper key)) secret_needles"

definition wanted :: "string \<Rightarrow> bool" where
  "wanted key \<longleftrightarrow>
    (if looks_secret key then False
     else starts_with key ''KEYWARD_'' \<or> List.member ENV_ALLOW key)"

text \<open>\<open>collect\<close> into a map: of two pairs with one key the later one stays.\<close>

fun env_from_chain ::
  "os \<Rightarrow> proc_info list \<Rightarrow> (string \<rightharpoonup> string) \<times> int option \<times> string option" where
  "env_from_chain m [] = (Map.empty, None, None)"
| "env_from_chain m (p # ps) =
    (let env = snd (proc_argv_env (procargs m (pi_pid p)))
     in if env = [] then env_from_chain m ps
        else
          (map_of (rev (map (\<lambda>(k, v). (k, cx_truncate v 400)) (filter (\<lambda>(k, v). wanted k) env))),
           Some (pi_pid p), pi_name p))"

definition context_dir :: "os \<Rightarrow> string" where
  "context_dir m =
    path_join (unwrap_or (os_home m) ''/tmp'') ''Library/Application Support/Keyward/context''"

definition declaration_path :: "os \<Rightarrow> proc_info \<Rightarrow> string" where
  "declaration_path m p = path_join (context_dir m) (show_int (pi_pid p) @ ''.json'')"

fun declared_for :: "os \<Rightarrow> proc_info list \<Rightarrow> json option \<times> int option" where
  "declared_for m [] = (None, None)"
| "declared_for m (p # ps) =
    (case os_read m (declaration_path m p) of
       None \<Rightarrow> declared_for m ps
     | Some s \<Rightarrow>
         (case os_json m s of
            None \<Rightarrow> declared_for m ps
          | Some v \<Rightarrow> (Some v, Some (pi_pid p))))"

section \<open>Session titles\<close>

definition json_title :: "json \<Rightarrow> string option" where
  "json_title v =
    (case v of
       JObject kvs \<Rightarrow> (case map_of (rev kvs) ''title'' of Some (JString t) \<Rightarrow> Some t | _ \<Rightarrow> None)
     | _ \<Rightarrow> None)"

text \<open>
  The first record of the session among \<open><root>/<workspace>/<project>\<close>: the loop skips the
  workspaces it cannot list and the projects without the file, and answers on the first
  one that has it, readable or not.
\<close>

definition session_title :: "os \<Rightarrow> string \<Rightarrow> string option" where
  "session_title m ident =
    (if ident = [] \<or> contains ident ''/'' \<or> contains ident ''..'' then None
     else
       (case os_home m of
          None \<Rightarrow> None
        | Some home \<Rightarrow>
            let root = path_join home ''Library/Application Support/Claude/claude-code-sessions'';
                target_file = ident @ ''.json''
            in (case os_read_dir m root of
                  None \<Rightarrow> None
                | Some as \<Rightarrow>
                    let bs = concat (map (\<lambda>a. unwrap_or (os_read_dir m a) []) as)
                    in (case find (os_is_file m) (map (\<lambda>b. path_join b target_file) bs) of
                          None \<Rightarrow> None
                        | Some f \<Rightarrow>
                            (case os_read m f of
                               None \<Rightarrow> None
                             | Some txt \<Rightarrow>
                                 (case os_json m txt of
                                    None \<Rightarrow> None
                                  | Some v \<Rightarrow>
                                      (case json_title v of
                                         None \<Rightarrow> None
                                       | Some t \<Rightarrow>
                                           if t = [] then None else Some (cx_truncate t 90))))))))"

fun frizz_walk :: "os \<Rightarrow> proc_info list \<Rightarrow> string option" where
  "frizz_walk m [] = None"
| "frizz_walk m (p # ps) =
    (case find (\<lambda>(k, v). k = ''FRIZZ_THREAD'' \<and> v \<noteq> [])
            (snd (proc_argv_env (procargs m (pi_pid p)))) of
       Some (_, v) \<Rightarrow> Some (cx_truncate v 90)
     | None \<Rightarrow> frizz_walk m ps)"

definition frizz_thread :: "os \<Rightarrow> proc_info list \<Rightarrow> (string \<rightharpoonup> string) \<Rightarrow> string option" where
  "frizz_thread m chain env =
    (case env ''FRIZZ_THREAD'' of
       Some v \<Rightarrow> (if v \<noteq> [] then Some v else frizz_walk m chain)
     | None \<Rightarrow> frizz_walk m chain)"

section \<open>The repository\<close>

definition git_dir :: "os \<Rightarrow> string \<Rightarrow> string option" where
  "git_dir m repo =
    (let dot = path_join repo ''.git''
     in if os_is_dir m dot then Some dot
        else (case os_read m dot of
                None \<Rightarrow> None
              | Some s \<Rightarrow>
                  (case strip_prefix (trim s) ''gitdir:'' of
                     None \<Rightarrow> None
                   | Some p \<Rightarrow> Some (path_join repo (trim p)))))"

definition common_dir :: "os \<Rightarrow> string \<Rightarrow> string" where
  "common_dir m gitdir =
    (case os_read m (path_join gitdir ''commondir'') of
       Some s \<Rightarrow> path_join gitdir (trim s)
     | None \<Rightarrow> gitdir)"

definition main_checkout :: "os \<Rightarrow> string \<Rightarrow> string option" where
  "main_checkout m repo_path =
    (case git_dir m repo_path of
       None \<Rightarrow> None
     | Some gd \<Rightarrow>
         let common = common_dir m gd;
             common = unwrap_or (os_canonicalize m common) common
         in (case file_name common of
               Some n \<Rightarrow> (if n = ''.git'' then path_parent common else None)
             | None \<Rightarrow> None))"

text \<open>The loop over the lines of the shared config; the flag is \<open>in_origin\<close>.\<close>

fun origin_scan :: "bool \<Rightarrow> string list \<Rightarrow> string option" where
  "origin_scan in_origin [] = None"
| "origin_scan in_origin (l # ls) =
    (let t = trim l
     in if starts_with t ''['' then origin_scan (starts_with t ''[remote \"origin\"]'') ls
        else if in_origin then
          (case strip_prefix t ''url'' of
             Some v \<Rightarrow> Some (trim (trim_start_matches (trim v) ''=''))
           | None \<Rightarrow> origin_scan in_origin ls)
        else origin_scan in_origin ls)"

definition origin_url :: "os \<Rightarrow> string \<Rightarrow> string option" where
  "origin_url m gitdir =
    (case os_read m (path_join (common_dir m gitdir) ''config'') of
       None \<Rightarrow> None
     | Some cfg \<Rightarrow> origin_scan False (lines cfg))"

definition head_branch :: "string \<Rightarrow> string" where
  "head_branch head =
    (let h = trim head
     in unwrap_or (strip_prefix h ''ref: refs/heads/'') (concat (take 12 (utf8_chars h))))"

definition message_subject :: "string \<Rightarrow> string option" where
  "message_subject msg =
    map_option (\<lambda>l. cx_truncate l 200)
      (find (\<lambda>l. l \<noteq> [] \<and> \<not> starts_with l ''#'') (map trim (lines msg)))"

definition git_context_of :: "os \<Rightarrow> string \<Rightarrow> bool \<Rightarrow> git_context option" where
  "git_context_of m repo_path want_message =
    (case git_dir m repo_path of
       None \<Rightarrow> None
     | Some gitdir \<Rightarrow>
         let branch = map_option head_branch (os_read m (path_join gitdir ''HEAD''));
             subject =
               (if want_message then
                  (case os_read m (path_join gitdir ''COMMIT_EDITMSG'') of
                     None \<Rightarrow> None
                   | Some msg \<Rightarrow> message_subject msg)
                else None)
         in Some (empty_git\<lparr>gc_branch := branch, gc_remote := origin_url m gitdir,
              gc_subject := subject\<rparr>))"

definition git_out :: "os \<Rightarrow> string \<Rightarrow> string list \<Rightarrow> string option" where
  "git_out m repo args =
    (case os_git m (''-C'' # repo # args) of
       None \<Rightarrow> None
     | Some (success, out) \<Rightarrow>
         if \<not> success then None
         else let s = trim (from_utf8_lossy out) in if s = [] then None else Some s)"

section \<open>Pushes\<close>

definition PUSH_TAKES_ARG :: "string list" where
  "PUSH_TAKES_ARG = [''-o'', ''--push-option'', ''--receive-pack'', ''--exec'', ''--repo'']"

text \<open>The loop of \<open>push_args\<close> over the words after \<open>push\<close>; the flag is \<open>skip\<close>.\<close>

fun push_positional :: "bool \<Rightarrow> string list \<Rightarrow> string list" where
  "push_positional skip [] = []"
| "push_positional skip (a # as) =
    (if skip then push_positional False as
     else if a = ''--'' then push_positional False as
     else if starts_with a ''-'' then push_positional (List.member PUSH_TAKES_ARG a) as
     else a # push_positional False as)"

definition push_args :: "proc_info list \<Rightarrow> (string option \<times> string option) option" where
  "push_args chain =
    (case find (name_is ''git'') chain of
       None \<Rightarrow> None
     | Some git \<Rightarrow>
         (case position (\<lambda>a. a = ''push'') (pi_args git) of
            None \<Rightarrow> None
          | Some i \<Rightarrow>
              let positional = push_positional False (drop (i + 1) (pi_args git))
              in Some (nth_opt positional 0, nth_opt positional 1)))"

text \<open>\<open>str::parse::<u32>\<close>: an optional plus, then digits, no more than \<open>2^32 - 1\<close>.\<close>

definition digits_value :: "string \<Rightarrow> nat" where
  "digits_value ds = foldl (\<lambda>n c. 10 * n + (code c - 48)) 0 ds"

definition parse_u32 :: "string \<Rightarrow> nat option" where
  "parse_u32 s =
    (let ds = unwrap_or (strip_prefix s ''+'') s
     in if ds \<noteq> [] \<and> list_all is_ascii_digit ds \<and> digits_value ds < 2 ^ 32
        then Some (digits_value ds) else None)"

definition minus_sign :: string where
  "minus_sign = [CHR 0xE2, CHR 0x88, CHR 0x92]"

definition first_word :: "string \<Rightarrow> string" where
  "first_word p = (case split_whitespace p of [] \<Rightarrow> ''0'' | w # _ \<Rightarrow> w)"

fun shortstat_parts :: "string \<times> string \<times> string \<Rightarrow> string list \<Rightarrow> string \<times> string \<times> string" where
  "shortstat_parts acc [] = acc"
| "shortstat_parts (files, ins, del) (part # parts) =
    (let p = trim part
     in if contains p ''file'' then shortstat_parts (p, ins, del) parts
        else if contains p ''insertion'' then shortstat_parts (files, first_word p, del) parts
        else if contains p ''deletion'' then shortstat_parts (files, ins, first_word p) parts
        else shortstat_parts (files, ins, del) parts)"

definition tidy_shortstat :: "string \<Rightarrow> string" where
  "tidy_shortstat s =
    (case shortstat_parts ([], ''0'', ''0'') (split_on (CHR '','') s) of
       (files, ins, del) \<Rightarrow> files @ '', +'' @ ins @ '' '' @ minus_sign @ del)"

definition push_source :: "string option \<Rightarrow> string option \<Rightarrow> string" where
  "push_source branch refspec =
    (let named =
       (case refspec of
          None \<Rightarrow> None
        | Some r \<Rightarrow>
            let s = trim_start_matches (hd (split_on (CHR '':'') r)) ''+''
            in if s = [] then None else Some s)
     in unwrap_or (or_else named branch) ''HEAD'')"

definition push_summary ::
  "os \<Rightarrow> string \<Rightarrow> string option \<Rightarrow> string option \<Rightarrow> string option \<Rightarrow> git_context" where
  "push_summary m repo branch remote refspec =
    (let src = push_source branch refspec;
         src_short = trim_start_matches src ''refs/heads/'';
         remote_name =
           or_else remote
             (git_out m repo [''config'', ''--get'', ''branch.'' @ src_short @ ''.remote'']);
         url =
           (case remote_name of
              None \<Rightarrow> None | Some r \<Rightarrow> git_out m repo [''remote'', ''get-url'', r]);
         upstream =
           (case remote_name of
              None \<Rightarrow> None
            | Some r \<Rightarrow>
                map_option (\<lambda>_. r @ ''/'' @ src_short)
                  (git_out m repo
                    [''rev-parse'', ''--verify'', ''--quiet'',
                     ''refs/remotes/'' @ r @ ''/'' @ src_short]));
         range = (case upstream of Some u \<Rightarrow> u @ ''..'' @ src | None \<Rightarrow> src);
         count =
           (case git_out m repo [''rev-list'', ''--count'', range] of
              None \<Rightarrow> None | Some s \<Rightarrow> parse_u32 s);
         commits =
           (case git_out m repo [''log'', ''--format=%h %s'', ''-n'', ''12'', range] of
              None \<Rightarrow> [] | Some list \<Rightarrow> map (\<lambda>l. cx_truncate l 120) (lines list));
         stat =
           (case upstream of
              None \<Rightarrow> None
            | Some u \<Rightarrow>
                map_option tidy_shortstat
                  (git_out m repo [''diff'', ''--shortstat'', u @ ''..'' @ src]))
     in empty_git\<lparr>gc_push_remote := remote_name, gc_push_remote_url := url,
          gc_upstream := upstream, gc_commit_count := count, gc_commits := commits,
          gc_stat := stat\<rparr>)"

section \<open>Gathering\<close>

definition with_push :: "git_context option \<Rightarrow> git_context \<Rightarrow> git_context" where
  "with_push git p =
    (unwrap_or git empty_git)
      \<lparr>gc_push_remote := gc_push_remote p, gc_push_remote_url := gc_push_remote_url p,
       gc_commits := gc_commits p, gc_commit_count := gc_commit_count p, gc_stat := gc_stat p,
       gc_upstream := gc_upstream p\<rparr>"

definition gather :: "os \<Rightarrow> proc_info list \<Rightarrow> string option \<Rightarrow> bool \<Rightarrow> req_context" where
  "gather m chain repo_path signing_commit =
    (let (env, env_from_pid, env_from) = env_from_chain m chain;
         (declared, declared_from_pid) = declared_for m chain;
         git = (case repo_path of None \<Rightarrow> None | Some r \<Rightarrow> git_context_of m r signing_commit);
         git =
           (case (repo_path, push_args chain) of
              (Some repo, Some (remote, refspec)) \<Rightarrow>
                let branch = (case git of None \<Rightarrow> None | Some g \<Rightarrow> gc_branch g)
                in Some (with_push git (push_summary m repo branch remote refspec))
            | _ \<Rightarrow> git);
         titled =
           (case env ''CLAUDE_CODE_HOST_SESSION_ID'' of
              None \<Rightarrow> None | Some i \<Rightarrow> session_title m i)
     in \<lparr>cx_env = env, cx_env_from_pid = env_from_pid, cx_env_from = env_from,
         cx_declared = declared, cx_declared_from_pid = declared_from_pid, cx_git = git,
         cx_session_title = or_else titled (frizz_thread m chain env)\<rparr>)"

text \<open>
  \<open>recv_timeout\<close> either has the gathered context in time or gives up;
  \<open>os_gathered_in_time\<close> says which.
\<close>

definition gather_bounded :: "os \<Rightarrow> proc_info list \<Rightarrow> string option \<Rightarrow> bool \<Rightarrow> req_context" where
  "gather_bounded m chain repo_path signing_commit =
    (if os_gathered_in_time m then gather m chain repo_path signing_commit else empty_context)"

section \<open>What of the environment is kept\<close>

lemma cx_truncate_eq: "cx_truncate s n = truncate_str s n"
  by (simp add: cx_truncate_def truncate_str_def)

lemma cx_truncate_length: "starts_clean s \<Longrightarrow> char_count (cx_truncate s n) \<le> n + 1"
  using truncate_str_length [of s n] by (simp add: cx_truncate_eq)

lemma find_sub_Some: "find_sub s p = Some i \<Longrightarrow> starts_with (drop i s) p"
proof (induction s arbitrary: i)
  case Nil
  then show ?case by (simp split: if_splits)
next
  case (Cons c s)
  then show ?case by (auto split: if_splits)
qed

lemma split_once_eq: "split_once s p = Some (k, v) \<Longrightarrow> s = k @ p @ v"
proof -
  assume a: "split_once s p = Some (k, v)"
  then obtain i where i: "find_sub s p = Some i" and k: "k = take i s" and v: "v = drop (i + length p) s"
    by (auto simp: split_once_def)
  from find_sub_Some [OF i] obtain t where "drop i s = p @ t" by (auto elim: starts_withE)
  moreover have "v = drop (length p) (drop i s)" using v by (simp add: add.commute)
  ultimately have "drop i s = p @ v" by simp
  with k show ?thesis by (metis append_take_drop_id)
qed

text \<open>The value after an \<open>=\<close> begins with a whole character.\<close>

lemma value_starts_clean:
  assumes "utf8_valid (as_bytes e)" and "split_once e ''='' = Some (k, v)"
  shows "starts_clean v"
proof (cases v)
  case Nil
  then show ?thesis by (simp add: starts_clean_def)
next
  case (Cons c cs)
  from split_once_eq [OF assms(2)] Cons have e: "e = k @ CHR ''='' # c # cs" by simp
  have "\<not> cont_byte (as_bytes e ! Suc (length k))"
    by (rule utf8_valid_after_ascii [OF assms(1)]) (simp_all add: e as_bytes_def nth_append)
  then have "\<not> is_cont c" by (simp add: e as_bytes_def nth_append cont_byte_of_char)
  with Cons show ?thesis by (simp add: starts_clean_def)
qed

lemma take_env_clean: "(k, v) \<in> set (take_env buf) \<Longrightarrow> starts_clean v"
proof (induction buf rule: length_induct)
  case (1 buf)
  obtain r rest where t: "take_arg buf = (r, rest)" by (cases "take_arg buf")
  show ?case
  proof (cases r)
    case None
    with "1.prems" t take_env_step(1) [of buf rest] show ?thesis by simp
  next
    case (Some e)
    with t have less: "length rest < length buf" and utf8: "utf8_valid (as_bytes e)"
      using take_arg_shorter take_arg_utf8 by blast+
    from "1.prems" t Some take_env_step(2) [of buf e rest]
    consider "(k, v) \<in> set (take_env rest)" | "split_once e ''='' = Some (k, v)"
      by (auto split: option.splits if_splits)
    then show ?thesis by cases (use "1.IH" less value_starts_clean [OF utf8] in auto)
  qed
qed

definition env_of :: "os \<Rightarrow> proc_info \<Rightarrow> (string \<times> string) list" where
  "env_of m p = snd (proc_argv_env (procargs m (pi_pid p)))"

lemma env_of_clean: "(k, v) \<in> set (env_of m p) \<Longrightarrow> starts_clean v"
  by (auto simp: env_of_def proc_argv_env_def Let_def take_env_clean
      split: option.splits if_splits prod.splits)

lemma env_from_chain_first:
  assumes "env_from_chain m chain = (env, from, nm)" and "env k = Some v"
  obtains p pre post v0 where "chain = pre @ p # post" and "\<forall>q \<in> set pre. env_of m q = []"
    and "from = Some (pi_pid p)" and "(k, v0) \<in> set (env_of m p)" and "v = cx_truncate v0 400"
    and "wanted k"
  using assms
proof (induction chain arbitrary: thesis)
  case Nil
  then show ?case by auto
next
  case (Cons q chain)
  show ?case
  proof (cases "env_of m q = []")
    case True
    with Cons.prems have e: "env_from_chain m chain = (env, from, nm)" by (simp add: env_of_def)
    show ?thesis
    proof (rule Cons.IH [OF _ e Cons.prems(3)])
      fix pre p post v0
      assume *: "chain = pre @ p # post" "\<forall>q \<in> set pre. env_of m q = []"
        "from = Some (pi_pid p)" "(k, v0) \<in> set (env_of m p)" "v = cx_truncate v0 400" "wanted k"
      show thesis by (rule Cons.prems(1) [of "q # pre" p post v0]) (use * True in auto)
    qed
  next
    case False
    with Cons.prems(2)
    have env: "env = map_of (rev (map (\<lambda>(k, v). (k, cx_truncate v 400)) (filter (\<lambda>(k, v). wanted k) (env_of m q))))"
      and fr: "from = Some (pi_pid q)"
      by (auto simp: env_of_def Let_def)
    from Cons.prems(3) env
    have "(k, v) \<in> set (map (\<lambda>(k, v). (k, cx_truncate v 400)) (filter (\<lambda>(k, v). wanted k) (env_of m q)))"
      by (metis map_of_SomeD set_rev)
    then obtain v0 where "(k, v0) \<in> set (env_of m q)" "v = cx_truncate v0 400" "wanted k" by auto
    with fr show ?thesis by (intro Cons.prems(1) [of "[]" q chain v0]) auto
  qed
qed

lemma env_from_chain_wanted:
  assumes "env_from_chain m chain = (env, src, nm)" and "env k = Some v"
  shows "\<not> looks_secret k \<and> (starts_with k ''KEYWARD_'' \<or> k \<in> set ENV_ALLOW)"
proof -
  have "wanted k" by (rule env_from_chain_first [OF assms])
  then show ?thesis by (auto simp: wanted_def split: if_splits)
qed

lemma gather_bounded_env:
  assumes "cx_env (gather_bounded m chain repo signing) k = Some v"
  shows "\<not> looks_secret k \<and> (starts_with k ''KEYWARD_'' \<or> k \<in> set ENV_ALLOW)"
proof -
  obtain env src nm where e: "env_from_chain m chain = (env, src, nm)"
    by (cases "env_from_chain m chain")
  have "cx_env (gather m chain repo signing) = env" by (simp add: gather_def e Let_def split: prod.splits)
  with assms have "env k = Some v" by (auto simp: gather_bounded_def empty_context_def split: if_splits)
  from env_from_chain_wanted [OF e this] show ?thesis .
qed

text \<open>
  C39: The allow-list over a whole gathering: whatever variable reaches the log or the app,
  its name is on the list or begins with \<open>KEYWARD_\<close>, holds no word that names a secret,
  its value is at most 401 characters, and it is a variable of one process of the chain:
  the nearest one whose environment could be read.
\<close>

theorem gather_env_allowed:
  assumes "cx_env (gather m chain repo signing) k = Some v"
  shows "\<not> looks_secret k \<and> (starts_with k ''KEYWARD_'' \<or> k \<in> set ENV_ALLOW) \<and>
    char_count v \<le> 401 \<and>
    (\<exists>pre p post v0. chain = pre @ p # post \<and> (\<forall>q \<in> set pre. env_of m q = []) \<and>
       cx_env_from_pid (gather m chain repo signing) = Some (pi_pid p) \<and>
       (k, v0) \<in> set (env_of m p) \<and> v = cx_truncate v0 400)"
proof -
  obtain env src nm where e: "env_from_chain m chain = (env, src, nm)"
    by (cases "env_from_chain m chain")
  have g: "cx_env (gather m chain repo signing) = env"
    "cx_env_from_pid (gather m chain repo signing) = src"
    by (simp_all add: gather_def e Let_def split: prod.splits)
  with assms have "env k = Some v" by simp
  then obtain pre p post v0 where
    p: "chain = pre @ p # post" "\<forall>q \<in> set pre. env_of m q = []" "src = Some (pi_pid p)"
      "(k, v0) \<in> set (env_of m p)" "v = cx_truncate v0 400"
    using env_from_chain_first [OF e] by metis
  have "char_count v \<le> 401"
    using cx_truncate_length [OF env_of_clean [OF p(4)], of 400] p(5) by simp
  moreover have "\<not> looks_secret k \<and> (starts_with k ''KEYWARD_'' \<or> k \<in> set ENV_ALLOW)"
    using env_from_chain_wanted [OF e \<open>env k = Some v\<close>] .
  ultimately show ?thesis using p g by blast
qed

text \<open>A machine that answers nothing, to be filled in by the witnesses.\<close>

definition quiet_os :: os where
  "quiet_os =
    \<lparr>os_home = None, os_pidinfo = (\<lambda>_ _. None), os_pidfdinfo = (\<lambda>_ _ _. None),
     os_pidpath = (\<lambda>_. None), os_argmax = (0, 1048576), os_procargs2 = (\<lambda>_. (-1, [])),
     os_peerpid = (\<lambda>_. (-1, 0)), os_read = (\<lambda>_. None), os_exists = (\<lambda>_. False),
     os_is_dir = (\<lambda>_. False), os_is_file = (\<lambda>_. False), os_read_dir = (\<lambda>_. None),
     os_canonicalize = (\<lambda>_. None), os_git = (\<lambda>_. None), os_json = (\<lambda>_. None),
     os_gathered_in_time = True\<rparr>"

definition agent_os :: os where
  "agent_os = quiet_os\<lparr>os_procargs2 := (\<lambda>pid. if pid = 7 then
     (0, procargs_buffer [1, 0, 0, 0] ''/a'' 0 [''a''] [''BAGGAGE=x'', ''NPM_TOKEN=y'']) else (-1, []))\<rparr>"

definition plain_proc :: "int \<Rightarrow> proc_info" where
  "plain_proc pid = \<lparr>pi_pid = pid, pi_name = None, pi_path = None, pi_cwd = None, pi_args = []\<rparr>"

theorem gather_env_allowed_witness:
  "cx_env (gather agent_os [plain_proc 6, plain_proc 7] None False) ''BAGGAGE'' = Some ''x'' \<and>
   \<not> looks_secret ''BAGGAGE'' \<and>
   cx_env (gather agent_os [plain_proc 6, plain_proc 7] None False) ''NPM_TOKEN'' = None"
proof -
  have env: "env_from_chain agent_os [plain_proc 6, plain_proc 7] =
      ([''BAGGAGE'' \<mapsto> ''x''], Some 7, None)"
  proof -
    have c: "u32_from_le (1 # 0 # 0 # 0 # bs) = 1" for bs by (simp add: u32_from_le_def)
    have p: "proc_argv_env (Some (procargs_buffer [1, 0, 0, 0] ''/a'' 0 [''a'']
        [''BAGGAGE=x'', ''NPM_TOKEN=y''])) = ([''a''], [(''BAGGAGE'', ''x''), (''NPM_TOKEN'', ''y'')])"
    proof -
      let ?xs = "[''a''] @ [''BAGGAGE=x'', ''NPM_TOKEN=y'']"
      let ?b = "procargs_buffer [1, 0, 0, 0] ''/a'' 0 [''a''] [''BAGGAGE=x'', ''NPM_TOKEN=y'']"
      have i: "dropWhile (\<lambda>x. x = 0) (dropWhile (\<lambda>x. x \<noteq> 0) (drop 4 ?b)) = lay_out ?xs"
        by code_simp
      have l: "4 \<le> length ?b" "u32_from_le ?b = 1" by (simp_all add: procargs_buffer_def c)
      have s: "\<forall>x \<in> set ?xs. c_string x" by code_simp
      have "env_pairs [''BAGGAGE=x'', ''NPM_TOKEN=y''] = [(''BAGGAGE'', ''x''), (''NPM_TOKEN'', ''y'')]"
        by code_simp
      with parse_lay_out [OF s, of 1] l show ?thesis
        by (simp add: proc_argv_env_def Let_def i case_prod_beta del: take_args.simps)
    qed
    have w: "wanted ''BAGGAGE''" "\<not> wanted ''NPM_TOKEN''" by code_simp+
    have t: "cx_truncate ''x'' 400 = ''x''" by (simp add: cx_truncate_def char_count_def)
    have none: "proc_argv_env None = ([], [])" by (simp add: proc_argv_env_def)
    show ?thesis by (simp add: agent_os_def quiet_os_def plain_proc_def procargs_def p w t none)
  qed
  have e: "cx_env (gather agent_os [plain_proc 6, plain_proc 7] None False) ''BAGGAGE'' = Some ''x''"
    and n: "cx_env (gather agent_os [plain_proc 6, plain_proc 7] None False) ''NPM_TOKEN'' = None"
    by (simp_all add: gather_def env Let_def del: env_from_chain.simps split: prod.splits)
  from gather_env_allowed [OF e] e n show ?thesis by blast
qed

section \<open>Declarations\<close>

text \<open>
  Of the declarations filed against processes of the chain the nearest one that can be
  read and parsed is taken, and none only when no process of the chain has one.
\<close>

lemma declared_nearest:
  "(case declared_for m chain of
      (Some v, from) \<Rightarrow>
        (\<exists>pre p post s. chain = pre @ p # post \<and> from = Some (pi_pid p) \<and>
           os_read m (declaration_path m p) = Some s \<and> os_json m s = Some v \<and>
           (\<forall>q \<in> set pre. \<forall>t. os_read m (declaration_path m q) = Some t \<longrightarrow> os_json m t = None))
    | (None, from) \<Rightarrow>
        from = None \<and>
        (\<forall>q \<in> set chain. \<forall>t. os_read m (declaration_path m q) = Some t \<longrightarrow> os_json m t = None))"
  (is "?P chain (declared_for m chain)")
proof (induction chain)
  case Nil
  then show ?case by simp
next
  case (Cons p chain)
  show ?case
  proof (cases "\<exists>s v. os_read m (declaration_path m p) = Some s \<and> os_json m s = Some v")
    case True
    then obtain s v where sv: "os_read m (declaration_path m p) = Some s" "os_json m s = Some v"
      by blast
    then show ?thesis by (simp, intro exI [of _ "[]"]) auto
  next
    case False
    then have none: "\<forall>t. os_read m (declaration_path m p) = Some t \<longrightarrow> os_json m t = None"
      by (metis option.exhaust)
    then have d: "declared_for m (p # chain) = declared_for m chain"
      by (simp split: option.splits)
    show ?thesis
    proof (cases "declared_for m chain")
      case (Pair v f)
      show ?thesis
      proof (cases v)
        case None
        with Pair Cons none d show ?thesis by auto
      next
        case (Some w)
        with Pair Cons obtain pre q post s where
          "chain = pre @ q # post" "f = Some (pi_pid q)" "os_read m (declaration_path m q) = Some s"
          "os_json m s = Some w"
          "\<forall>q \<in> set pre. \<forall>t. os_read m (declaration_path m q) = Some t \<longrightarrow> os_json m t = None"
          by auto
        with none have "p # chain = (p # pre) @ q # post"
          "\<forall>q \<in> set (p # pre). \<forall>t. os_read m (declaration_path m q) = Some t \<longrightarrow> os_json m t = None"
          by auto
        with Pair Some d \<open>f = _\<close> \<open>os_read m (declaration_path m q) = Some s\<close> \<open>os_json m s = Some w\<close>
        show ?thesis by (simp only: prod.case option.case) blast
      qed
    qed
  qed
qed

definition declaring_os :: os where
  "declaring_os = quiet_os
    \<lparr>os_read := (\<lambda>p. if ends_with p ''/7.json'' then Some ''null'' else None),
     os_json := (\<lambda>_. Some JNull)\<rparr>"

theorem declared_nearest_witness:
  "declared_for declaring_os [plain_proc 6, plain_proc 7] = (Some JNull, Some 7) \<and>
   (\<exists>pre p post. [plain_proc 6, plain_proc 7] = pre @ p # post \<and> pi_pid p = 7 \<and>
      (\<forall>q \<in> set pre. os_read declaring_os (declaration_path declaring_os q) = None))"
proof -
  have d: "declared_for declaring_os [plain_proc 6, plain_proc 7] = (Some JNull, Some 7)"
    by code_simp
  have j: "os_json declaring_os t = Some JNull" for t by (simp add: declaring_os_def)
  obtain pre p post where "[plain_proc 6, plain_proc 7] = pre @ p # post" and "7 = pi_pid p"
    and "\<forall>q \<in> set pre. \<forall>t. os_read declaring_os (declaration_path declaring_os q) = Some t \<longrightarrow>
      os_json declaring_os t = None"
    using declared_nearest [where m = declaring_os and chain = "[plain_proc 6, plain_proc 7]"]
    unfolding d prod.case option.case by blast
  then have "[plain_proc 6, plain_proc 7] = pre @ p # post \<and> pi_pid p = 7 \<and>
      (\<forall>q \<in> set pre. os_read declaring_os (declaration_path declaring_os q) = None)"
    by (simp add: j)
  with d show ?thesis by blast
qed

section \<open>Worktrees\<close>

text \<open>Text that \<open>trim\<close> leaves alone.\<close>

definition trimmed :: "string \<Rightarrow> bool" where
  "trimmed s \<longleftrightarrow> s \<noteq> [] \<and> starts_clean s \<and>
     \<not> is_ws (hd (utf8_chars s)) \<and> \<not> is_ws (last (utf8_chars s))"

lemma utf8_chars_Nil_iff [simp]: "utf8_chars s = [] \<longleftrightarrow> s = []"
  by (cases s) auto

lemma utf8_chars_append:
  assumes "starts_clean s" "starts_clean t"
  shows "utf8_chars (s @ t) = utf8_chars s @ utf8_chars t"
proof -
  have "utf8_chars (concat (utf8_chars s @ utf8_chars t)) = utf8_chars s @ utf8_chars t"
    by (rule utf8_chars_concat) (use assms utf8_chars_clean utf8_chars_group in auto)
  then show ?thesis by simp
qed

lemma trim_between:
  assumes "trimmed s" and "starts_clean t" and "starts_clean u"
    and "\<forall>g \<in> set (utf8_chars t). is_ws g" and "\<forall>g \<in> set (utf8_chars u). is_ws g"
  shows "trim (t @ s @ u) = s"
proof -
  have s: "starts_clean s" "s \<noteq> []" and h: "\<not> is_ws (hd (utf8_chars s))"
    and l: "\<not> is_ws (last (utf8_chars s))"
    using assms(1) by (auto simp: trimmed_def)
  have su: "starts_clean (s @ u)" using s by (cases s) (auto simp: starts_clean_def)
  have u: "utf8_chars (t @ s @ u) = utf8_chars t @ utf8_chars s @ utf8_chars u"
    using utf8_chars_append [OF assms(2) su] utf8_chars_append [OF s(1) assms(3)] by simp
  have "dropWhile is_ws (utf8_chars (t @ s @ u)) = utf8_chars s @ utf8_chars u"
    using assms(4) h s by (simp add: u dropWhile_append2 dropWhile_hd)
  moreover have "dropWhile is_ws (rev (utf8_chars s @ utf8_chars u)) = rev (utf8_chars s)"
  proof -
    have "dropWhile is_ws (rev (utf8_chars u) @ rev (utf8_chars s)) = dropWhile is_ws (rev (utf8_chars s))"
      by (rule dropWhile_append2) (use assms(5) in simp)
    also have "\<dots> = rev (utf8_chars s)" by (rule dropWhile_hd) (use l s in \<open>simp_all add: hd_rev\<close>)
    finally show ?thesis by simp
  qed
  ultimately show ?thesis by (simp add: trim_by_def)
qed

lemma trim_line: "trimmed s \<Longrightarrow> trim (s @ [CHR 0x0A]) = s"
  using trim_between [of s "[]" "[CHR 0x0A]"]
  by (simp add: starts_clean_def is_cont_def is_ws_def ws_chars_def)

lemma trim_space: "trimmed s \<Longrightarrow> trim (CHR '' '' # s) = s"
  using trim_between [of s "'' ''" "[]"]
  by (simp add: starts_clean_def is_cont_def is_ws_def ws_chars_def)

lemma strip_prefix_append [simp]: "strip_prefix (p @ s) p = Some s"
  by (simp add: strip_prefix_def)

lemma trimmed_gitdir: "trimmed g \<Longrightarrow> trimmed (''gitdir: '' @ g)"
proof -
  assume g: "trimmed g"
  then have c: "starts_clean g" "g \<noteq> []" by (auto simp: trimmed_def)
  have "utf8_chars (''gitdir: '' @ g) = utf8_chars ''gitdir: '' @ utf8_chars g"
    by (rule utf8_chars_append) (use c in \<open>auto simp: starts_clean_def is_cont_def\<close>)
  with g c show ?thesis
    by (simp add: trimmed_def starts_clean_def is_cont_def is_ws_def ws_chars_def)
qed

text \<open>
  A linked worktree as git lays it out: \<open>wt/.git\<close> is a file that names the worktree's own
  git directory \<open>g\<close>, whose \<open>commondir\<close> names the clone's, and both canonicalise to it.
\<close>

definition linked_worktree :: "os \<Rightarrow> string \<Rightarrow> string \<Rightarrow> string \<Rightarrow> string \<Rightarrow> bool" where
  "linked_worktree m wt g c root \<longleftrightarrow>
     trimmed g \<and> trimmed c \<and>
     \<not> os_is_dir m (path_join wt ''.git'') \<and>
     os_read m (path_join wt ''.git'') = Some (''gitdir: '' @ g @ [CHR 0x0A]) \<and>
     os_read m (path_join (path_join wt g) ''commondir'') = Some (c @ [CHR 0x0A]) \<and>
     os_canonicalize m (path_join (path_join wt g) c) = Some (path_join root ''.git'')"

definition plain_clone :: "os \<Rightarrow> string \<Rightarrow> string \<Rightarrow> bool" where
  "plain_clone m clone root \<longleftrightarrow>
     os_is_dir m (path_join clone ''.git'') \<and>
     os_read m (path_join (path_join clone ''.git'') ''commondir'') = None \<and>
     os_canonicalize m (path_join clone ''.git'') = Some (path_join root ''.git'')"

lemma git_dir_worktree: "linked_worktree m wt g c root \<Longrightarrow> git_dir m wt = Some (path_join wt g)"
proof -
  assume w: "linked_worktree m wt g c root"
  then have g: "trimmed g" by (simp add: linked_worktree_def)
  have t: "trim (''gitdir: '' @ g @ [CHR 0x0A]) = ''gitdir: '' @ g"
    using trim_line [OF trimmed_gitdir [OF g]] by simp
  have s: "strip_prefix (''gitdir: '' @ g) ''gitdir:'' = Some (CHR '' '' # g)"
    using strip_prefix_append [of "''gitdir:''" "CHR '' '' # g"] by simp
  show ?thesis
    using w t s trim_space [OF g] by (simp add: git_dir_def linked_worktree_def Let_def)
qed

text \<open>
  A linked worktree and the clone it belongs to are one place: both resolve to the
  clone's main checkout, the directory that holds the shared \<open>.git\<close>.
\<close>

lemma worktree_is_its_clone:
  assumes "linked_worktree m wt g c root" and "plain_clone m clone root"
    and "path_parent (path_join root ''.git'') = Some root"
    and "file_name (path_join root ''.git'') = Some ''.git''"
  shows "main_checkout m wt = Some root \<and> main_checkout m clone = Some root"
proof -
  have c: "trimmed c" using assms(1) by (simp add: linked_worktree_def)
  have "common_dir m (path_join wt g) = path_join (path_join wt g) c"
    using assms(1) trim_line [OF c] by (simp add: common_dir_def linked_worktree_def)
  then have "main_checkout m wt = Some root"
    using assms(1,3,4) git_dir_worktree [OF assms(1)]
    by (simp add: main_checkout_def linked_worktree_def Let_def)
  moreover have "main_checkout m clone = Some root"
    using assms(2-4) by (simp add: main_checkout_def git_dir_def common_dir_def plain_clone_def Let_def)
  ultimately show ?thesis by blast
qed

definition worktree_os :: os where
  "worktree_os = quiet_os
    \<lparr>os_is_dir := (\<lambda>p. p = ''/app/.git''),
     os_read := (\<lambda>p.
       if p = ''/wt/.git'' then Some (''gitdir: /app/.git/worktrees/f'' @ [CHR 0x0A])
       else if p = ''/app/.git/worktrees/f/commondir'' then Some (''../..'' @ [CHR 0x0A])
       else None),
     os_canonicalize := (\<lambda>p.
       if p = ''/app/.git'' \<or> p = ''/app/.git/worktrees/f/../..'' then Some ''/app/.git'' else None)\<rparr>"

theorem worktree_is_its_clone_witness:
  "main_checkout worktree_os ''/wt'' = Some ''/app'' \<and>
   main_checkout worktree_os ''/app'' = Some ''/app''"
proof -
  have "linked_worktree worktree_os ''/wt'' ''/app/.git/worktrees/f'' ''../..'' ''/app''"
    "plain_clone worktree_os ''/app'' ''/app''"
    "path_parent (path_join ''/app'' ''.git'') = Some ''/app''"
    "file_name (path_join ''/app'' ''.git'') = Some ''.git''"
    by code_simp+
  then show ?thesis by (rule worktree_is_its_clone)
qed

end
