(* ===== verification/Attrib.thy ===== *)
theory Attrib
  imports Request_Context
begin

text \<open>
  \<open>daemon/src/attrib.rs\<close>: who is asking. The kernel's answers (peer pid, process
  records, path and vnode buffers) are fields of the machine; what the daemon reads out of
  them, and the walk up the parent chain, is the model.
\<close>

section \<open>Types\<close>

record app_info =
  ai_bundle_path :: string
  ai_name :: string
  ai_depth :: nat

record attribution =
  at_pid :: int
  at_process :: "proc_info option"
  at_ancestry :: "proc_info list"
  at_app :: "app_info option"
  at_apps :: "app_info list"
  at_destination :: "string option"
  at_purpose :: purpose
  at_context :: req_context

section \<open>Reading the kernel's buffers\<close>

definition PROC_PIDVNODEPATHINFO :: int where "PROC_PIDVNODEPATHINFO = 9"
definition PROC_PIDFDVNODEPATHINFO :: int where "PROC_PIDFDVNODEPATHINFO = 2"
definition PROC_PIDTBSDINFO :: int where "PROC_PIDTBSDINFO = 3"
definition FDVNODEPATHINFO_SIZE :: nat where "FDVNODEPATHINFO_SIZE = 1200"
definition FD_VIP_PATH_OFFSET :: nat where "FD_VIP_PATH_OFFSET = 176"
definition VNODEPATHINFO_SIZE :: nat where "VNODEPATHINFO_SIZE = 2352"
definition VIP_PATH_OFFSET :: nat where "VIP_PATH_OFFSET = 152"
definition PROC_PIDPATHINFO_MAXSIZE :: nat where "PROC_PIDPATHINFO_MAXSIZE = 4096"

text \<open>
  The path in a vnode buffer: the bytes from the offset to the first NUL, when there is
  one byte of it and the bytes are UTF-8. A buffer of the wrong size is an error of the
  call.
\<close>

definition vnode_path :: "nat \<Rightarrow> nat \<Rightarrow> bytes option \<Rightarrow> string option" where
  "vnode_path buf_size start answer =
    (case answer of
       None \<Rightarrow> None
     | Some buf \<Rightarrow>
         if length buf \<noteq> buf_size then None
         else
           let path = takeWhile (\<lambda>b. b \<noteq> 0) (drop start buf)
           in if path = [] then None else from_utf8 path)"

definition fd_path :: "os \<Rightarrow> int \<Rightarrow> int \<Rightarrow> string option" where
  "fd_path m pid fd = vnode_path FDVNODEPATHINFO_SIZE FD_VIP_PATH_OFFSET
    (os_pidfdinfo m pid fd PROC_PIDFDVNODEPATHINFO)"

definition proc_cwd :: "os \<Rightarrow> int \<Rightarrow> string option" where
  "proc_cwd m pid = vnode_path VNODEPATHINFO_SIZE VIP_PATH_OFFSET
    (os_pidinfo m pid PROC_PIDVNODEPATHINFO)"

text \<open>\<open>proc_pidpath\<close> answers with how much of the buffer it filled, nothing or less on error.\<close>

definition proc_path :: "os \<Rightarrow> int \<Rightarrow> string option" where
  "proc_path m pid =
    (case os_pidpath m pid of
       None \<Rightarrow> None
     | Some b \<Rightarrow> if b = [] then None else from_utf8 (take PROC_PIDPATHINFO_MAXSIZE b))"

text \<open>
  \<open>struct proc_bsdinfo\<close>: the layout \<open>#[repr(C)]\<close> gives it, little-endian, 136 bytes. An answer of
  another size is none.
\<close>

record proc_bsd_info =
  pbi_flags :: u32
  pbi_status :: u32
  pbi_xstatus :: u32
  pbi_pid :: u32
  pbi_ppid :: u32
  pbi_uid :: u32
  pbi_gid :: u32
  pbi_ruid :: u32
  pbi_rgid :: u32
  pbi_svuid :: u32
  pbi_svgid :: u32
  rfu_1 :: u32
  pbi_comm :: bytes
  pbi_name :: bytes
  pbi_nfiles :: u32
  pbi_pgid :: u32
  pbi_pjobc :: u32
  e_tdev :: u32
  e_tpgid :: u32
  pbi_nice :: u32
  pbi_start_tvsec :: u64
  pbi_start_tvusec :: u64

definition le32_at :: "bytes \<Rightarrow> nat \<Rightarrow> u32" where
  "le32_at b i = of_nat (u32_from_le (drop i b))"

definition le64_at :: "bytes \<Rightarrow> nat \<Rightarrow> u64" where
  "le64_at b i = of_nat (u32_from_le (drop i b)) + of_nat (u32_from_le (drop (i + 4) b)) * 2 ^ 32"

definition BSDINFO_SIZE :: nat where "BSDINFO_SIZE = 136"

definition bsd_layout :: "bytes \<Rightarrow> proc_bsd_info" where
  "bsd_layout b =
    \<lparr>pbi_flags = le32_at b 0, pbi_status = le32_at b 4, pbi_xstatus = le32_at b 8,
     pbi_pid = le32_at b 12, pbi_ppid = le32_at b 16, pbi_uid = le32_at b 20,
     pbi_gid = le32_at b 24, pbi_ruid = le32_at b 28, pbi_rgid = le32_at b 32,
     pbi_svuid = le32_at b 36, pbi_svgid = le32_at b 40, rfu_1 = le32_at b 44,
     pbi_comm = take 16 (drop 48 b), pbi_name = take 32 (drop 64 b),
     pbi_nfiles = le32_at b 96, pbi_pgid = le32_at b 100, pbi_pjobc = le32_at b 104,
     e_tdev = le32_at b 108, e_tpgid = le32_at b 112, pbi_nice = le32_at b 116,
     pbi_start_tvsec = le64_at b 120, pbi_start_tvusec = le64_at b 128\<rparr>"

definition bsd_info :: "os \<Rightarrow> int \<Rightarrow> proc_bsd_info option" where
  "bsd_info m pid =
    (case os_pidinfo m pid PROC_PIDTBSDINFO of
       None \<Rightarrow> None
     | Some b \<Rightarrow> if length b = BSDINFO_SIZE then Some (bsd_layout b) else None)"

text \<open>\<open>info.pbi_ppid as i32\<close> reads the 32 bits as signed.\<close>

definition parent_pid :: "os \<Rightarrow> int \<Rightarrow> int option" where
  "parent_pid m pid =
    (case bsd_info m pid of
       None \<Rightarrow> None
     | Some info \<Rightarrow>
         let ppid = sint (pbi_ppid info) in if 0 < ppid then Some ppid else None)"

definition proc_name :: "os \<Rightarrow> int \<Rightarrow> string option" where
  "proc_name m pid =
    (case bsd_info m pid of
       None \<Rightarrow> None
     | Some info \<Rightarrow> or_else (cstr_field (pbi_name info)) (cstr_field (pbi_comm info)))"

definition peer_pid :: "os \<Rightarrow> int \<Rightarrow> int option" where
  "peer_pid m fd =
    (let (rc, pid) = os_peerpid m fd in if rc = 0 \<and> 0 < pid then Some pid else None)"

definition proc_info :: "os \<Rightarrow> int \<Rightarrow> proc_info" where
  "proc_info m pid =
    \<lparr>pi_pid = pid, pi_name = proc_name m pid, pi_path = proc_path m pid,
     pi_cwd = proc_cwd m pid, pi_args = proc_args (procargs m pid)\<rparr>"

section \<open>Applications in the chain\<close>

definition app_marker :: string where
  "app_marker = ''.app/Contents/MacOS/''"

definition bundle_of :: "string \<Rightarrow> string option" where
  "bundle_of path = map_option (\<lambda>idx. take (idx + 4) path) (find_sub path app_marker)"

fun apps_loop :: "nat \<Rightarrow> app_info list \<Rightarrow> proc_info list \<Rightarrow> app_info list" where
  "apps_loop depth out [] = out"
| "apps_loop depth out (p # ps) =
    (case pi_path p of
       None \<Rightarrow> apps_loop (Suc depth) out ps
     | Some path \<Rightarrow>
         (case bundle_of path of
            None \<Rightarrow> apps_loop (Suc depth) out ps
          | Some bundle \<Rightarrow>
              if list_ex (\<lambda>a. ai_bundle_path a = bundle) out then apps_loop (Suc depth) out ps
              else
                apps_loop (Suc depth)
                  (out @ [\<lparr>ai_bundle_path = bundle,
                     ai_name = unwrap_or (file_stem bundle) bundle, ai_depth = depth\<rparr>]) ps))"

definition apps_for :: "proc_info list \<Rightarrow> app_info list" where
  "apps_for chain = apps_loop 0 [] chain"

section \<open>The destination\<close>

text \<open>The iterator of \<open>destination_from\<close>: an option's argument is the next element, taken.\<close>

fun destination_scan :: "string list \<Rightarrow> string option" where
  "destination_scan [] = None"
| "destination_scan [a] =
    (if List.member SSH_TAKES_ARG a then None else if starts_with a ''-'' then None else Some a)"
| "destination_scan (a # b # as) =
    (if List.member SSH_TAKES_ARG a then destination_scan as
     else if starts_with a ''-'' then destination_scan (b # as)
     else Some a)"

definition destination_from :: "string list \<Rightarrow> string option" where
  "destination_from args = destination_scan (drop 1 args)"

section \<open>Attribution\<close>

text \<open>The walk of \<open>attribute\<close>, the fuel being the hops left of the sixteen it may take.\<close>

fun walk_chain :: "os \<Rightarrow> nat \<Rightarrow> int option \<Rightarrow> proc_info list" where
  "walk_chain m 0 cur = []"
| "walk_chain m (Suc hops) cur =
    (case cur of
       None \<Rightarrow> []
     | Some c \<Rightarrow> if c \<le> 1 then [] else proc_info m c # walk_chain m hops (parent_pid m c))"

definition ssh_clients :: "string list" where
  "ssh_clients = [''ssh'', ''scp'', ''sftp'', ''ssh-keyscan'']"

definition attribute :: "os \<Rightarrow> int \<Rightarrow> attribution" where
  "attribute m fd =
    (case peer_pid m fd of
       None \<Rightarrow>
         \<lparr>at_pid = -1, at_process = None, at_ancestry = [], at_app = None, at_apps = [],
          at_destination = None, at_purpose = classify (os_exists m) [],
          at_context = empty_context\<rparr>
     | Some pid \<Rightarrow>
         let chain = walk_chain m 16 (Some pid);
             process = (case chain of [] \<Rightarrow> None | p # _ \<Rightarrow> Some p);
             destination =
               (case process of
                  None \<Rightarrow> None
                | Some p \<Rightarrow>
                    (case pi_name p of
                       None \<Rightarrow> None
                     | Some n \<Rightarrow>
                         if List.member ssh_clients n then destination_from (pi_args p) else None));
             apps = apps_for chain;
             purpose = classify (os_exists m) chain;
             signing_commit = (pu_kind purpose = CommitSigning)
         in \<lparr>at_pid = pid, at_process = process, at_ancestry = chain,
             at_app = (if apps = [] then None else Some (last apps)), at_apps = apps,
             at_destination = destination, at_purpose = purpose,
             at_context = gather_bounded m chain (pu_repo_path purpose) signing_commit\<rparr>)"

section \<open>The two parsers of an ssh command line agree\<close>

lemma destination_scan_cons:
  "destination_scan (a # as) =
    (if List.member SSH_TAKES_ARG a then destination_scan (drop 1 as)
     else if starts_with a ''-'' then destination_scan as else Some a)"
  by (cases as) auto

lemma split_ssh_loop_scan: "fst (split_ssh_loop args i) = destination_scan (drop i args)"
proof (induction args i rule: split_ssh_loop.induct)
  case (1 args i)
  show ?case
  proof (cases "i < length args")
    case True
    then have d: "drop i args = args ! i # drop (i + 1) args" by (simp add: Cons_nth_drop_Suc)
    have d2: "drop 1 (drop (i + 1) args) = drop (i + 2) args" by simp
    show ?thesis
      unfolding d destination_scan_cons d2
      using 1 True by (subst split_ssh_loop.simps) (simp add: Let_def)
  next
    case False
    then show ?thesis by (subst split_ssh_loop.simps) simp
  qed
qed

text \<open>
  The two parsers of an ssh command line, the one that attributes a request
  (\<open>destination_from\<close>) and the one that names its purpose (\<open>split_ssh\<close>), read the same
  destination out of every argument list.
\<close>

lemma destination_agrees: "destination_from args = fst (split_ssh args)"
  by (simp add: destination_from_def split_ssh_def Let_def case_prod_beta split_ssh_loop_scan)

section \<open>What the chain holds\<close>

lemma walk_chain_length: "length (walk_chain m n cur) \<le> n"
  by (induction m n cur rule: walk_chain.induct) (auto split: option.splits)

lemma walk_chain_nth:
  "Suc i < length (walk_chain m n cur) \<Longrightarrow>
    parent_pid m (pi_pid (walk_chain m n cur ! i)) = Some (pi_pid (walk_chain m n cur ! Suc i))"
proof (induction m n cur arbitrary: i rule: walk_chain.induct)
  case (1 m cur)
  then show ?case by simp
next
  case (2 m hops cur)
  show ?case
  proof (cases cur)
    case None
    with 2 show ?thesis by simp
  next
    case (Some c)
    with "2.prems" have c: "\<not> c \<le> 1" by (auto split: if_splits)
    let ?r = "walk_chain m hops (parent_pid m c)"
    show ?thesis
    proof (cases i)
      case 0
      with "2.prems" Some c have "0 < length ?r" by simp
      then have "parent_pid m c = Some (pi_pid (?r ! 0))"
        by (cases hops; cases "parent_pid m c") (auto simp: proc_info_def split: if_splits)
      with 0 Some c show ?thesis by (simp add: proc_info_def)
    next
      case (Suc j)
      with 2 Some c show ?thesis by simp
    qed
  qed
qed

lemma pi_pid_proc_info [simp]: "pi_pid (proc_info m c) = c"
  by (simp add: proc_info_def)

lemma walk_chain_procs: "p \<in> set (walk_chain m n cur) \<Longrightarrow> \<exists>c. p = proc_info m c \<and> 1 < c"
proof (induction m n cur rule: walk_chain.induct)
  case (1 m cur)
  then show ?case by simp
next
  case (2 m hops cur)
  then show ?case by (cases cur) (auto split: if_splits)
qed

lemma walk_chain_hd:
  "walk_chain m n (Some c) = [] \<longleftrightarrow> n = 0 \<or> c \<le> 1"
  "walk_chain m n (Some c) \<noteq> [] \<Longrightarrow> pi_pid (hd (walk_chain m n (Some c))) = c"
  by (cases n; simp add: proc_info_def split: if_splits)+

lemma ancestry_redacted:
  assumes "p \<in> set (at_ancestry (attribute m fd))"
  shows "map Some (pi_args p) = map redact (fst (proc_argv_env (procargs m (pi_pid p)))) \<and> 1 < pi_pid p"
proof -
  obtain pid where "p \<in> set (walk_chain m 16 (Some pid))"
    using assms by (auto simp: attribute_def Let_def split: option.splits)
  from walk_chain_procs [OF this] obtain c where "p = proc_info m c" and "1 < c" by blast
  moreover have "pi_args (proc_info m c) = proc_args (procargs m c)" by (simp add: proc_info_def)
  ultimately show ?thesis by (simp only: proc_args_redacted pi_pid_proc_info)
qed

text \<open>
  The chain an attribution holds: at most sixteen processes, none of them launchd or
  the kernel, the first the peer of the socket and each next one the parent of the one
  before it, with every argument redacted.
\<close>

lemma attribution_chain:
  "length (at_ancestry (attribute m fd)) \<le> 16 \<and>
   (\<forall>p \<in> set (at_ancestry (attribute m fd)).
      1 < pi_pid p \<and>
      map Some (pi_args p) = map redact (fst (proc_argv_env (procargs m (pi_pid p))))) \<and>
   (\<forall>i. Suc i < length (at_ancestry (attribute m fd)) \<longrightarrow>
      parent_pid m (pi_pid (at_ancestry (attribute m fd) ! i)) =
        Some (pi_pid (at_ancestry (attribute m fd) ! Suc i))) \<and>
   (\<forall>p ps. at_ancestry (attribute m fd) = p # ps \<longrightarrow> peer_pid m fd = Some (pi_pid p))"
proof (cases "peer_pid m fd")
  case None
  then show ?thesis by (simp add: attribute_def)
next
  case (Some pid)
  define ch where "ch = walk_chain m 16 (Some pid)"
  have a: "at_ancestry (attribute m fd) = ch"
    by (simp add: attribute_def Some Let_def ch_def)
  have "map Some (pi_args p) = map redact (fst (proc_argv_env (procargs m (pi_pid p)))) \<and> 1 < pi_pid p"
    if "p \<in> set ch" for p
    using ancestry_redacted [of p m fd] that by (simp only: a)
  moreover have "pid = pi_pid p" if "ch = p # ps" for p ps
    using walk_chain_hd(2) [of m 16 pid] that by (simp only: ch_def) simp
  ultimately show ?thesis
    unfolding a using walk_chain_length [of m 16] walk_chain_nth [of _ m 16] Some
    by (auto simp: ch_def)
qed

text \<open>A record with nothing set but the parent and one letter of the name.\<close>

definition bsd_bytes :: "byte \<Rightarrow> byte \<Rightarrow> bytes" where
  "bsd_bytes ppid c = replicate 16 0 @ [ppid, 0, 0, 0] @ replicate 28 0 @ c # replicate 87 0"

definition two_hop_os :: os where
  "two_hop_os = quiet_os
    \<lparr>os_peerpid := (\<lambda>_. (0, 5)),
     os_pidinfo := (\<lambda>pid flavor.
       if pid = 5 \<and> flavor = PROC_PIDTBSDINFO then Some (bsd_bytes 4 115) else None)\<rparr>"

lemma two_hop_bsd:
  "bsd_info two_hop_os 5 = Some (bsd_layout (bsd_bytes 4 115))" "bsd_info two_hop_os 4 = None"
  "pbi_ppid (bsd_layout (bsd_bytes 4 115)) = 4"
  "cstr_field (pbi_name (bsd_layout (bsd_bytes 4 115))) = None"
  "cstr_field (pbi_comm (bsd_layout (bsd_bytes 4 115))) = Some ''s''"
proof -
  have "length (bsd_bytes 4 115) = BSDINFO_SIZE" by (simp add: bsd_bytes_def BSDINFO_SIZE_def)
  then show "bsd_info two_hop_os 5 = Some (bsd_layout (bsd_bytes 4 115))" "bsd_info two_hop_os 4 = None"
    by (simp_all add: bsd_info_def two_hop_os_def quiet_os_def)
  have "drop 16 (bsd_bytes 4 115) = 4 # 0 # 0 # 0 # replicate 28 0 @ 115 # replicate 87 0"
    by (simp add: bsd_bytes_def)
  then show "pbi_ppid (bsd_layout (bsd_bytes 4 115)) = 4"
    by (simp add: bsd_layout_def le32_at_def u32_from_le_def)
  have "drop 48 (bsd_bytes 4 115) = 115 # replicate 87 0" "drop 64 (bsd_bytes 4 115) = replicate 72 0"
    by (simp_all add: bsd_bytes_def)
  moreover have "from_utf8 [115] = Some ''s''" by code_simp
  ultimately show "cstr_field (pbi_name (bsd_layout (bsd_bytes 4 115))) = None"
      "cstr_field (pbi_comm (bsd_layout (bsd_bytes 4 115))) = Some ''s''"
    by (simp_all add: bsd_layout_def cstr_field_def)
qed

lemma two_hop_peer: "peer_pid two_hop_os 0 = Some 5"
  by (simp add: two_hop_os_def peer_pid_def)

theorem attribution_chain_witness:
  "map pi_pid (at_ancestry (attribute two_hop_os 0)) = [5, 4] \<and> parent_pid two_hop_os 5 = Some 4 \<and>
   (\<exists>p \<in> set (at_ancestry (attribute two_hop_os 0)). pi_name p = Some ''s'' \<and> pi_args p = [])"
proof -
  have ch: "at_ancestry (attribute two_hop_os 0) = [proc_info two_hop_os 5, proc_info two_hop_os 4]"
    by (simp add: attribute_def two_hop_peer Let_def parent_pid_def two_hop_bsd numeral_eq_Suc)
  have n: "proc_name two_hop_os 5 = Some ''s''"
    by (simp add: proc_name_def two_hop_bsd)
  have "parent_pid two_hop_os 5 = Some 4" and "map Some (pi_args (proc_info two_hop_os 5)) = []"
    using attribution_chain [of two_hop_os 0] unfolding ch
    by (auto simp: two_hop_os_def quiet_os_def procargs_def proc_argv_env_def)
  with ch n show ?thesis by (simp add: proc_info_def)
qed

end
