(* ===== verification/Kwse.thy ===== *)
theory Kwse
  imports Wire F64
begin

text \<open>
  \<open>daemon/kwse.swift\<close>, the shim between the daemon and Apple's frameworks: the contexts
  and secrets it holds (\<open>ContextCache\<close>), the container of a sign-in key (\<open>SignInKey\<close>) and
  the calls the daemon makes. What CryptoKit, LocalAuthentication and the IO registry
  answer is the record \<open>apple\<close>. The locale \<open>context_store\<close> is what the daemon relies on
  when it tells the shim to forget.
\<close>

section \<open>What Apple's frameworks answer\<close>

text \<open>
  An \<open>LAContext\<close>: an ordinary one, by the order it was made in, one that may not prompt,
  or one that carries an application password and may not prompt.
\<close>

datatype la_context = Prompting nat | Refusing | Bearing bytes

record apple =
  ap_available :: bool
  ap_authenticate :: "la_context \<Rightarrow> string \<Rightarrow> bool"
  ap_can_bear :: "bytes \<Rightarrow> bool"
  ap_loads :: "bytes \<Rightarrow> la_context \<Rightarrow> bool"
  ap_signature :: "bytes \<Rightarrow> la_context \<Rightarrow> bytes \<Rightarrow> bytes option"
  ap_agreed :: "bytes \<Rightarrow> bytes \<Rightarrow> la_context \<Rightarrow> bytes option"
  ap_valid :: "bytes \<Rightarrow> bytes \<Rightarrow> bytes \<Rightarrow> bool"
  ap_public :: "bytes \<Rightarrow> bytes option"
  ap_generated :: "int \<Rightarrow> bytes option"
  ap_sessions :: "(int option \<times> bool option \<times> bool option) list option"
  ap_uid :: int
  ap_max_reuse :: f64

text \<open>What a call asks of the frameworks, in order: a prompt raised, a secret released, a signature.\<close>

datatype la_event =
  Asked la_context "f64 option" string | Released la_context | Signed la_context

section \<open>The sign-in key's container\<close>

record sign_in_key =
  sk_signing :: bytes
  sk_unlock :: bytes
  sk_peer :: bytes
  sk_pub :: bytes

definition sign_in_magic :: bytes where
  "sign_in_magic = as_bytes (''keyward sign-in key 1'' @ [CHR 0x0A])"

definition be_value :: "bytes \<Rightarrow> nat" where
  "be_value bs = foldl (\<lambda>n b. 256 * n + unat b) 0 bs"

text \<open>The loop that reads the parts: a four-byte length, then that many bytes, to the end.\<close>

function read_parts :: "bytes \<Rightarrow> bytes list option" where
  "read_parts rest =
    (if rest = [] then Some []
     else if length rest < 4 then None
     else
       let n = be_value (take 4 rest); rest' = drop 4 rest
       in if length rest' < n then None
          else (case read_parts (drop n rest') of
                  None \<Rightarrow> None | Some ps \<Rightarrow> Some (take n rest' # ps)))"
  by pat_completeness auto
termination by (relation "measure length") auto

declare read_parts.simps [simp del]

definition sign_in_key_parse :: "bytes \<Rightarrow> sign_in_key option" where
  "sign_in_key_parse d =
    (if take (length sign_in_magic) d \<noteq> sign_in_magic then None
     else (case read_parts (drop (length sign_in_magic) d) of
             Some [s, u, p, k] \<Rightarrow>
               Some \<lparr>sk_signing = s, sk_unlock = u, sk_peer = p, sk_pub = k\<rparr>
           | _ \<Rightarrow> None))"

definition put_part :: "bytes \<Rightarrow> bytes" where
  "put_part p = u32_to_be (of_nat (length p)) @ p"

definition sign_in_key_data :: "sign_in_key \<Rightarrow> bytes" where
  "sign_in_key_data k =
    sign_in_magic @ concat (map put_part [sk_signing k, sk_unlock k, sk_peer k, sk_pub k])"

section \<open>ContextCache\<close>

text \<open>\<open>lc_made\<close> counts the contexts made so far, so that each has its own identity.\<close>

record la_cache =
  lc_held :: "string \<rightharpoonup> nat"
  lc_secrets :: "string \<rightharpoonup> bytes"
  lc_made :: nat

definition cache_secret :: "la_cache \<Rightarrow> string \<Rightarrow> bytes option" where
  "cache_secret c scope = lc_secrets c scope"

definition cache_keep :: "string \<Rightarrow> bytes \<Rightarrow> la_cache \<Rightarrow> la_cache" where
  "cache_keep scope s c = c\<lparr>lc_secrets := (lc_secrets c)(scope \<mapsto> s)\<rparr>"

definition cache_forget :: "string \<Rightarrow> la_cache \<Rightarrow> la_cache" where
  "cache_forget scope c =
    c\<lparr>lc_held := (lc_held c)(scope := None), lc_secrets := (lc_secrets c)(scope := None)\<rparr>"

definition cache_forget_all :: "la_cache \<Rightarrow> la_cache" where
  "cache_forget_all c = c\<lparr>lc_held := Map.empty, lc_secrets := Map.empty\<rparr>"

definition new_context :: "la_cache \<Rightarrow> nat \<times> la_cache" where
  "new_context c = (lc_made c, c\<lparr>lc_made := lc_made c + 1\<rparr>)"

definition cache_take :: "string \<Rightarrow> bool \<Rightarrow> la_cache \<Rightarrow> nat \<times> bool \<times> la_cache" where
  "cache_take scope hold c =
    (case (if hold then lc_held c scope else None) of
       Some n \<Rightarrow> (n, False, c)
     | None \<Rightarrow>
         let (n, c') = new_context c
         in (n, True, if hold then c'\<lparr>lc_held := (lc_held c')(scope \<mapsto> n)\<rparr> else c'))"

text \<open>\<open>touchIDAuthenticationAllowableReuseDuration\<close> of a new context, when it is set.\<close>

definition allowed_reuse :: "apple \<Rightarrow> f64 \<Rightarrow> f64 option" where
  "allowed_reuse ap secs =
    (if 0 < secs then Some (if ap_max_reuse ap < secs then ap_max_reuse ap else secs) else None)"

definition prompt_text :: "string \<Rightarrow> string" where
  "prompt_text text = (if text = [] then ''sign an SSH request'' else text)"

section \<open>Signing\<close>

text \<open>What a call writes: its return code, and the buffer when that is positive.\<close>

type_synonym out_buffer = "int \<times> bytes"

definition store_out :: "bytes \<Rightarrow> nat \<Rightarrow> out_buffer" where
  "store_out d cap = (if cap < length d then (-2, []) else (int (length d), d))"

definition sign_with_secret :: "apple \<Rightarrow> sign_in_key \<Rightarrow> bytes \<Rightarrow> bytes \<Rightarrow> bytes option" where
  "sign_with_secret ap k msg s =
    (if \<not> ap_can_bear ap s then None else ap_signature ap (sk_signing k) (Bearing s) msg)"

definition signed_out :: "apple \<Rightarrow> sign_in_key \<Rightarrow> bytes \<Rightarrow> bytes \<Rightarrow> nat \<Rightarrow> out_buffer" where
  "signed_out ap k msg s cap =
    (case sign_with_secret ap k msg s of None \<Rightarrow> (-3, []) | Some sig \<Rightarrow> store_out sig cap)"

text \<open>
  The Touch ID of a sign-in: the secret, or \<open>None\<close> for every way it is not released, and
  what was asked on the way.
\<close>

definition release_secret ::
  "apple \<Rightarrow> sign_in_key \<Rightarrow> string \<Rightarrow> f64 \<Rightarrow> bool \<Rightarrow> la_context \<Rightarrow> bytes option \<times> la_event list" where
  "release_secret ap k text unlock_reuse approve ctx =
    (let asked = (if approve then [Asked ctx (allowed_reuse ap unlock_reuse) (prompt_text text)] else [])
     in if approve \<and> \<not> ap_authenticate ap ctx (prompt_text text) then (None, asked)
        else (ap_agreed ap (sk_unlock k) (sk_peer k) ctx, asked @ [Released ctx]))"

definition sign_in ::
  "apple \<Rightarrow> sign_in_key \<Rightarrow> bytes \<Rightarrow> string \<Rightarrow> bool \<Rightarrow> f64 \<Rightarrow> string \<Rightarrow> bool \<Rightarrow> bool \<Rightarrow> nat \<Rightarrow>
    la_cache \<Rightarrow> out_buffer \<times> la_event list \<times> la_cache" where
  "sign_in ap k msg text hold unlock_reuse scope approve riding cap c =
    (case (if hold then cache_secret c scope else None) of
       Some s \<Rightarrow> (signed_out ap k msg s cap, [Signed (Bearing s)], c)
     | None \<Rightarrow>
         if riding then ((-4, []), [], c)
         else
           let (n, c') = new_context c
           in (case release_secret ap k text unlock_reuse approve (Prompting n) of
                 (None, ev) \<Rightarrow> ((-3, []), ev, c')
               | (Some s, ev) \<Rightarrow>
                   (signed_out ap k msg s cap, ev @ [Signed (Bearing s)],
                    if hold then cache_keep scope s c' else c')))"

text \<open>
  The same in the two steps another thread can come between: what is held is read, and,
  when nothing was, what the Touch ID released is kept.
\<close>

definition sign_in_begin ::
  "apple \<Rightarrow> sign_in_key \<Rightarrow> bytes \<Rightarrow> bool \<Rightarrow> string \<Rightarrow> bool \<Rightarrow> nat \<Rightarrow> la_cache \<Rightarrow>
    (out_buffer \<times> la_event list) option \<times> la_cache" where
  "sign_in_begin ap k msg hold scope riding cap c =
    (case (if hold then cache_secret c scope else None) of
       Some s \<Rightarrow> (Some (signed_out ap k msg s cap, [Signed (Bearing s)]), c)
     | None \<Rightarrow> if riding then (Some ((-4, []), []), c) else (None, snd (new_context c)))"

definition sign_in_end ::
  "apple \<Rightarrow> sign_in_key \<Rightarrow> bytes \<Rightarrow> string \<Rightarrow> bool \<Rightarrow> f64 \<Rightarrow> string \<Rightarrow> bool \<Rightarrow> nat \<Rightarrow> nat \<Rightarrow>
    la_cache \<Rightarrow> out_buffer \<times> la_event list \<times> la_cache" where
  "sign_in_end ap k msg text hold unlock_reuse scope approve cap n c =
    (case release_secret ap k text unlock_reuse approve (Prompting n) of
       (None, ev) \<Rightarrow> ((-3, []), ev, c)
     | (Some s, ev) \<Rightarrow>
         (signed_out ap k msg s cap, ev @ [Signed (Bearing s)],
          if hold then cache_keep scope s c else c))"

lemma sign_in_steps:
  "sign_in ap k msg text hold u scope approve riding cap c =
    (case sign_in_begin ap k msg hold scope riding cap c of
       (Some (out, ev), c') \<Rightarrow> (out, ev, c')
     | (None, c') \<Rightarrow> sign_in_end ap k msg text hold u scope approve cap (lc_made c) c')"
  by (auto simp: sign_in_def sign_in_begin_def sign_in_end_def new_context_def Let_def
      split: option.splits prod.splits)

definition plain_sign ::
  "apple \<Rightarrow> bytes \<Rightarrow> bytes \<Rightarrow> string \<Rightarrow> bool \<Rightarrow> f64 \<Rightarrow> string \<Rightarrow> bool \<Rightarrow> nat \<Rightarrow>
    la_cache \<Rightarrow> out_buffer \<times> la_event list \<times> la_cache" where
  "plain_sign ap d msg text hold unlock_reuse scope approve cap c =
    (let (n, fresh, c') = cache_take scope hold c;
         ctx = Prompting n;
         asked =
           (if fresh \<and> approve
            then [Asked ctx (allowed_reuse ap unlock_reuse) (prompt_text text)] else [])
     in if fresh \<and> approve \<and> \<not> ap_authenticate ap ctx (prompt_text text)
        then ((-3, []), asked, cache_forget scope c')
        else if \<not> ap_loads ap d ctx then ((-1, []), asked, c')
        else (case ap_signature ap d ctx msg of
                None \<Rightarrow> ((-3, []), asked @ [Signed ctx], c')
              | Some sig \<Rightarrow> (store_out sig cap, asked @ [Signed ctx], c')))"

text \<open>\<open>kwse_sign\<close>. The request's riding flag is read for a sign-in key only.\<close>

definition kwse_sign ::
  "apple \<Rightarrow> bytes \<Rightarrow> bytes \<Rightarrow> string \<Rightarrow> bool \<Rightarrow> f64 \<Rightarrow> string \<Rightarrow> bool \<Rightarrow> bool \<Rightarrow> nat \<Rightarrow>
    la_cache \<Rightarrow> out_buffer \<times> la_event list \<times> la_cache" where
  "kwse_sign ap d msg text hold unlock_reuse scope approve riding cap c =
    (case sign_in_key_parse d of
       Some k \<Rightarrow> sign_in ap k msg text hold unlock_reuse scope approve riding cap c
     | None \<Rightarrow> plain_sign ap d msg text hold unlock_reuse scope approve cap c)"

section \<open>The other calls\<close>

definition kwse_available :: "apple \<Rightarrow> int" where
  "kwse_available ap = (if ap_available ap then 1 else 0)"

definition kwse_kind :: "bytes \<Rightarrow> int" where
  "kwse_kind d = (if sign_in_key_parse d = None then 0 else 1)"

definition kwse_public :: "apple \<Rightarrow> bytes \<Rightarrow> nat \<Rightarrow> out_buffer" where
  "kwse_public ap d cap =
    (case sign_in_key_parse d of
       Some k \<Rightarrow> store_out (sk_pub k) cap
     | None \<Rightarrow> (case ap_public ap d of None \<Rightarrow> (-1, []) | Some p \<Rightarrow> store_out p cap))"

text \<open>One user's record among \<open>IOConsoleUsers\<close>: user id, whether locked, whether at the console.\<close>

definition kwse_screen_locked :: "apple \<Rightarrow> int" where
  "kwse_screen_locked ap =
    (case ap_sessions ap of
       None \<Rightarrow> 3
     | Some sessions \<Rightarrow>
         let mine = filter (\<lambda>(uid, _, _). uid = Some (ap_uid ap)) sessions
         in if mine = [] then 3
            else if list_ex (\<lambda>(_, locked, _). locked = Some True) mine then 1
            else if list_ex (\<lambda>(_, _, console). console = Some True) mine then 0 else 2)"

definition sign_in_probe :: bytes where
  "sign_in_probe = as_bytes ''keyward sign-in key check''"

definition opens_with :: "apple \<Rightarrow> sign_in_key \<Rightarrow> bytes \<Rightarrow> bool" where
  "opens_with ap k s =
    (case sign_with_secret ap k sign_in_probe s of
       None \<Rightarrow> False | Some sig \<Rightarrow> ap_valid ap (sk_pub k) sig sign_in_probe)"

text \<open>\<open>kwse_check\<close>: one real sign-in with a new key, on a context of its own.\<close>

definition kwse_check :: "apple \<Rightarrow> bytes \<Rightarrow> string \<Rightarrow> la_cache \<Rightarrow> int \<times> la_cache" where
  "kwse_check ap d text c =
    (case sign_in_key_parse d of
       None \<Rightarrow> (-1, c)
     | Some k \<Rightarrow>
         let (n, c') = new_context c
         in if \<not> ap_authenticate ap (Prompting n) (prompt_text text) then (-3, c')
            else (case ap_agreed ap (sk_unlock k) (sk_peer k) (Prompting n) of
                    None \<Rightarrow> (-3, c')
                  | Some s \<Rightarrow> (if opens_with ap k s then 0 else -2, c')))"

text \<open>The checks a freshly made pair passes before it is kept, on the pair and its secret.\<close>

definition sign_in_generate :: "apple \<Rightarrow> (sign_in_key \<times> bytes) option \<Rightarrow> sign_in_key option" where
  "sign_in_generate ap made =
    (case made of
       None \<Rightarrow> None
     | Some (k, s) \<Rightarrow>
         if opens_with ap k s \<and> \<not> opens_with ap k (map (\<lambda>b. NOT b) s) \<and>
            ap_signature ap (sk_signing k) Refusing sign_in_probe = None \<and>
            ap_agreed ap (sk_unlock k) (sk_peer k) Refusing = None
         then Some k else None)"

definition kwse_generate :: "apple \<Rightarrow> (sign_in_key \<times> bytes) option \<Rightarrow> int \<Rightarrow> nat \<Rightarrow> out_buffer" where
  "kwse_generate ap made policy cap =
    (if policy = 3 then
       (case sign_in_generate ap made of
          None \<Rightarrow> (-1, []) | Some k \<Rightarrow> store_out (sign_in_key_data k) cap)
     else (case ap_generated ap policy of None \<Rightarrow> (-1, []) | Some d \<Rightarrow> store_out d cap))"

section \<open>The container is read back exactly\<close>

lemma be_value_u32: "be_value (u32_to_be v) = unat v"
proof -
  have d: "unat (ucast (drop_bit k v) :: byte) = unat v div 2 ^ k mod 256" for k
    unfolding unsigned_ucast_eq unsigned_drop_bit_eq
    using unsigned_less [of v, where 'a = nat] by (simp add: take_bit_eq_mod drop_bit_eq_div)
  have lt: "unat v < 2 ^ 32" using unsigned_less [of v, where 'a = nat] by simp
  have "be_value (u32_to_be v) =
      256 * (256 * (256 * (unat v div 2 ^ 24 mod 256) + unat v div 2 ^ 16 mod 256)
        + unat v div 2 ^ 8 mod 256) + unat v div 2 ^ 0 mod 256"
    using d [of 24] d [of 16] d [of 8] d [of 0] by (simp add: be_value_def u32_to_be_def)
  also have "\<dots> = unat v"
  proof -
    have h: "x = 256 * (256 * (256 * c + g) + f) + e"
      if "x = 256 * a + e" "a = 256 * b + f" "b = 256 * c + g" for x a b c e f g :: nat
      using that by simp
    have "unat v div 256 = 256 * (unat v div 65536) + unat v div 256 mod 256"
      "unat v div 65536 = 256 * (unat v div 16777216) + unat v div 65536 mod 256"
      using mult_div_mod_eq [of 256 "unat v div 256"] mult_div_mod_eq [of 256 "unat v div 65536"]
      by (simp_all add: div_mult2_eq [symmetric])
    from h [OF mult_div_mod_eq [symmetric] this]
    have x: "unat v = 256 * (256 * (256 * (unat v div 16777216) + unat v div 65536 mod 256)
        + unat v div 256 mod 256) + unat v mod 256" .
    have "unat v div 16777216 mod 256 = unat v div 16777216" using lt by simp
    with x show ?thesis by simp
  qed
  finally show ?thesis .
qed

lemma u32_to_be_of_value: "length bs = 4 \<Longrightarrow> u32_to_be (of_nat (be_value bs)) = bs"
proof -
  assume "length bs = 4"
  then obtain a b c d where bs: "bs = [a, b, c, d]"
    by (auto simp: numeral_eq_Suc length_Suc_conv)
  have "be_value bs = unat (u32_from_be a b c d)"
    using be_value_u32 [of "u32_from_be a b c d"] by (simp add: bs u32_be_roundtrip')
  then have "of_nat (be_value bs) = u32_from_be a b c d" by simp
  then show ?thesis by (simp add: u32_be_roundtrip' bs)
qed

lemma be_value_bound: "length bs = 4 \<Longrightarrow> be_value bs < 2 ^ 32"
  using be_value_u32 [of "of_nat (be_value bs) :: u32"] unsigned_less [of "of_nat (be_value bs) :: u32", where 'a = nat]
  by (simp add: u32_to_be_of_value)

lemma read_put_parts:
  assumes "\<forall>p \<in> set ps. length p < 2 ^ 32"
  shows "read_parts (concat (map put_part ps)) = Some ps"
  using assms
proof (induction ps)
  case Nil
  then show ?case by (simp add: read_parts.simps)
next
  case (Cons p ps)
  let ?r = "concat (map put_part ps)"
  have e: "concat (map put_part (p # ps)) = u32_to_be (of_nat (length p)) @ p @ ?r"
    by (simp add: put_part_def)
  have v: "be_value (u32_to_be (of_nat (length p))) = length p"
    using Cons.prems by (simp add: be_value_u32 unat_of_nat)
  have ne: "u32_to_be w \<noteq> []" for w by (simp add: u32_to_be_def)
  show ?case
    unfolding e by (subst read_parts.simps) (use Cons ne in \<open>simp add: v\<close>)
qed

lemma put_read_parts:
  "read_parts d = Some ps \<Longrightarrow> concat (map put_part ps) = d \<and> (\<forall>p \<in> set ps. length p < 2 ^ 32)"
proof (induction d arbitrary: ps rule: read_parts.induct)
  case (1 d)
  show ?case
  proof (cases "d = []")
    case True
    with 1 show ?thesis by (simp add: read_parts.simps)
  next
    case False
    let ?n = "be_value (take 4 d)" and ?d = "drop 4 d"
    have l: "4 \<le> length d" "?n \<le> length ?d"
      using "1.prems" False by (subst (asm) read_parts.simps, force simp: Let_def split: if_splits)+
    with "1.prems" False obtain qs where qs: "read_parts (drop ?n ?d) = Some qs"
      and ps: "ps = take ?n ?d # qs"
      by (subst (asm) read_parts.simps) (auto simp: Let_def split: if_splits option.splits)
    have "concat (map put_part qs) = drop ?n ?d \<and> (\<forall>p \<in> set qs. length p < 2 ^ 32)"
      by (rule "1.IH" [OF False _ refl refl _ qs]) (use l in simp_all)
    moreover have "length (take ?n ?d) = ?n" using l by simp
    moreover have "u32_to_be (of_nat ?n) = take 4 d" "?n < 2 ^ 32"
      using l u32_to_be_of_value [of "take 4 d"] be_value_bound [of "take 4 d"] by simp_all
    moreover have "take 4 d @ take ?n ?d @ drop ?n ?d = d" by (simp only: append_take_drop_id)
    ultimately show ?thesis
      by (simp add: ps put_part_def [of "take ?n ?d"] del: drop_drop append_take_drop_id)
  qed
qed

lemma parse_data:
  assumes "\<forall>p \<in> set [sk_signing k, sk_unlock k, sk_peer k, sk_pub k]. length p < 2 ^ 32"
  shows "sign_in_key_parse (sign_in_key_data k) = Some k"
  using read_put_parts [OF assms] by (simp add: sign_in_key_parse_def sign_in_key_data_def)

text \<open>
  C30: The container of a sign-in key and its parser are inverse to each other: bytes are
  read as a sign-in key exactly when they are the container of that key, so no plain
  handle, truncated file or file with a tail is taken for one, and what is written is
  read back whole.
\<close>

theorem sign_in_key_parse_iff:
  "sign_in_key_parse d = Some k \<longleftrightarrow>
    d = sign_in_key_data k \<and>
    (\<forall>p \<in> set [sk_signing k, sk_unlock k, sk_peer k, sk_pub k]. length p < 2 ^ 32)"
  (is "?l \<longleftrightarrow> ?r")
proof
  assume ?l
  then obtain s u p q where m: "take (length sign_in_magic) d = sign_in_magic"
    and r: "read_parts (drop (length sign_in_magic) d) = Some [s, u, p, q]"
    and k: "k = \<lparr>sk_signing = s, sk_unlock = u, sk_peer = p, sk_pub = q\<rparr>"
    by (auto simp: sign_in_key_parse_def split: if_splits option.splits list.splits)
  from put_read_parts [OF r] m k show ?r
    unfolding sign_in_key_data_def by (metis append_take_drop_id sign_in_key.select_convs)
next
  assume ?r
  then have d: "d = sign_in_key_data k"
    and "\<forall>p \<in> set [sk_signing k, sk_unlock k, sk_peer k, sk_pub k]. length p < 2 ^ 32"
    by blast+
  from parse_data [OF this(2)] d show ?l by (simp only:)
qed

theorem sign_in_key_parse_iff_witness:
  "sign_in_key_parse (sign_in_key_data \<lparr>sk_signing = [1], sk_unlock = [2, 3], sk_peer = [], sk_pub = [4]\<rparr>) =
    Some \<lparr>sk_signing = [1], sk_unlock = [2, 3], sk_peer = [], sk_pub = [4]\<rparr>"
  by (subst sign_in_key_parse_iff) simp

section \<open>What the daemon relies on\<close>

text \<open>
  A store of authentications by scope: forgetting one scope leaves the others, forgetting
  all leaves none, and a signature made for a scope can add an authentication to that
  scope only, and only when it is asked to hold one.
\<close>

locale context_store =
  fixes forget :: "string \<Rightarrow> 's \<Rightarrow> 's"
    and forget_all :: "'s \<Rightarrow> 's"
    and holds :: "'s \<Rightarrow> string \<Rightarrow> bool"
  assumes holds_forget: "holds (forget k s) j \<longleftrightarrow> j \<noteq> k \<and> holds s j"
    and holds_forget_all: "\<not> holds (forget_all s) j"
begin

text \<open>Forgetting a list of scopes, as the daemon does with what has run out.\<close>

definition forget_each :: "string list \<Rightarrow> 's \<Rightarrow> 's" where
  "forget_each ks s = fold forget ks s"

lemma holds_forget_each: "holds (forget_each ks s) j \<longleftrightarrow> j \<notin> set ks \<and> holds s j"
  by (induction ks arbitrary: s) (auto simp: forget_each_def holds_forget)

end

locale signing_store = context_store forget forget_all holds
  for forget :: "string \<Rightarrow> 's \<Rightarrow> 's" and forget_all :: "'s \<Rightarrow> 's"
    and holds :: "'s \<Rightarrow> string \<Rightarrow> bool" +
  fixes after_sign :: "'r \<Rightarrow> 's \<Rightarrow> 's"
    and scope_of_req :: "'r \<Rightarrow> string"
    and hold_of_req :: "'r \<Rightarrow> bool"
  assumes sign_other: "j \<noteq> scope_of_req r \<Longrightarrow> holds (after_sign r s) j \<longleftrightarrow> holds s j"
    and sign_no_hold: "\<not> hold_of_req r \<Longrightarrow> holds (after_sign r s) j \<Longrightarrow> holds s j"
begin

text \<open>What a request leaves held was held before, or is its own scope's, asked to be held.\<close>

lemma sign_holds:
  "holds (after_sign r s) j \<Longrightarrow> holds s j \<or> (j = scope_of_req r \<and> hold_of_req r)"
  using sign_other [of j r s] sign_no_hold [of r s j] by blast

end

text \<open>Something is held for a scope: a context, or a sign-in key's secret.\<close>

definition cache_holds :: "la_cache \<Rightarrow> string \<Rightarrow> bool" where
  "cache_holds c k \<longleftrightarrow> lc_held c k \<noteq> None \<or> lc_secrets c k \<noteq> None"

text \<open>A call of \<open>kwse_sign\<close> as the daemon makes it, and the cache it leaves.\<close>

record sign_req =
  sr_blob :: bytes
  sr_msg :: bytes
  sr_text :: string
  sr_hold :: bool
  sr_unlock :: f64
  sr_scope :: string
  sr_approve :: bool
  sr_riding :: bool
  sr_cap :: nat

definition kwse_call :: "apple \<Rightarrow> sign_req \<Rightarrow> la_cache \<Rightarrow> out_buffer \<times> la_event list \<times> la_cache" where
  "kwse_call ap r c =
    kwse_sign ap (sr_blob r) (sr_msg r) (sr_text r) (sr_hold r) (sr_unlock r) (sr_scope r)
      (sr_approve r) (sr_riding r) (sr_cap r) c"

definition cache_after_sign :: "apple \<Rightarrow> sign_req \<Rightarrow> la_cache \<Rightarrow> la_cache" where
  "cache_after_sign ap r c = snd (snd (kwse_call ap r c))"

lemma sign_in_cache:
  "snd (snd (sign_in ap k msg text hold u scope approve riding cap c)) =
    (if (hold \<and> lc_secrets c scope \<noteq> None) \<or> riding then c
     else (case fst (release_secret ap k text u approve (Prompting (lc_made c))) of
             None \<Rightarrow> snd (new_context c)
           | Some s \<Rightarrow> (if hold then cache_keep scope s (snd (new_context c)) else snd (new_context c))))"
  by (auto simp: sign_in_def cache_secret_def new_context_def Let_def split: option.splits prod.splits)

lemma plain_sign_cache:
  "snd (snd (plain_sign ap d msg text hold u scope approve cap c)) =
    (case cache_take scope hold c of (n, fresh, c') \<Rightarrow>
       if fresh \<and> approve \<and> \<not> ap_authenticate ap (Prompting n) (prompt_text text)
       then cache_forget scope c' else c')"
  by (auto simp: plain_sign_def Let_def split: option.splits prod.splits)

lemmas cache_defs = cache_holds_def cache_forget_def cache_forget_all_def cache_keep_def
  cache_take_def new_context_def cache_secret_def

interpretation shim: signing_store cache_forget cache_forget_all cache_holds
  "cache_after_sign ap" sr_scope sr_hold for ap
proof (unfold_locales, goal_cases)
  case (1 k s j)
  then show ?case by (simp add: cache_defs)
next
  case (2 s j)
  then show ?case by (simp add: cache_defs)
next
  case (3 j r s)
  then show ?case
    by (auto simp: cache_after_sign_def kwse_call_def kwse_sign_def sign_in_cache plain_sign_cache
        cache_defs split: option.splits prod.splits)
next
  case (4 r s j)
  then show ?case
    by (auto simp: cache_after_sign_def kwse_call_def kwse_sign_def sign_in_cache plain_sign_cache
        cache_defs split: option.splits prod.splits if_splits)
qed

section \<open>Sign-in keys\<close>

text \<open>
  A request that rides a sign-in asks nobody: it signs with the secret held for its
  scope or fails with \<open>-4\<close>, raises no prompt, releases no secret, and leaves what is held
  as it was.
\<close>

lemma riding_asks_nobody:
  assumes "sign_in_key_parse (sr_blob r) = Some k" and "sr_riding r"
  shows "cache_after_sign ap r c = c \<and>
    (case (if sr_hold r then lc_secrets c (sr_scope r) else None) of
       None \<Rightarrow> kwse_call ap r c = ((-4, []), [], c)
     | Some s \<Rightarrow>
         fst (snd (kwse_call ap r c)) = [Signed (Bearing s)] \<and>
         fst (kwse_call ap r c) = signed_out ap k (sr_msg r) s (sr_cap r))"
  using assms
  by (auto simp: cache_after_sign_def kwse_call_def kwse_sign_def sign_in_def cache_secret_def
      split: option.splits)

definition example_key :: sign_in_key where
  "example_key = \<lparr>sk_signing = [1], sk_unlock = [2], sk_peer = [3], sk_pub = [4]\<rparr>"

definition example_req :: sign_req where
  "example_req =
    \<lparr>sr_blob = sign_in_key_data example_key, sr_msg = [9], sr_text = [], sr_hold = True, sr_unlock = 0,
     sr_scope = ''everywhere'', sr_approve = True, sr_riding = True, sr_cap = 256\<rparr>"

definition empty_cache :: la_cache where
  "empty_cache = \<lparr>lc_held = Map.empty, lc_secrets = Map.empty, lc_made = 0\<rparr>"

lemma example_parse: "sign_in_key_parse (sr_blob example_req) = Some example_key"
  by (simp add: example_req_def parse_data example_key_def)

text \<open>A machine whose owner answers every prompt and whose enclave accepts one secret.\<close>

definition willing :: apple where
  "willing =
    \<lparr>ap_available = True, ap_authenticate = (\<lambda>_ _. True), ap_can_bear = (\<lambda>_. True),
     ap_loads = (\<lambda>_ _. True),
     ap_signature = (\<lambda>_ ctx _. if ctx = Bearing [7] then Some (replicate 64 1) else None),
     ap_agreed = (\<lambda>_ _ ctx. if ctx = Refusing then None else Some [7]), ap_valid = (\<lambda>_ _ _. True),
     ap_public = (\<lambda>_. None), ap_generated = (\<lambda>_. None), ap_sessions = None, ap_uid = 501,
     ap_max_reuse = Fin 300\<rparr>"

theorem riding_asks_nobody_witness:
  "kwse_call willing example_req empty_cache = ((-4, []), [], empty_cache)"
proof -
  have r: "sr_riding example_req" by (simp add: example_req_def)
  have n: "(if sr_hold example_req then lc_secrets empty_cache (sr_scope example_req) else None) = None"
    by (simp add: empty_cache_def)
  from riding_asks_nobody [OF example_parse r, of willing empty_cache] show ?thesis
    unfolding n by simp
qed

text \<open>
  A sign-in key signs only for its secret: a signature that comes out was made with the
  secret held for the request's scope, or with one that the unlock key released to this
  call on a context of its own, authenticated first when the daemon asks for approval,
  and then only on a request that does not ride.
\<close>

lemma sign_in_needs_secret:
  assumes "sign_in_key_parse (sr_blob r) = Some k"
    and "kwse_call ap r c = ((n, sig), ev, c')" and "0 < n"
  shows "\<exists>s. sign_with_secret ap k (sr_msg r) s = Some sig \<and> Signed (Bearing s) \<in> set ev \<and>
    (sr_hold r \<and> lc_secrets c (sr_scope r) = Some s \<or>
     \<not> sr_riding r \<and>
     ap_agreed ap (sk_unlock k) (sk_peer k) (Prompting (lc_made c)) = Some s \<and>
     (sr_approve r \<longrightarrow> ap_authenticate ap (Prompting (lc_made c)) (prompt_text (sr_text r))))"
proof -
  have o: "sign_with_secret ap k m s = Some sig" if "signed_out ap k m s cap = (n, sig)" for m s cap
    using that assms(3) by (auto simp: signed_out_def store_out_def split: option.splits if_splits)
  show ?thesis
    using assms
    by (auto simp: kwse_call_def kwse_sign_def sign_in_def cache_secret_def new_context_def
        release_secret_def Let_def dest!: o split: option.splits if_splits)
qed

theorem sign_in_needs_secret_witness:
  "fst (kwse_call willing (example_req\<lparr>sr_riding := False\<rparr>) empty_cache) = (64, replicate 64 1) \<and>
   ap_agreed willing [2] [3] (Prompting 0) = Some [7]"
proof -
  let ?r = "example_req\<lparr>sr_riding := False\<rparr>"
  have p: "sign_in_key_parse (sr_blob ?r) = Some example_key"
    using example_parse by simp
  have x: "sr_msg ?r = [9]" "sr_hold ?r" "\<not> sr_riding ?r" "sr_approve ?r" "sr_cap ?r = 256"
    by (simp_all add: example_req_def)
  obtain ev c' where c: "kwse_call willing ?r empty_cache = ((64, replicate 64 1), ev, c')"
    by (simp add: kwse_call_def kwse_sign_def p sign_in_def x [simplified] empty_cache_def
        cache_secret_def new_context_def release_secret_def willing_def signed_out_def store_out_def
        sign_with_secret_def example_parse)
  from sign_in_needs_secret [OF p c] have "\<exists>s. lc_secrets empty_cache (sr_scope ?r) = Some s \<or>
      ap_agreed willing (sk_unlock example_key) (sk_peer example_key) (Prompting (lc_made empty_cache)) = Some s"
    by auto
  then have "ap_agreed willing [2] [3] (Prompting 0) = Some [7]"
    by (auto simp: empty_cache_def example_key_def willing_def)
  with c show ?thesis by simp
qed

section \<open>The screen\<close>

text \<open>
  The shim calls the screen unlocked exactly when the record could be read, this user
  has a session in it, none of those is locked and one is at the console; in every other
  case the answer is one of the three that bar a sign-in key.
\<close>

lemma screen_unlocked_iff:
  "(kwse_screen_locked ap = 0 \<longleftrightarrow>
     (\<exists>ss. ap_sessions ap = Some ss \<and>
        (\<exists>l. (Some (ap_uid ap), l, Some True) \<in> set ss) \<and>
        \<not> (\<exists>c. (Some (ap_uid ap), Some True, c) \<in> set ss))) \<and>
   kwse_screen_locked ap \<in> {0, 1, 2, 3}"
proof (cases "ap_sessions ap")
  case None
  then show ?thesis by (simp add: kwse_screen_locked_def)
next
  case (Some ss)
  let ?mine = "filter (\<lambda>(uid, _, _). uid = Some (ap_uid ap)) ss"
  have l: "list_ex (\<lambda>(_, locked, _). locked = Some True) ?mine \<longleftrightarrow>
      (\<exists>c. (Some (ap_uid ap), Some True, c) \<in> set ss)"
    by (auto simp: list_ex_iff)
  have c: "list_ex (\<lambda>(_, _, console). console = Some True) ?mine \<longleftrightarrow>
      (\<exists>l. (Some (ap_uid ap), l, Some True) \<in> set ss)"
    by (auto simp: list_ex_iff)
  show ?thesis
  proof (cases "?mine = []")
    case True
    with c have "\<not> (\<exists>l. (Some (ap_uid ap), l, Some True) \<in> set ss)" by simp
    with Some True show ?thesis by (simp add: kwse_screen_locked_def)
  next
    case False
    then show ?thesis
      by (simp only: kwse_screen_locked_def Some option.case Let_def if_False l c) auto
  qed
qed

end
