(* ===== verification/Enclave.thy ===== *)
theory Enclave
  imports Kwse Purpose
begin

text \<open>
  \<open>daemon/src/enclave.rs\<close>: the key Keyward holds itself: its policies, where its handle is
  kept, the SSH encodings of its public half and its signatures, signing through the shim,
  and making a new key.
\<close>

section \<open>Policies and the screen\<close>

datatype policy = PolicyNone | UserPresence | BiometryCurrentSet | SignIn

definition policy_parse :: "string \<Rightarrow> policy option" where
  "policy_parse s =
    (if s = ''none'' then Some PolicyNone
     else if s = ''presence'' then Some UserPresence
     else if s = ''biometry'' then Some BiometryCurrentSet
     else if s = ''sign-in'' then Some SignIn
     else None)"

fun policy_code :: "policy \<Rightarrow> int" where
  "policy_code PolicyNone = 0"
| "policy_code UserPresence = 1"
| "policy_code BiometryCurrentSet = 2"
| "policy_code SignIn = 3"

fun policy_label :: "policy \<Rightarrow> string" where
  "policy_label PolicyNone = ''none''"
| "policy_label UserPresence = ''presence''"
| "policy_label BiometryCurrentSet = ''biometry''"
| "policy_label SignIn = ''sign-in''"

lemma policy_parse_label: "policy_parse s = Some p \<longleftrightarrow> s = policy_label p"
  by (cases p) (auto simp: policy_parse_def)

datatype screen = Unlocked | Locked | Away | Unreadable

fun refusal :: "screen \<Rightarrow> string option" where
  "refusal Unlocked = None"
| "refusal Locked = Some ''screen locked''"
| "refusal Away = Some ''not at the console''"
| "refusal Unreadable = Some ''screen state unreadable''"

lemma refusal_None [simp]: "refusal s = None \<longleftrightarrow> s = Unlocked"
  by (cases s) simp_all

definition screen_of :: "int \<Rightarrow> screen" where
  "screen_of rc =
    (if rc = 0 then Unlocked else if rc = 1 then Locked else if rc = 2 then Away
     else Unreadable)"

definition screen_now :: "apple \<Rightarrow> screen" where
  "screen_now ap = screen_of (kwse_screen_locked ap)"

section \<open>Where the handle is kept\<close>

datatype key_store = KeyFile string | Keychain

text \<open>
  The disk and the login keychain as far as a key handle goes, and which of the calls on
  them fail.
\<close>

record key_disk =
  kd_files :: "string \<rightharpoonup> bytes"
  kd_modes :: "string \<rightharpoonup> nat"
  kd_readable :: "string \<Rightarrow> bool"
  kd_dir_error :: "string \<Rightarrow> string option"
  kd_write_error :: "string \<Rightarrow> string option"
  kd_mode_error :: "string \<Rightarrow> string option"
  kd_keychain :: "bytes option"
  kd_kc_readable :: bool
  kd_kc_deletable :: bool
  kd_kc_writable :: bool

definition default_key_path :: "string option \<Rightarrow> string" where
  "default_key_path home =
    path_join (unwrap_or home ''/tmp'') ''Library/Application Support/Keyward/enclave-key.blob''"

definition key_store_from_config :: "string option \<Rightarrow> string option \<Rightarrow> key_store" where
  "key_store_from_config home v =
    (case v of
       Some p \<Rightarrow> (if p = ''keychain'' then Keychain else KeyFile p)
     | None \<Rightarrow> KeyFile (default_key_path home))"

fun key_store_describe :: "key_store \<Rightarrow> string" where
  "key_store_describe (KeyFile p) = p"
| "key_store_describe Keychain = ''login keychain (dev.danielsol.keyward / enclave-key)''"

definition kwse_keychain_load :: "key_disk \<Rightarrow> nat \<Rightarrow> out_buffer" where
  "kwse_keychain_load disk cap =
    (case kd_keychain disk of
       None \<Rightarrow> (0, [])
     | Some d \<Rightarrow> if kd_kc_readable disk then store_out d cap else (-1, []))"

definition kwse_keychain_store :: "bytes \<Rightarrow> bool \<Rightarrow> key_disk \<Rightarrow> int \<times> key_disk" where
  "kwse_keychain_store blob force disk =
    (let item = (if force \<and> kd_kc_deletable disk then None else kd_keychain disk);
         disk' = disk\<lparr>kd_keychain := item\<rparr>
     in if item \<noteq> None then (2, disk')
        else if \<not> kd_kc_writable disk then (-1, disk')
        else (0, disk'\<lparr>kd_keychain := Some blob\<rparr>))"

definition key_store_read :: "key_store \<Rightarrow> key_disk \<Rightarrow> bytes option" where
  "key_store_read st disk =
    (case st of
       KeyFile p \<Rightarrow> (if kd_readable disk p then kd_files disk p else None)
     | Keychain \<Rightarrow>
         (case kwse_keychain_load disk 4096 of (n, b) \<Rightarrow> if n \<le> 0 then None else Some b))"

definition key_store_exists :: "key_store \<Rightarrow> key_disk \<Rightarrow> bool" where
  "key_store_exists st disk =
    (case st of
       KeyFile p \<Rightarrow> kd_files disk p \<noteq> None
     | Keychain \<Rightarrow> key_store_read st disk \<noteq> None)"

section \<open>The loaded key\<close>

record enclave =
  en_blob :: bytes
  en_point :: bytes
  en_comment :: string
  en_ends_at_lock :: bool

definition KEY_TYPE :: string where "KEY_TYPE = ''ecdsa-sha2-nistp256''"
definition CURVE :: string where "CURVE = ''nistp256''"

definition enclave_load :: "apple \<Rightarrow> key_store \<Rightarrow> key_disk \<Rightarrow> string \<Rightarrow> enclave option" where
  "enclave_load ap st disk comment =
    (case key_store_read st disk of
       None \<Rightarrow> None
     | Some blob \<Rightarrow>
         if blob = [] then None
         else
           (case kwse_public ap blob 256 of
              (n, point) \<Rightarrow>
                if n \<le> 0 then None
                else Some \<lparr>en_blob = blob, en_point = point, en_comment = comment,
                       en_ends_at_lock = (kwse_kind blob = 1)\<rparr>))"

definition ssh_public_blob :: "enclave \<Rightarrow> bytes" where
  "ssh_public_blob e =
    writer_string (en_point e)
      (writer_string (as_bytes CURVE) (writer_string (as_bytes KEY_TYPE) writer_new))"

text \<open>The base64 encoder is the \<open>base64\<close> crate's.\<close>

definition authorized_key_line :: "(bytes \<Rightarrow> string) \<Rightarrow> enclave \<Rightarrow> string" where
  "authorized_key_line b64 e =
    KEY_TYPE @ '' '' @ b64 (ssh_public_blob e) @ '' '' @ en_comment e"

text \<open>\<open>CString::new\<close> refuses an interior NUL, and the code then passes an empty string.\<close>

definition c_str_or_empty :: "string \<Rightarrow> string" where
  "c_str_or_empty s = (if List.member s (CHR 0x00) then [] else s)"

definition enclave_forget :: "string \<Rightarrow> la_cache \<Rightarrow> la_cache" where
  "enclave_forget scope = cache_forget (c_str_or_empty scope)"

definition enclave_forget_all :: "la_cache \<Rightarrow> la_cache" where
  "enclave_forget_all = cache_forget_all"

definition mpint :: "bytes \<Rightarrow> bytes" where
  "mpint v =
    (case dropWhile (\<lambda>b. b = 0) v of
       [] \<Rightarrow> []
     | b # bs \<Rightarrow> (if b AND 0x80 \<noteq> 0 then 0 # b # bs else b # bs))"

definition ssh_ecdsa_signature :: "bytes \<Rightarrow> bytes \<Rightarrow> bytes" where
  "ssh_ecdsa_signature r s =
    (let inner = writer_string (mpint s) (writer_string (mpint r) writer_new)
     in writer_string inner (writer_string (as_bytes KEY_TYPE) writer_new))"

text \<open>What the daemon makes of the shim's answer.\<close>

definition sign_result :: "out_buffer \<Rightarrow> (string, bytes) result" where
  "sign_result out =
    (let (n, sig) = out
     in if n = -3 then Inl ''declined or authentication failed''
        else if n = -4 then Inl ''signed out while signing''
        else if n \<le> 0 then Inl (''enclave signing failed (code '' @ show_int n @ '')'')
        else if length sig \<noteq> 64
        then Inl (''unexpected signature length '' @ show_nat (length sig))
        else Inr (ssh_ecdsa_signature (take 32 sig) (drop 32 sig)))"

definition enclave_sign ::
  "apple \<Rightarrow> enclave \<Rightarrow> bytes \<Rightarrow> string \<Rightarrow> string \<Rightarrow> bool \<Rightarrow> f64 \<Rightarrow> bool \<Rightarrow> bool \<Rightarrow> la_cache \<Rightarrow>
    (string, bytes) result \<times> la_event list \<times> la_cache" where
  "enclave_sign ap e data reason scope hold unlock_reuse approve riding c =
    (let req =
       \<lparr>sr_blob = en_blob e, sr_msg = data, sr_text = c_str_or_empty reason, sr_hold = hold,
        sr_unlock = unlock_reuse, sr_scope = c_str_or_empty scope, sr_approve = approve,
        sr_riding = riding, sr_cap = 256\<rparr>;
       (out, ev, c') = kwse_call ap req c
     in (sign_result out, ev, c'))"

section \<open>Making a key\<close>

definition available :: "apple \<Rightarrow> bool" where
  "available ap \<longleftrightarrow> kwse_available ap = 1"

lemma available_iff [simp]: "available ap = ap_available ap"
  by (simp add: available_def kwse_available_def)

definition store_key :: "key_store \<Rightarrow> bytes \<Rightarrow> bool \<Rightarrow> key_disk \<Rightarrow> (string, unit) result \<times> key_disk" where
  "store_key st blob force disk =
    (case st of
       KeyFile path \<Rightarrow>
         (case (case path_parent path of None \<Rightarrow> None | Some dir \<Rightarrow> kd_dir_error disk dir) of
            Some e \<Rightarrow> (Inl e, disk)
          | None \<Rightarrow>
              (case kd_write_error disk path of
                 Some e \<Rightarrow> (Inl e, disk)
               | None \<Rightarrow>
                   let disk' = disk\<lparr>kd_files := (kd_files disk)(path \<mapsto> blob)\<rparr>
                   in (case kd_mode_error disk path of
                         Some e \<Rightarrow> (Inl e, disk')
                       | None \<Rightarrow>
                           (Inr (), disk'\<lparr>kd_modes := (kd_modes disk)(path \<mapsto> 384)\<rparr>))))
     | Keychain \<Rightarrow>
         (case kwse_keychain_store blob force disk of
            (rc, disk') \<Rightarrow>
              if rc \<noteq> 0 then (Inl (''keychain store failed (code '' @ show_int rc @ '')''), disk')
              else (Inr (), disk')))"

definition overwrite_refusal :: "key_store \<Rightarrow> string" where
  "overwrite_refusal st =
    key_store_describe st @
    '' already holds a key. Overwriting destroys the existing key permanently '' @ em_dash @
    '' it cannot be exported or restored. Pass --force only if you have already rotated away from it.''"

text \<open>
  \<open>generate\<close>: what the shim makes (\<open>made\<close>, a fresh pair and its secret), the disk and the
  contexts before, and the result and both after. A write that fails is taken to leave the
  file as it was.
\<close>

definition try_new_key :: "apple \<Rightarrow> policy \<Rightarrow> bytes \<Rightarrow> la_cache \<Rightarrow> (string, unit) result \<times> la_cache" where
  "try_new_key ap pol blob c =
    (if pol = SignIn then
       (case kwse_check ap blob ''try the new sign-in key'' c of
          (rc, c') \<Rightarrow>
            if rc = 0 then (Inr (), c')
            else if rc = -2
            then (Inl ''the new key does not open for its own Touch ID; nothing was kept'', c')
            else (Inl ''the Touch ID was declined or failed; nothing was kept'', c'))
     else (Inr (), c))"

definition generate ::
  "apple \<Rightarrow> (sign_in_key \<times> bytes) option \<Rightarrow> key_store \<Rightarrow> policy \<Rightarrow> bool \<Rightarrow> key_disk \<Rightarrow> la_cache \<Rightarrow>
    (string, unit) result \<times> key_disk \<times> la_cache" where
  "generate ap made st pol force disk c =
    (if \<not> available ap then (Inl ''no Secure Enclave on this machine'', disk, c)
     else if key_store_exists st disk \<and> \<not> force then (Inl (overwrite_refusal st), disk, c)
     else
       (case kwse_generate ap made (policy_code pol) 4096 of
          (n, blob) \<Rightarrow>
            if n \<le> 0 then
              (Inl (''enclave key generation failed (code '' @ show_int n @ '')''), disk, c)
            else
              (case try_new_key ap pol blob c of
                 (Inl e, c') \<Rightarrow> (Inl e, disk, c')
               | (Inr _, c') \<Rightarrow>
                   (case store_key st blob force disk of (r, disk') \<Rightarrow> (r, disk', c')))))"

section \<open>The encodings are read back\<close>

text \<open>What a peer reads out of a list of strings.\<close>

abbreviation read_strings :: "nat \<Rightarrow> bytes \<Rightarrow> bytes list option" where
  "read_strings n bs \<equiv> fst (string_field.get_list n (reader_new bs))"

lemma read_strings_written:
  assumes "\<forall>x \<in> set xs. length x < 2 ^ 32" and "length (string_field.put_list xs []) < 2 ^ 64"
  shows "read_strings (length xs) (string_field.put_list xs []) = Some xs"
  using string_field.get_put_list [of xs "reader_new (string_field.put_list xs [])" "[]"] assms
    at_bytes_new [of "string_field.put_list xs []"] by auto

lemma ssh_public_blob_list:
  "ssh_public_blob e = string_field.put_list [as_bytes KEY_TYPE, as_bytes CURVE, en_point e] []"
  by (simp add: ssh_public_blob_def writer_new_def)

lemma ssh_ecdsa_signature_list:
  "ssh_ecdsa_signature r s =
    string_field.put_list
      [as_bytes KEY_TYPE, string_field.put_list [mpint r, mpint s] []] []"
  by (simp add: ssh_ecdsa_signature_def writer_new_def Let_def)

lemma length_put_list:
  "length (string_field.put_list xs buf) = length buf + sum_list (map (\<lambda>x. 4 + length x) xs)"
  by (induction xs arbitrary: buf) auto

lemma mpint_length: "length (mpint v) \<le> length v + 1"
proof -
  have "length (dropWhile (\<lambda>b. b = 0) v) \<le> length v" by (rule length_dropWhile_le)
  then show ?thesis by (auto simp: mpint_def split: list.splits)
qed

lemma be_value_from:
  "foldl (\<lambda>n b. 256 * n + unat b) a bs = a * 256 ^ length bs + be_value bs" for bs :: bytes
proof (induction bs arbitrary: a)
  case Nil
  then show ?case by (simp add: be_value_def)
next
  case (Cons x bs)
  have "be_value (x # bs) = foldl (\<lambda>n b. 256 * n + unat b) (unat x) bs"
    by (simp add: be_value_def)
  with Cons [of "unat x"] Cons [of "256 * a + unat x"] show ?case
    by (simp add: algebra_simps)
qed

lemma be_value_Cons: "be_value (b # bs) = unat b * 256 ^ length bs + be_value bs"
  using be_value_from [of "unat b" bs] by (simp add: be_value_def [of "b # bs"])

lemma be_value_Nil [simp]: "be_value [] = 0"
  by (simp add: be_value_def)

lemma be_value_strip: "be_value (dropWhile (\<lambda>b. b = 0) v) = be_value v"
  by (induction v) (simp_all add: be_value_Cons)

lemma mpint_value: "be_value (mpint v) = be_value v"
proof -
  have "be_value (mpint v) = be_value (dropWhile (\<lambda>b. b = 0) v)"
    by (auto simp: mpint_def be_value_Cons split: list.splits)
  then show ?thesis by (simp only: be_value_strip)
qed

text \<open>An SSH \<open>mpint\<close> that is not negative and has no byte to spare.\<close>

definition mpint_form :: "bytes \<Rightarrow> bool" where
  "mpint_form m \<longleftrightarrow>
    (case m of
       [] \<Rightarrow> True
     | [b] \<Rightarrow> b \<noteq> 0 \<and> b AND 0x80 = 0
     | b # c # _ \<Rightarrow> b AND 0x80 = 0 \<and> (b = 0 \<longrightarrow> c AND 0x80 \<noteq> 0))"

lemma mpint_canonical: "mpint_form (mpint v)"
proof (cases "dropWhile (\<lambda>b. b = 0) v")
  case Nil
  then show ?thesis by (simp add: mpint_def mpint_form_def)
next
  case (Cons b bs)
  then have "b \<noteq> 0" using hd_dropWhile [of "\<lambda>b. b = 0" v] by simp
  with Cons show ?thesis
    by (auto simp: mpint_def mpint_form_def split: list.splits)
qed

text \<open>
  C27: The SSH encoding of a signature: a peer that reads the string \<open>ecdsa-sha2-nistp256\<close>
  and a string of two integers out of it gets the numbers the enclave returned, each in
  the one form the protocol allows, never read as negative and with no byte to spare,
  for every pair of 32-byte halves.
\<close>

theorem ssh_signature_read_back:
  assumes "length r = 32" and "length s = 32"
  shows "\<exists>inner m n.
    read_strings 2 (ssh_ecdsa_signature r s) = Some [as_bytes KEY_TYPE, inner] \<and>
    read_strings 2 inner = Some [m, n] \<and>
    be_value m = be_value r \<and> be_value n = be_value s \<and> mpint_form m \<and> mpint_form n"
proof -
  let ?inner = "string_field.put_list [mpint r, mpint s] []"
  have l: "length (mpint r) \<le> 33" "length (mpint s) \<le> 33"
    using mpint_length [of r] mpint_length [of s] assms by simp_all
  have "read_strings (length [mpint r, mpint s]) ?inner = Some [mpint r, mpint s]"
    by (rule read_strings_written) (use l in \<open>auto simp: length_put_list\<close>)
  moreover have "read_strings (length [as_bytes KEY_TYPE, ?inner]) (ssh_ecdsa_signature r s) =
      Some [as_bytes KEY_TYPE, ?inner]"
    unfolding ssh_ecdsa_signature_list
    by (rule read_strings_written) (use l in \<open>auto simp: length_put_list KEY_TYPE_def\<close>)
  ultimately have "read_strings 2 (ssh_ecdsa_signature r s) = Some [as_bytes KEY_TYPE, ?inner]"
    "read_strings 2 ?inner = Some [mpint r, mpint s]"
    by (simp_all add: numeral_2_eq_2)
  then show ?thesis using mpint_value mpint_canonical by blast
qed

theorem ssh_signature_read_back_witness:
  "\<exists>inner m n.
    read_strings 2 (ssh_ecdsa_signature (replicate 32 0x80) (replicate 31 0 @ [5])) =
      Some [as_bytes KEY_TYPE, inner] \<and>
    read_strings 2 inner = Some [m, n] \<and> be_value n = 5 \<and> mpint_form m"
proof -
  have "length (replicate 32 (0x80 :: byte)) = 32" "length (replicate 31 0 @ [5 :: byte]) = 32"
    by simp_all
  from ssh_signature_read_back [OF this] obtain inner m n where
    "read_strings 2 (ssh_ecdsa_signature (replicate 32 0x80) (replicate 31 0 @ [5])) =
      Some [as_bytes KEY_TYPE, inner]"
    "read_strings 2 inner = Some [m, n]" "be_value n = be_value (replicate 31 0 @ [5])" "mpint_form m"
    by blast
  moreover have "be_value (replicate k 0 @ [5]) = 5" for k
    by (induction k) (simp_all add: be_value_Cons)
  ultimately show ?thesis by metis
qed

text \<open>Different keys have different public blobs, so a blob names the key.\<close>

lemma ssh_public_blob_inject:
  assumes "length (en_point e) < 2 ^ 32" and "length (en_point f) < 2 ^ 32"
    and "ssh_public_blob e = ssh_public_blob f"
  shows "en_point e = en_point f"
proof -
  have "read_strings 3 (ssh_public_blob x) = Some [as_bytes KEY_TYPE, as_bytes CURVE, en_point x]"
    if "length (en_point x) < 2 ^ 32" for x :: enclave
    using read_strings_written [of "[as_bytes KEY_TYPE, as_bytes CURVE, en_point x]"] that
    by (simp add: ssh_public_blob_list length_put_list KEY_TYPE_def CURVE_def numeral_3_eq_3)
  from this [of e] this [of f] assms show ?thesis by simp
qed

section \<open>Making a key never loses one, and keeps only a good one\<close>

definition key_at :: "key_store \<Rightarrow> key_disk \<Rightarrow> bytes option" where
  "key_at st disk = (case st of KeyFile p \<Rightarrow> kd_files disk p | Keychain \<Rightarrow> kd_keychain disk)"

text \<open>A call that does not get as far as storing anything fails and changes nothing.\<close>

lemma generate_cases:
  assumes "generate ap made st pol force disk c = (res, disk', c')"
  obtains (refused) e where "res = Inl e" and "disk' = disk"
  | (stored) n blob where "\<not> (key_store_exists st disk \<and> \<not> force)"
      and "kwse_generate ap made (policy_code pol) 4096 = (n, blob)" and "0 < n"
      and "try_new_key ap pol blob c = (Inr (), c')"
      and "store_key st blob force disk = (res, disk')"
proof -
  obtain n blob where g: "kwse_generate ap made (policy_code pol) 4096 = (n, blob)"
    by (cases "kwse_generate ap made (policy_code pol) 4096")
  obtain t c1 where t: "try_new_key ap pol blob c = (t, c1)" by (cases "try_new_key ap pol blob c")
  consider "\<not> ap_available ap" | "ap_available ap" "key_store_exists st disk \<and> \<not> force"
    | "ap_available ap" "\<not> (key_store_exists st disk \<and> \<not> force)" "n \<le> 0"
    | e where "ap_available ap" "\<not> (key_store_exists st disk \<and> \<not> force)" "0 < n" "t = Inl e"
    | "ap_available ap" "\<not> (key_store_exists st disk \<and> \<not> force)" "0 < n" "t = Inr ()"
    by (cases t) force+
  then show thesis
  proof cases
    case 1
    with assms have "(\<exists>e. res = Inl e) \<and> disk' = disk" by (auto simp: generate_def)
    then show ?thesis using refused by blast
  next
    case 2
    with assms have "(\<exists>e. res = Inl e) \<and> disk' = disk" by (auto simp: generate_def)
    then show ?thesis using refused by blast
  next
    case 3
    with assms g have "(\<exists>e. res = Inl e) \<and> disk' = disk"
      by (auto simp: generate_def split: if_splits)
    then show ?thesis using refused by blast
  next
    case 4
    with assms g t have "(\<exists>e. res = Inl e) \<and> disk' = disk"
      by (auto simp: generate_def split: if_splits)
    then show ?thesis using refused by blast
  next
    case 5
    obtain r d where st: "store_key st blob force disk = (r, d)" by (cases "store_key st blob force disk")
    with 5 assms g t have "c1 = c'" "r = res" "d = disk'"
      by (auto simp: generate_def split: if_splits)
    with 5 g t st show ?thesis by (intro stored) auto
  qed
qed

lemma generate_refuses:
  assumes "key_at st disk = Some old" and "\<not> force"
    and "generate ap made st pol force disk c = (res, disk', c')"
  shows "(\<exists>e. res = Inl e) \<and> disk' = disk"
proof (cases st)
  case (KeyFile p)
  then have "key_store_exists st disk" using assms(1) by (simp add: key_at_def key_store_exists_def)
  with assms(2,3) show ?thesis by (auto simp: generate_def split: if_splits)
next
  case Keychain
  with assms(1) have k: "kd_keychain disk = Some old" by (simp add: key_at_def)
  have "kwse_keychain_store blob force disk = (2, disk)" for blob
    using k assms(2) by (simp add: kwse_keychain_store_def Let_def)
  then have "store_key st blob force disk = (Inl (''keychain store failed (code '' @ show_int 2 @ '')''), disk)" for blob
    by (simp add: store_key_def Keychain)
  with assms(3) show ?thesis by (elim generate_cases) auto
qed

text \<open>
  Making a key without \<open>--force\<close> never loses one: where the store already holds a key,
  readable or not, the call fails and leaves the disk and the keychain as they were.
\<close>

lemma generate_keeps_existing:
  assumes "key_at st disk = Some old" and "\<not> force"
    and "generate ap made st pol force disk c = (res, disk', c')"
  shows "(\<exists>e. res = Inl e) \<and> disk' = disk"
  using generate_refuses [OF assms] .

definition bare_disk :: key_disk where
  "bare_disk =
    \<lparr>kd_files = Map.empty, kd_modes = Map.empty, kd_readable = (\<lambda>_. True),
     kd_dir_error = (\<lambda>_. None), kd_write_error = (\<lambda>_. None), kd_mode_error = (\<lambda>_. None),
     kd_keychain = Some [1], kd_kc_readable = False, kd_kc_deletable = True, kd_kc_writable = True\<rparr>"

theorem generate_keeps_existing_witness:
  "\<exists>e. generate willing None Keychain UserPresence False bare_disk empty_cache =
    (Inl e, bare_disk, empty_cache)"
proof -
  have "key_at Keychain bare_disk = Some [1]" by (simp add: key_at_def bare_disk_def)
  moreover obtain r d c where g: "generate willing None Keychain UserPresence False bare_disk empty_cache = (r, d, c)"
    by (cases "generate willing None Keychain UserPresence False bare_disk empty_cache") auto
  ultimately have "(\<exists>e. r = Inl e) \<and> d = bare_disk" by (intro generate_keeps_existing [OF _ _ g]) simp_all
  moreover have "c = empty_cache"
    using g by (auto simp: generate_def kwse_generate_def willing_def key_store_exists_def
        key_store_read_def kwse_keychain_load_def bare_disk_def split: if_splits)
  ultimately show ?thesis using g by auto
qed

lemma store_key_done:
  "store_key st blob force disk = (Inr u, disk') \<Longrightarrow>
    key_at st disk' = Some blob \<and> (\<forall>p. st = KeyFile p \<longrightarrow> kd_modes disk' p = Some 384)"
  by (cases st)
     (auto simp: store_key_def key_at_def kwse_keychain_store_def Let_def split: option.splits if_splits)

lemma try_new_key_done:
  assumes "sign_in_key_parse blob = Some k" and "try_new_key ap SignIn blob c = (Inr u, c')"
  shows "\<exists>n s. ap_authenticate ap (Prompting n) ''try the new sign-in key'' \<and>
    ap_agreed ap (sk_unlock k) (sk_peer k) (Prompting n) = Some s \<and> opens_with ap k s"
  using assms
  by (auto simp: try_new_key_def kwse_check_def new_context_def prompt_text_def Let_def
      split: if_splits option.splits)

lemma data_length:
  "length (sk_signing k) \<le> length (sign_in_key_data k)" "length (sk_unlock k) \<le> length (sign_in_key_data k)"
  "length (sk_peer k) \<le> length (sign_in_key_data k)" "length (sk_pub k) \<le> length (sign_in_key_data k)"
  by (simp_all add: sign_in_key_data_def put_part_def)

text \<open>
  C28: A new sign-in key is kept only when it is one: it is stored as the container the
  daemon will recognise, readable by the user alone, its signing half signs for its own
  secret and for no other tried, neither half answers a caller nobody authenticated, and
  one Touch ID has released a secret that the signing half accepts.
\<close>

theorem generated_sign_in_key:
  assumes "generate ap made st SignIn force disk c = (Inr (), disk', c')"
  shows "\<exists>k s n s'. made = Some (k, s) \<and> key_at st disk' = Some (sign_in_key_data k) \<and>
    sign_in_key_parse (sign_in_key_data k) = Some k \<and>
    (\<forall>p. st = KeyFile p \<longrightarrow> kd_modes disk' p = Some 384) \<and>
    opens_with ap k s \<and> \<not> opens_with ap k (map (\<lambda>b. NOT b) s) \<and>
    ap_signature ap (sk_signing k) Refusing sign_in_probe = None \<and>
    ap_agreed ap (sk_unlock k) (sk_peer k) Refusing = None \<and>
    ap_authenticate ap (Prompting n) ''try the new sign-in key'' \<and>
    ap_agreed ap (sk_unlock k) (sk_peer k) (Prompting n) = Some s' \<and> opens_with ap k s'"
proof -
  obtain m blob where g: "kwse_generate ap made (policy_code SignIn) 4096 = (m, blob)" and m: "0 < m"
    and t: "try_new_key ap SignIn blob c = (Inr (), c')"
    and st: "store_key st blob force disk = (Inr (), disk')"
    using assms by (cases rule: generate_cases) auto
  from g m obtain k where k: "sign_in_generate ap made = Some k"
    and "store_out (sign_in_key_data k) 4096 = (m, blob)"
    by (auto simp: kwse_generate_def split: option.splits)
  with m have blob: "blob = sign_in_key_data k" and len: "length (sign_in_key_data k) \<le> 4096"
    by (auto simp: store_out_def split: if_splits)
  have parse: "sign_in_key_parse (sign_in_key_data k) = Some k"
    by (rule parse_data) (use data_length [of k] len in auto)
  from k obtain s where "made = Some (k, s)" "opens_with ap k s"
    "\<not> opens_with ap k (map (\<lambda>b. NOT b) s)"
    "ap_signature ap (sk_signing k) Refusing sign_in_probe = None"
    "ap_agreed ap (sk_unlock k) (sk_peer k) Refusing = None"
    by (auto simp: sign_in_generate_def split: option.splits if_splits prod.splits)
  moreover obtain n s' where "ap_authenticate ap (Prompting n) ''try the new sign-in key''"
    "ap_agreed ap (sk_unlock k) (sk_peer k) (Prompting n) = Some s'" "opens_with ap k s'"
    using try_new_key_done [OF parse, of ap c "()" c'] t blob by blast
  moreover have "key_at st disk' = Some (sign_in_key_data k)"
    "\<forall>p. st = KeyFile p \<longrightarrow> kd_modes disk' p = Some 384"
    using store_key_done [OF st] blob by simp_all
  ultimately show ?thesis using parse
    by (intro exI [of _ k] exI [of _ s] exI [of _ n] exI [of _ s']) simp
qed

theorem generated_sign_in_key_witness:
  "\<exists>disk' c'. generate willing (Some (example_key, [7])) (KeyFile ''/k'') SignIn False bare_disk empty_cache =
      (Inr (), disk', c') \<and>
    kd_files disk' ''/k'' = Some (sign_in_key_data example_key) \<and> kd_modes disk' ''/k'' = Some 384"
proof -
  let ?g = "generate willing (Some (example_key, [7])) (KeyFile ''/k'') SignIn False bare_disk empty_cache"
  have p: "sign_in_key_parse (sign_in_key_data example_key) = Some example_key"
    by (rule parse_data) (simp add: example_key_def)
  have l: "length (sign_in_key_data example_key) = 42"
    by (simp add: sign_in_key_data_def example_key_def put_part_def sign_in_magic_def)
  have o: "opens_with willing k [7]" "\<not> opens_with willing k (map (\<lambda>b. NOT b) [7])" for k
    by (simp_all add: opens_with_def sign_with_secret_def willing_def)
  have g: "kwse_generate willing (Some (example_key, [7])) 3 4096 = (42, sign_in_key_data example_key)"
    using o [of example_key]
    by (simp add: kwse_generate_def sign_in_generate_def store_out_def l) (simp add: willing_def)
  have t: "\<exists>c'. try_new_key willing SignIn (sign_in_key_data example_key) empty_cache = (Inr (), c')"
    by (simp add: try_new_key_def kwse_check_def p new_context_def o Let_def)
       (simp add: willing_def o [unfolded willing_def])
  have st: "\<exists>d. store_key (KeyFile ''/k'') b False bare_disk = (Inr (), d)" for b
    by (simp add: store_key_def bare_disk_def Let_def split: option.splits)
  have av: "ap_available willing" "\<not> key_store_exists (KeyFile ''/k'') bare_disk"
    by (simp_all add: willing_def key_store_exists_def bare_disk_def)
  from t obtain c1 where t1: "try_new_key willing SignIn (sign_in_key_data example_key) empty_cache = (Inr (), c1)"
    by blast
  from st [of "sign_in_key_data example_key"] obtain d1 where
    "store_key (KeyFile ''/k'') (sign_in_key_data example_key) False bare_disk = (Inr (), d1)" by blast
  with t1 g av have "\<exists>disk' c'. ?g = (Inr (), disk', c')" by (simp add: generate_def)
  then obtain disk' c' where "?g = (Inr (), disk', c')" by blast
  with generated_sign_in_key [OF this] show ?thesis by (auto simp: key_at_def)
qed

end
