(* ===== verification/Approvals.thy ===== *)
theory Approvals
  imports Attrib F64
begin

text \<open>
  \<open>daemon/src/agent.rs\<close>, lines 79 to 325: what one Touch ID approval covers and for how
  long. The map of live approvals is an association list without duplicate keys, its order
  the unspecified iteration order of the \<open>HashMap\<close>. The locale \<open>ledger\<close> is the contract of
  such a map of grants; the theorems about windows are proved over any sequence of
  requests, expiries and sign-outs.
\<close>

section \<open>Scope and reach\<close>

record scope =
  sc_directory :: "string option"
  sc_host :: "string option"
  sc_repo :: "string option"

definition default_scope :: scope where
  "default_scope = \<lparr>sc_directory = None, sc_host = None, sc_repo = None\<rparr>"

definition scope_of :: "os \<Rightarrow> attribution \<Rightarrow> scope" where
  "scope_of m who =
    (let repo =
       (case cx_git (at_context who) of
          None \<Rightarrow> None
        | Some g \<Rightarrow> or_else (gc_push_remote_url g) (gc_remote g));
         directory =
       (if repo \<noteq> None then None
        else
          or_else
            (case pu_repo_path (at_purpose who) of
               None \<Rightarrow> None
             | Some r \<Rightarrow> Some (unwrap_or (main_checkout m r) r))
            (case at_process who of None \<Rightarrow> None | Some p \<Rightarrow> pi_cwd p))
     in \<lparr>sc_directory = directory, sc_host = pu_host (at_purpose who), sc_repo = repo\<rparr>)"

datatype reach = Everywhere | Place scope

text \<open>\<open>serde_json::to_string\<close> on a scope is a parameter; \<open>None\<close> is a failure.\<close>

definition reach_key :: "(scope \<Rightarrow> string option) \<Rightarrow> reach \<Rightarrow> string" where
  "reach_key ser r =
    (case r of Everywhere \<Rightarrow> ''everywhere'' | Place scope \<Rightarrow> unwrap_or (ser scope) [])"

definition grant :: "f64 \<Rightarrow> f64 \<Rightarrow> scope \<Rightarrow> reach \<times> f64" where
  "grant sign_in_secs reuse_secs place =
    (if 0 < sign_in_secs then (Everywhere, sign_in_secs) else (Place place, reuse_secs))"

section \<open>The clock and the windows\<close>

text \<open>\<open>clock_gettime\<close> answers with seconds and nanoseconds, or fails.\<close>

definition clock :: "(int \<times> int) option \<Rightarrow> f64" where
  "clock ts =
    (case ts of
       None \<Rightarrow> NaN
     | Some (sec, nsec) \<Rightarrow>
         mk_f64 (of_int sec) + mk_f64 (of_int nsec) * mk_f64 (1 / 1000000000))"

type_synonym approvals = "(reach \<times> f64) list"

definition reuse_covers :: "approvals \<Rightarrow> reach \<Rightarrow> f64 \<Rightarrow> f64 \<Rightarrow> bool" where
  "reuse_covers approved reach window now \<longleftrightarrow>
    0 < window \<and> (case map_of approved reach of None \<Rightarrow> False | Some t0 \<Rightarrow> now - t0 < window)"

definition expire :: "approvals \<Rightarrow> f64 \<Rightarrow> f64 \<Rightarrow> reach list \<times> approvals" where
  "expire approved window now =
    (let gone = map fst (filter (\<lambda>(reach, t0). window \<le> now - t0) approved)
     in (gone, filter (\<lambda>(reach, t0). reach \<notin> set gone) approved))"

definition span :: "f64 \<Rightarrow> string" where
  "span secs =
    (let s = f64_as_u64 (f64_max (f64_round secs) 1);
         (n, unit) =
           (if s mod 86400 = 0 \<and> 86400 < s then (s div 86400, ''day'')
            else if s mod 3600 = 0 then (s div 3600, ''hour'')
            else if s mod 60 = 0 then (s div 60, ''minute'')
            else (s, ''second''))
     in show_nat n @ '' '' @ unit @ (if n = 1 then [] else ''s''))"

datatype ends = After f64 | AtScreenLock f64

fun ends_sheet :: "ends \<Rightarrow> string" where
  "ends_sheet (After secs) = ''for '' @ span secs"
| "ends_sheet (AtScreenLock secs) = ''until screen lock''"

fun ends_card :: "ends \<Rightarrow> string" where
  "ends_card (After secs) = ends_sheet (After secs)"
| "ends_card (AtScreenLock secs) = ''for '' @ span secs @ '' or until the screen locks''"

section \<open>Deciding what a request needs\<close>

record plan =
  pl_reach :: reach
  pl_window :: f64
  pl_live :: bool
  pl_expired :: "reach list"
  pl_signing_in :: "ends option"
  pl_unlock_reuse :: f64

definition decide ::
  "bool \<Rightarrow> f64 \<Rightarrow> f64 \<Rightarrow> bool \<Rightarrow> scope \<Rightarrow> approvals \<Rightarrow> f64 \<Rightarrow> plan \<times> approvals" where
  "decide approve sign_in_secs reuse_secs ends_at_lock place approved now =
    (let (reach, window) = grant (if approve then sign_in_secs else 0) reuse_secs place;
         (expired, approved') = expire approved window now;
         live = reuse_covers approved' reach window now;
         everywhere = (reach = Everywhere);
         ends = (if ends_at_lock then AtScreenLock window else After window)
     in (\<lparr>pl_reach = reach, pl_window = window, pl_live = live, pl_expired = expired,
          pl_signing_in = (if everywhere \<and> \<not> live then Some ends else None),
          pl_unlock_reuse = (if everywhere then 0 else window)\<rparr>, approved'))"

definition opened :: "approvals \<Rightarrow> plan \<Rightarrow> f64 \<Rightarrow> approvals" where
  "opened approved plan now =
    (if \<not> pl_live plan \<and> 0 < pl_window plan then AList.update (pl_reach plan) now approved
     else approved)"

section \<open>Sign-outs and admission\<close>

text \<open>The part of \<open>Ctx\<close> behind the \<open>approved\<close> lock: the approvals and the count of sign-outs.\<close>

record gate_state =
  gs_approved :: approvals
  gs_sign_outs :: u64

definition end_approvals :: "gate_state \<Rightarrow> bool \<times> gate_state" where
  "end_approvals s =
    (gs_approved s \<noteq> [], s\<lparr>gs_sign_outs := gs_sign_outs s + 1, gs_approved := []\<rparr>)"

definition admit :: "plan \<Rightarrow> u64 \<Rightarrow> f64 \<Rightarrow> gate_state \<Rightarrow> bool \<times> gate_state" where
  "admit plan sign_outs now s =
    (if gs_sign_outs s \<noteq> sign_outs then (False, s)
     else (True, s\<lparr>gs_approved := opened (gs_approved s) plan now\<rparr>))"

text \<open>\<open>unseen\<close>: whether the gap between two looks could hide a lock.\<close>

definition unseen :: "f64 \<Rightarrow> f64 \<Rightarrow> bool" where
  "unseen last_look now \<longleftrightarrow> \<not> now - last_look < Fin 3"

section \<open>A ledger of grants\<close>

text \<open>
  What the rules need of the map of approvals: recording a grant replaces the one for that
  key and no other, and dropping what satisfies a predicate drops exactly that.
\<close>

locale ledger =
  fixes ok :: "'s \<Rightarrow> bool"
    and granted :: "'s \<Rightarrow> 'k \<Rightarrow> 't option"
    and record_grant :: "'k \<Rightarrow> 't \<Rightarrow> 's \<Rightarrow> 's"
    and drop_grants :: "('t \<Rightarrow> bool) \<Rightarrow> 's \<Rightarrow> 's"
    and no_grants :: 's
  assumes ok_empty: "ok no_grants"
    and ok_record: "ok s \<Longrightarrow> ok (record_grant k t s)"
    and ok_drop: "ok s \<Longrightarrow> ok (drop_grants P s)"
    and granted_empty: "granted no_grants k = None"
    and granted_record: "ok s \<Longrightarrow> granted (record_grant k t s) j = (if j = k then Some t else granted s j)"
    and granted_drop: "ok s \<Longrightarrow> granted (drop_grants P s) j =
      (case granted s j of None \<Rightarrow> None | Some t \<Rightarrow> if P t then None else Some t)"
begin

lemma granted_drop_Some:
  "ok s \<Longrightarrow> granted (drop_grants P s) j = Some t \<longleftrightarrow> granted s j = Some t \<and> \<not> P t"
  by (auto simp: granted_drop split: option.splits)

lemma record_other: "ok s \<Longrightarrow> j \<noteq> k \<Longrightarrow> granted (record_grant k t s) j = granted s j"
  by (simp add: granted_record)

end

definition approvals_ok :: "approvals \<Rightarrow> bool" where
  "approvals_ok m \<longleftrightarrow> distinct (map fst m)"

definition drop_approvals :: "(f64 \<Rightarrow> bool) \<Rightarrow> approvals \<Rightarrow> approvals" where
  "drop_approvals P m = filter (\<lambda>(r, t). \<not> P t) m"

interpretation approved: ledger approvals_ok map_of AList.update drop_approvals "[]"
proof (unfold_locales, goal_cases)
  case (1)
  then show ?case by (simp add: approvals_ok_def)
next
  case (2 s k t)
  then show ?case by (simp add: approvals_ok_def distinct_fst_update)
next
  case (3 s P)
  then show ?case by (simp add: approvals_ok_def drop_approvals_def distinct_fst_filter)
next
  case (4 k)
  then show ?case by simp
next
  case (5 s k t j)
  then show ?case by (simp add: update_conv')
next
  case (6 s P j)
  then show ?case
    using map_of_filter_value [of s "\<lambda>t. \<not> P t" j]
    by (simp add: approvals_ok_def drop_approvals_def split: option.splits)
qed

lemma expire_eq:
  assumes "approvals_ok m"
  shows "snd (expire m window now) = drop_approvals (\<lambda>t0. window \<le> now - t0) m"
proof -
  let ?gone = "set (map fst (filter (\<lambda>(reach, t0). window \<le> now - t0) m))"
  have "r \<in> ?gone \<longleftrightarrow> window \<le> now - t0" if "(r, t0) \<in> set m" for r t0
  proof -
    have "t1 = t0" if "(r, t1) \<in> set m" for t1
      using assms \<open>(r, t0) \<in> set m\<close> that by (simp add: approvals_ok_def eq_key_imp_eq_value)
    moreover have "r \<in> ?gone \<longleftrightarrow> (\<exists>t1. (r, t1) \<in> set m \<and> window \<le> now - t1)"
      by (auto simp: image_iff)
    ultimately show ?thesis using that by metis
  qed
  then have "filter (\<lambda>(reach, t0). reach \<notin> ?gone) m = filter (\<lambda>(r, t). \<not> window \<le> now - t) m"
    by (intro filter_cong) auto
  then show ?thesis by (simp add: expire_def drop_approvals_def Let_def)
qed

lemma expire_gone:
  assumes "approvals_ok m"
  shows "r \<in> set (fst (expire m window now)) \<longleftrightarrow>
    (\<exists>t0. map_of m r = Some t0 \<and> window \<le> now - t0)"
  using assms by (auto simp: expire_def Let_def approvals_ok_def image_iff)

lemma expire_ok [approval_simps]: "approvals_ok m \<Longrightarrow> approvals_ok (snd (expire m window now))"
  by (simp add: expire_eq approved.ok_drop)

lemma opened_ok [approval_simps]: "approvals_ok m \<Longrightarrow> approvals_ok (opened m plan now)"
  by (simp add: opened_def approved.ok_record)

text \<open>What \<open>decide\<close> answers, each part for itself.\<close>

lemma decide_parts:
  assumes "decide approve si ru lk place m now = (p, m')"
  shows "(pl_reach p, pl_window p) = grant (if approve then si else 0) ru place"
    and "pl_expired p = fst (expire m (pl_window p) now)"
    and "m' = snd (expire m (pl_window p) now)"
    and "pl_live p = reuse_covers m' (pl_reach p) (pl_window p) now"
    and "pl_signing_in p =
      (if pl_reach p = Everywhere \<and> \<not> pl_live p
       then Some (if lk then AtScreenLock (pl_window p) else After (pl_window p)) else None)"
    and "pl_unlock_reuse p = (if pl_reach p = Everywhere then 0 else pl_window p)"
  using assms by (auto simp: decide_def Let_def split: prod.splits)

lemma decide_ok [approval_simps]:
  "approvals_ok m \<Longrightarrow> decide approve si ru lk place m now = (p, m') \<Longrightarrow> approvals_ok m'"
  using decide_parts(3) expire_ok by metis

lemma reuse_covers_iff:
  "reuse_covers m r w now \<longleftrightarrow> 0 < w \<and> (\<exists>t0. map_of m r = Some t0 \<and> now - t0 < w)"
  by (auto simp: reuse_covers_def split: option.splits)

text \<open>Dropping what has run out never drops what covers: the two comparisons exclude each other.\<close>

lemma covers_after_expire:
  assumes "approvals_ok m"
  shows "reuse_covers (snd (expire m w now)) r w now = reuse_covers m r w now"
  using assms f64_not_less_and_ge
  by (auto simp: expire_eq reuse_covers_iff approved.granted_drop_Some)

lemma decide_live:
  assumes "approvals_ok m" and "decide approve si ru lk place m now = (p, m')"
  shows "pl_live p \<longleftrightarrow> reuse_covers m (pl_reach p) (pl_window p) now"
  using decide_parts(3,4) [OF assms(2)] covers_after_expire [OF assms(1)] by simp

text \<open>
  With a clock that cannot be read nothing is live, nothing expires, and every request
  asks: the error value compares false with everything, in both directions.
\<close>

lemma unreadable_clock_asks:
  "\<not> pl_live (fst (decide approve si ru lk place m (clock None))) \<and>
   pl_expired (fst (decide approve si ru lk place m (clock None))) = [] \<and>
   snd (decide approve si ru lk place m (clock None)) = m \<and>
   unseen last_look (clock None)"
  by (simp add: decide_def clock_def expire_def reuse_covers_def unseen_def Let_def
      split: prod.splits option.splits)

text \<open>
  With approval on and a sign-in configured, every request reaches everywhere, from
  whatever place it comes, an unlock of the Mac never answers its prompt, and it says that
  it opens a sign-in exactly when no live sign-in covers it.
\<close>

lemma sign_in_reaches_everywhere:
  assumes "approvals_ok m" and "0 < si"
    and "decide True si ru lk place m now = (p, m')"
  shows "pl_reach p = Everywhere \<and> pl_window p = si \<and> pl_unlock_reuse p = 0 \<and>
    (pl_live p \<longleftrightarrow> reuse_covers m Everywhere si now) \<and>
    (pl_signing_in p = None \<longleftrightarrow> pl_live p)"
proof -
  have g: "pl_reach p = Everywhere" "pl_window p = si"
    using decide_parts(1) [OF assms(3)] assms(2) by (simp_all add: grant_def)
  with decide_parts(5,6) [OF assms(3)] decide_live [OF assms(1,3)] show ?thesis by auto
qed

definition repo_scope :: "string \<Rightarrow> scope" where
  "repo_scope r = \<lparr>sc_directory = None, sc_host = Some ''h'', sc_repo = Some r\<rparr>"

theorem sign_in_reaches_everywhere_witness:
  "\<exists>p m'. decide True (Fin 21600) 0 True (repo_scope ''b'') [(Everywhere, Fin 100)] (Fin 200) = (p, m') \<and>
    pl_live p \<and> pl_signing_in p = None"
proof -
  let ?m = "[(Everywhere, Fin 100)]"
  obtain p m' where d: "decide True (Fin 21600) 0 True (repo_scope ''b'') ?m (Fin 200) = (p, m')"
    by (cases "decide True (Fin 21600) 0 True (repo_scope ''b'') ?m (Fin 200)")
  have "approvals_ok ?m" "0 < Fin 21600" by (simp_all add: approvals_ok_def zero_f64_def)
  from sign_in_reaches_everywhere [OF this d] d show ?thesis
    by (auto simp: reuse_covers_def zero_f64_def)
qed

text \<open>
  C9: Without a sign-in, or with approval off, no place rides another's approval: a request
  is live exactly when an approval of the very same directory, host and repository is, a
  sign-in's own approval does not count, and no request says it opens a sign-in.
\<close>

theorem place_rides_only_its_own:
  assumes "approvals_ok m" and "\<not> 0 < (if approve then si else 0)"
    and "decide approve si ru lk place m now = (p, m')"
  shows "pl_reach p = Place place \<and> pl_signing_in p = None \<and>
    (pl_live p \<longleftrightarrow> 0 < ru \<and> (\<exists>t0. map_of m (Place place) = Some t0 \<and> now - t0 < ru)) \<and>
    (\<forall>j. j \<noteq> Place place \<longrightarrow> map_of (opened m' p later) j = map_of m' j)"
proof -
  have g: "pl_reach p = Place place" "pl_window p = ru"
    using decide_parts(1) [OF assms(3)] assms(2) by (simp_all add: grant_def)
  have ok: "approvals_ok m'" using decide_ok [OF assms(1,3)] .
  from g decide_parts(5) [OF assms(3)] decide_live [OF assms(1,3)] show ?thesis
    using approved.record_other [OF ok] by (auto simp: reuse_covers_iff opened_def)
qed

theorem place_rides_only_its_own_witness:
  "\<exists>p m'. decide True 0 (Fin 300) False (repo_scope ''b'')
      [(Everywhere, Fin 100), (Place (repo_scope ''a''), Fin 100)] (Fin 200) = (p, m') \<and>
    \<not> pl_live p \<and> pl_reach p = Place (repo_scope ''b'')"
proof -
  let ?m = "[(Everywhere, Fin 100), (Place (repo_scope ''a''), Fin 100)]"
  obtain p m' where d: "decide True 0 (Fin 300) False (repo_scope ''b'') ?m (Fin 200) = (p, m')"
    by (cases "decide True 0 (Fin 300) False (repo_scope ''b'') ?m (Fin 200)")
  have "approvals_ok ?m" "\<not> 0 < (if True then 0 else (0 :: f64))"
    by (simp_all add: approvals_ok_def zero_f64_def)
  from place_rides_only_its_own [OF this d] d show ?thesis
    by (auto simp: repo_scope_def)
qed

section \<open>Any sequence of requests, looks and sign-outs\<close>

record gate_cfg =
  gf_approve :: bool
  gf_sign_in_secs :: f64
  gf_reuse_secs :: f64
  gf_ends_at_lock :: bool

text \<open>
  A request from a place, decided at one reading of the clock and admitted, when its
  signature was made, at a later one; an expiry by the watch; a sign-out.
\<close>

datatype gate_event = Request scope f64 f64 bool | Watched f64 | SignedOut

definition plan_for :: "gate_cfg \<Rightarrow> scope \<Rightarrow> approvals \<Rightarrow> f64 \<Rightarrow> plan \<times> approvals" where
  "plan_for cfg place m now =
    decide (gf_approve cfg) (gf_sign_in_secs cfg) (gf_reuse_secs cfg) (gf_ends_at_lock cfg) place m now"

definition watch_window :: "gate_cfg \<Rightarrow> f64" where
  "watch_window cfg =
    snd (grant (if gf_approve cfg then gf_sign_in_secs cfg else 0) (gf_reuse_secs cfg) default_scope)"

fun gate_step :: "gate_cfg \<Rightarrow> gate_event \<Rightarrow> approvals \<Rightarrow> approvals" where
  "gate_step cfg (Request place now later admitted) m =
    (case plan_for cfg place m now of (p, m') \<Rightarrow> if admitted then opened m' p later else m')"
| "gate_step cfg (Watched now) m = snd (expire m (watch_window cfg) now)"
| "gate_step cfg SignedOut m = []"

definition gate_run :: "gate_cfg \<Rightarrow> gate_event list \<Rightarrow> approvals" where
  "gate_run cfg evs = fold (gate_step cfg) evs []"

lemma gate_run_snoc: "gate_run cfg (evs @ [e]) = gate_step cfg e (gate_run cfg evs)"
  by (simp add: gate_run_def)

lemma gate_step_ok: "approvals_ok m \<Longrightarrow> approvals_ok (gate_step cfg e m)"
  by (cases e) (auto simp: plan_for_def approval_simps approved.ok_empty split: prod.splits intro: decide_ok)

lemma gate_run_ok: "approvals_ok (gate_run cfg evs)"
  by (induction evs rule: rev_induct)
     (simp_all add: gate_run_snoc gate_step_ok, simp add: gate_run_def approvals_ok_def)

lemma decide_keeps:
  assumes "approvals_ok m" and "plan_for cfg place m now = (p, m')" and "map_of m' r = Some t"
  shows "map_of m r = Some t"
  using assms decide_parts(3) [OF assms(2) [unfolded plan_for_def]]
  by (simp add: expire_eq approved.granted_drop_Some)

text \<open>Every approval in the map was opened by one request, and nobody signed out since.\<close>

lemma approval_source:
  assumes "map_of (gate_run cfg evs) r = Some t"
  shows "\<exists>pre place now p m' post. evs = pre @ Request place now t True # post \<and>
    plan_for cfg place (gate_run cfg pre) now = (p, m') \<and> pl_reach p = r \<and> \<not> pl_live p \<and>
    0 < pl_window p \<and> SignedOut \<notin> set post"
  using assms
proof (induction evs arbitrary: r t rule: rev_induct)
  case Nil
  then show ?case by (simp add: gate_run_def)
next
  case (snoc e evs)
  let ?m = "gate_run cfg evs"
  have later: ?case if "map_of ?m r = Some t" and "e \<noteq> SignedOut"
  proof -
    from snoc.IH [OF that(1)] obtain pre place now p m' post where
      "evs = pre @ Request place now t True # post"
      "plan_for cfg place (gate_run cfg pre) now = (p, m')" "pl_reach p = r" "\<not> pl_live p"
      "0 < pl_window p" "SignedOut \<notin> set post"
      by blast
    with that(2) show ?thesis
      by (intro exI [of _ pre] exI [of _ place] exI [of _ now] exI [of _ p] exI [of _ m']
          exI [of _ "post @ [e]"]) simp
  qed
  show ?case
  proof (cases e)
    case (Request place now t1 admitted)
    obtain p m' where d: "plan_for cfg place ?m now = (p, m')" by (cases "plan_for cfg place ?m now")
    have ok': "approvals_ok m'"
      using d gate_run_ok decide_ok unfolding plan_for_def by metis
    from snoc.prems Request d have t: "map_of (if admitted then opened m' p t1 else m') r = Some t"
      by (simp add: gate_run_snoc)
    show ?thesis
    proof (cases "admitted \<and> \<not> pl_live p \<and> 0 < pl_window p \<and> pl_reach p = r")
      case True
      with t ok' have "t = t1" by (simp add: opened_def approved.granted_record)
      with True Request d show ?thesis
        by (intro exI [of _ evs] exI [of _ place] exI [of _ now] exI [of _ p] exI [of _ m']
            exI [of _ "[]"]) simp
    next
      case False
      with t ok' have "map_of m' r = Some t"
        by (auto simp: opened_def approved.granted_record split: if_splits)
      from later [OF decide_keeps [OF gate_run_ok d this]] Request show ?thesis by simp
    qed
  next
    case (Watched now)
    with snoc.prems have "map_of ?m r = Some t"
      by (simp add: gate_run_snoc expire_eq gate_run_ok approved.granted_drop_Some)
    from later [OF this] Watched show ?thesis by simp
  next
    case SignedOut
    with snoc.prems show ?thesis by (simp add: gate_run_snoc)
  qed
qed

text \<open>
  C8: Over any sequence of requests, looks of the watch and sign-outs, a request that goes
  through without asking rides one earlier request of the same reach that did ask and
  whose signature was made, no sign-out lies between, and the time since that one's
  opening, exactly and not as rounded, is below the window: riding extends nothing, and
  rounding in the clock's arithmetic never grants a moment more.
\<close>

theorem live_rides_one_asked_request:
  assumes "plan_for cfg place (gate_run cfg evs) now = (p, m')" and "pl_live p"
  shows "\<exists>pre place0 asked t0 q m0 post.
    evs = pre @ Request place0 asked t0 True # post \<and>
    plan_for cfg place0 (gate_run cfg pre) asked = (q, m0) \<and>
    pl_reach q = pl_reach p \<and> \<not> pl_live q \<and> SignedOut \<notin> set post \<and>
    now - t0 < pl_window p \<and>
    (\<forall>n u w. now = Fin n \<and> t0 = Fin u \<and> pl_window p = Fin w \<and> f64_ok (Fin w) \<longrightarrow> n - u < w)"
proof -
  have "reuse_covers (gate_run cfg evs) (pl_reach p) (pl_window p) now"
    using decide_live [OF gate_run_ok] assms unfolding plan_for_def by blast
  then obtain t0 where t0: "map_of (gate_run cfg evs) (pl_reach p) = Some t0"
    and w: "now - t0 < pl_window p"
    by (auto simp: reuse_covers_iff)
  have "n - u < w" if "now = Fin n" "t0 = Fin u" "pl_window p = Fin w" "f64_ok (Fin w)" for n u w
    using w that f64.below_bound [of w "n - u"] by simp
  with approval_source [OF t0] w show ?thesis by blast
qed

definition six_hours :: gate_cfg where
  "six_hours = \<lparr>gf_approve = True, gf_sign_in_secs = Fin 21600, gf_reuse_secs = 0, gf_ends_at_lock = True\<rparr>"

theorem live_rides_one_asked_request_witness:
  "pl_live (fst (plan_for six_hours (repo_scope ''b'')
      (gate_run six_hours [Request (repo_scope ''a'') (Fin 90) (Fin 100) True]) (Fin 200))) \<and>
   (\<exists>place asked. [Request (repo_scope ''a'') (Fin 90) (Fin 100) True] = [Request place asked (Fin 100) True])"
proof -
  let ?evs = "[Request (repo_scope ''a'') (Fin 90) (Fin 100) True]"
  obtain p m' where d: "plan_for six_hours (repo_scope ''b'') (gate_run six_hours ?evs) (Fin 200) = (p, m')"
    by (cases "plan_for six_hours (repo_scope ''b'') (gate_run six_hours ?evs) (Fin 200)")
  have run: "gate_run six_hours ?evs = [(Everywhere, Fin 100)]"
    by (simp add: gate_run_def plan_for_def decide_def six_hours_def grant_def expire_def
        reuse_covers_def opened_def zero_f64_def Let_def)
  have live: "pl_live p"
    using d unfolding run
    by (auto simp: plan_for_def decide_def six_hours_def grant_def expire_def
        reuse_covers_def zero_f64_def Let_def)
  from live_rides_one_asked_request [OF d live]
  have "\<exists>place asked t. ?evs = [Request place asked t True]" by (auto simp: Cons_eq_append_conv)
  with d live show ?thesis by auto
qed

section \<open>How long, in words\<close>

definition unit_secs :: "string \<Rightarrow> nat" where
  "unit_secs u =
    (if u = ''day'' then 86400 else if u = ''hour'' then 3600 else if u = ''minute'' then 60 else 1)"

lemma f64_round_of_nat: "f64_round (Fin (of_nat n)) = Fin (of_nat n)"
proof -
  have "\<lfloor>of_nat n + 1 / 2 :: rat\<rfloor> = int n" by (simp add: floor_eq_iff)
  then show ?thesis by (simp add: f64_round_def)
qed

lemma whole_seconds:
  assumes "1 \<le> n" and "n < 2 ^ 64"
  shows "f64_as_u64 (f64_max (f64_round (Fin (of_nat n))) 1) = n"
proof -
  have "\<not> (of_nat n :: rat) < 1" using assms(1) by (cases n) auto
  then have m: "f64_max (f64_round (Fin (of_nat n))) 1 = Fin (of_nat n)"
    by (simp add: f64_round_of_nat f64_max_def one_f64_def)
  have "\<lfloor>of_nat n :: rat\<rfloor> = int n" by simp
  moreover have "max 0 (min (2 ^ 64 - 1) (int n)) = int n" using assms(2) by simp
  ultimately show ?thesis by (simp add: m f64_as_u64_def)
qed

text \<open>
  The sheet's span says exactly how long: for every whole number of seconds it is a
  number of one unit whose product is those seconds, days only from two on, hours, minutes
  or seconds otherwise, and never a smaller unit than divides it evenly.
\<close>

lemma span_is_exact:
  assumes "1 \<le> s" and "s < 2 ^ 64"
  shows "\<exists>n u. span (Fin (of_nat s)) = show_nat n @ '' '' @ u @ (if n = 1 then [] else ''s'') \<and>
    u \<in> {''day'', ''hour'', ''minute'', ''second''} \<and> n * unit_secs u = s \<and>
    (u = ''day'' \<longrightarrow> 2 \<le> n) \<and>
    (u = ''hour'' \<longrightarrow> s mod 86400 = 0 \<longrightarrow> s = 86400) \<and>
    (u = ''minute'' \<longrightarrow> s mod 3600 \<noteq> 0) \<and> (u = ''second'' \<longrightarrow> s mod 60 \<noteq> 0)"
proof -
  define n where "n = (if s mod 86400 = 0 \<and> 86400 < s then s div 86400
      else if s mod 3600 = 0 then s div 3600 else if s mod 60 = 0 then s div 60 else s)"
  define u where "u = (if s mod 86400 = 0 \<and> 86400 < s then ''day'' else if s mod 3600 = 0 then ''hour''
      else if s mod 60 = 0 then ''minute'' else ''second'')"
  have "(if s mod 86400 = 0 \<and> 86400 < s then (s div 86400, ''day'')
      else if s mod 3600 = 0 then (s div 3600, ''hour'')
      else if s mod 60 = 0 then (s div 60, ''minute'') else (s, ''second'')) = (n, u)"
    by (simp add: n_def u_def)
  then have "span (Fin (of_nat s)) = show_nat n @ '' '' @ u @ (if n = 1 then [] else ''s'')"
    by (simp only: span_def whole_seconds [OF assms] Let_def prod.case)
  moreover have "n * unit_secs u = s"
    by (auto simp: n_def u_def unit_secs_def)
  moreover have "u = ''day'' \<longrightarrow> 2 \<le> n"
    by (auto simp: n_def u_def)
  moreover have "u = ''hour'' \<longrightarrow> s mod 86400 = 0 \<longrightarrow> s = 86400"
    using assms(1) by (auto simp: u_def split: if_splits)
  ultimately show ?thesis by (intro exI [of _ n] exI [of _ u]) (auto simp: u_def)
qed

theorem span_is_exact_witness:
  "\<exists>n u. span (Fin (of_nat 21600)) = show_nat n @ '' '' @ u @ (if n = 1 then [] else ''s'') \<and>
    n * unit_secs u = 21600"
proof -
  have "1 \<le> (21600 :: nat)" "(21600 :: nat) < 2 ^ 64" by simp_all
  from span_is_exact [OF this] show ?thesis by blast
qed

end
