(* ===== verification/Prompt.thy ===== *)
theory Prompt
  imports Approvals
begin

text \<open>
  \<open>daemon/src/agent.rs\<close>, lines 446 to 547: the line on the system's Touch ID sheet. The
  theorems are what the comments promise of it: short, free of the characters that turn a
  dialog into noise, and, where the request opens a sign-in, leading with that.
\<close>

definition PROMPT_MAX :: nat where "PROMPT_MAX = 56"

definition noise_chars :: "char set" where
  "noise_chars = {CHR 0x60, CHR 0x22, CHR 0x27, CHR 0x0A, CHR 0x0D, CHR 0x09}"

definition denoise :: "string \<Rightarrow> string" where
  "denoise g = (case g of [] \<Rightarrow> [] | c # _ \<Rightarrow> if c \<in> noise_chars then '' '' else g)"

definition sanitise :: "string \<Rightarrow> string" where
  "sanitise s = join '' '' (split_whitespace (concat (map denoise (utf8_chars s))))"

definition short_repo :: "string \<Rightarrow> string" where
  "short_repo r =
    (let r = trim_end_matches r ''.git''
     in if char_count r \<le> 28 then r else last (split_on (CHR ''/'') r))"

definition prompt_text_for :: "purpose \<Rightarrow> string" where
  "prompt_text_for p =
    (let host = unwrap_or (pu_host p) ''unknown host''
     in case pu_kind p of
          CommitSigning \<Rightarrow>
            (case pu_repo p of
               Some repo \<Rightarrow> ''Sign a commit in '' @ repo | None \<Rightarrow> ''Sign a git commit'')
        | GitPush \<Rightarrow>
            ''git push to '' @ (case pu_remote_repo p of Some r \<Rightarrow> short_repo r | None \<Rightarrow> host)
        | GitFetch \<Rightarrow>
            ''git fetch from '' @ (case pu_remote_repo p of Some r \<Rightarrow> short_repo r | None \<Rightarrow> host)
        | GitOverSsh \<Rightarrow> ''git on '' @ host
        | SshLogin \<Rightarrow> ''SSH to '' @ host
        | RemoteCommand \<Rightarrow> ''Run a command on '' @ host
        | FileTransfer \<Rightarrow> ''Copy files with '' @ host
        | Signing \<Rightarrow>
            (case pu_namespace p of
               Some ns \<Rightarrow> ''Sign data ('' @ ns @ '')'' | None \<Rightarrow> ''Sign data'')
        | Unknown \<Rightarrow> ''Authorise a signature'')"

definition prompt_action :: "attribution \<Rightarrow> string" where
  "prompt_action who = shorten (sanitise (prompt_text_for (at_purpose who))) PROMPT_MAX"

definition middle_dot :: string where
  "middle_dot = [CHR 0x20, CHR 0xC2, CHR 0xB7, CHR 0x20]"

definition sheet_reason :: "attribution \<Rightarrow> string \<Rightarrow> string option \<Rightarrow> string" where
  "sheet_reason who configured sign_in =
    (let configured = (if configured = [] then None else Some (sanitise configured))
     in case sign_in of
          Some ends \<Rightarrow>
            let rest = unwrap_or configured (prompt_action who);
                said =
                  (if rest = [] then ''Sign in '' @ ends
                   else ''Sign in '' @ ends @ middle_dot @ rest)
            in shorten said PROMPT_MAX
        | None \<Rightarrow>
            (case configured of
               Some c \<Rightarrow> shorten c PROMPT_MAX
             | None \<Rightarrow>
                 let action = prompt_action who
                 in (case map_option (\<lambda>a. sanitise (ai_name a)) (at_app who) of
                       Some app \<Rightarrow>
                         (if char_count action + char_count app + 3 \<le> PROMPT_MAX
                          then action @ middle_dot @ app else action)
                     | None \<Rightarrow> action)))"

section \<open>What is left of a string\<close>

lemma set_words_acc:
  "v \<in> set (words_acc w gs) \<Longrightarrow> c \<in> set v \<Longrightarrow> c \<in> set w \<or> (\<exists>g \<in> set gs. c \<in> set g)"
proof (induction w gs rule: words_acc.induct)
  case (1 w)
  then show ?case by (simp split: if_splits)
next
  case (2 w g gs)
  then show ?case by (auto split: if_splits)
qed

lemma set_join: "c \<in> set (join sep xs) \<Longrightarrow> c \<in> set sep \<or> (\<exists>x \<in> set xs. c \<in> set x)"
  by (induction sep xs rule: join.induct) auto

lemma cont_not_noise: "is_cont x \<Longrightarrow> x \<notin> noise_chars"
  by (auto simp: noise_chars_def is_cont_def)

lemma denoise_clear:
  assumes "utf8_group g" and "c \<in> set (denoise g)"
  shows "c \<notin> noise_chars"
  using assms cont_not_noise
  by (cases g) (auto simp: utf8_group_def denoise_def noise_chars_def split: if_splits)

lemma utf8_chars_member: "g \<in> set (utf8_chars s) \<Longrightarrow> set g \<subseteq> set s"
  using concat_utf8_chars [of s] by (metis UN_upper set_concat)

lemma sanitise_clear: "c \<in> set (sanitise s) \<Longrightarrow> c \<notin> noise_chars"
proof
  assume c: "c \<in> set (sanitise s)" and n: "c \<in> noise_chars"
  then have "c \<noteq> CHR '' ''" by (auto simp: noise_chars_def)
  with c obtain g where "g \<in> set (utf8_chars (concat (map denoise (utf8_chars s))))" "c \<in> set g"
    by (auto simp: sanitise_def split_whitespace_def dest!: set_join set_words_acc)
  then have "c \<in> set (concat (map denoise (utf8_chars s)))" using utf8_chars_member by blast
  then obtain h where "h \<in> set (utf8_chars s)" "c \<in> set (denoise h)" by auto
  with denoise_clear utf8_chars_group n show False by blast
qed

lemma shorten_set: "c \<in> set (shorten s n) \<Longrightarrow> c \<in> set s \<or> c \<in> set ellipsis"
proof -
  have "set (concat (take n (utf8_chars s))) \<subseteq> set s"
    by (metis append_take_drop_id concat_append concat_utf8_chars set_append sup_ge1)
  then show "c \<in> set (shorten s n) \<Longrightarrow> ?thesis"
    by (auto simp: shorten_def truncate_str_def split: if_splits)
qed

definition quiet_text :: "string \<Rightarrow> bool" where
  "quiet_text s \<longleftrightarrow> set s \<inter> noise_chars = {}"

lemma quiet_sanitise [intro, simp]: "quiet_text (sanitise s)"
  using sanitise_clear by (auto simp: quiet_text_def)

lemma quiet_append [simp]: "quiet_text (s @ t) \<longleftrightarrow> quiet_text s \<and> quiet_text t"
  by (auto simp: quiet_text_def)

lemma quiet_ellipsis: "c \<in> set ellipsis \<Longrightarrow> c \<notin> noise_chars"
  by (auto simp: ellipsis_def noise_chars_def)

lemma quiet_shorten: "quiet_text s \<Longrightarrow> quiet_text (shorten s n)"
  using shorten_set quiet_ellipsis by (fastforce simp: quiet_text_def)

lemma quiet_prompt_action: "quiet_text (prompt_action who)"
  by (simp add: prompt_action_def quiet_shorten)

section \<open>Characters\<close>

lemma starts_clean_append: "starts_clean s \<Longrightarrow> starts_clean t \<Longrightarrow> starts_clean (s @ t)"
  by (cases s) (auto simp: starts_clean_def)

lemma starts_clean_join:
  "starts_clean sep \<Longrightarrow> \<forall>x \<in> set xs. starts_clean x \<Longrightarrow> starts_clean (join sep xs)"
  by (induction sep xs rule: join.induct)
     (auto simp: starts_clean_append starts_clean_def [of "[]"])

lemma starts_clean_concat: "\<forall>x \<in> set xs. starts_clean x \<Longrightarrow> starts_clean (concat xs)"
  by (induction xs) (auto simp: starts_clean_append starts_clean_def [of "[]"])

lemma starts_clean_group: "starts_clean s \<Longrightarrow> g \<in> set (utf8_chars s) \<Longrightarrow> starts_clean g"
  using utf8_chars_clean [of s g] by (cases g) (auto simp: starts_clean_def)

lemma starts_clean_denoise: "starts_clean g \<Longrightarrow> starts_clean (denoise g)"
  by (cases g) (auto simp: denoise_def starts_clean_def is_cont_def)

lemma words_acc_clean:
  "starts_clean w \<Longrightarrow> \<forall>g \<in> set gs. starts_clean g \<Longrightarrow> v \<in> set (words_acc w gs) \<Longrightarrow> starts_clean v"
proof (induction w gs rule: words_acc.induct)
  case (1 w)
  then show ?case by (simp split: if_splits)
next
  case (2 w g gs)
  have "starts_clean []" by (simp add: starts_clean_def)
  with 2 show ?case by (auto simp: starts_clean_append split: if_splits)
qed

lemma sanitise_clean: "starts_clean s \<Longrightarrow> starts_clean (sanitise s)"
proof -
  assume s: "starts_clean s"
  have "starts_clean (concat (map denoise (utf8_chars s)))"
    using starts_clean_group [OF s] starts_clean_denoise by (auto intro!: starts_clean_concat)
  then have g: "\<forall>g \<in> set (utf8_chars (concat (map denoise (utf8_chars s)))). starts_clean g"
    using starts_clean_group by blast
  have e: "starts_clean []" "starts_clean '' ''" by (simp_all add: starts_clean_def is_cont_def)
  show ?thesis
    unfolding sanitise_def split_whitespace_def
    using words_acc_clean [OF e(1) g] e by (auto intro!: starts_clean_join)
qed

lemma shorten_length: "starts_clean s \<Longrightarrow> char_count (shorten s n) \<le> n + 1"
  using truncate_str_length [of s n] by (simp add: shorten_def)

lemma shorten_clean: "starts_clean s \<Longrightarrow> starts_clean (shorten s n)"
  by (simp add: shorten_def truncate_str_def starts_clean_append starts_clean_take ellipsis_one_char)

lemma prompt_text_clean: "starts_clean (prompt_text_for p)"
  by (simp add: prompt_text_for_def starts_clean_def is_cont_def Let_def
      split: purpose_kind.splits option.splits)

lemma prompt_action_clean: "starts_clean (prompt_action who)"
  by (simp add: prompt_action_def shorten_clean sanitise_clean prompt_text_clean)

lemma prompt_action_length: "char_count (prompt_action who) \<le> PROMPT_MAX + 1"
  unfolding prompt_action_def by (rule shorten_length) (simp add: sanitise_clean prompt_text_clean)

section \<open>The sheet\<close>

lemma char_count_ascii: "\<forall>c \<in> set s. code c < 128 \<Longrightarrow> utf8_chars s = map (\<lambda>c. [c]) s"
proof (induction s)
  case Nil
  then show ?case by simp
next
  case (Cons c s)
  have "takeWhile is_cont s = []" "dropWhile is_cont s = s"
    using Cons.prems by (cases s; auto simp: is_cont_def)+
  with Cons show ?case by simp
qed

lemma digit_ascii: "n < 10 \<Longrightarrow> code (digit n) < 128 \<and> digit n \<notin> noise_chars"
proof -
  assume "n < 10"
  then have "n \<in> {0, 1, 2, 3, 4, 5, 6, 7, 8, 9}" by auto
  then show ?thesis by (auto simp: digit_def noise_chars_def)
qed

lemma show_nat_ascii: "c \<in> set (show_nat n) \<Longrightarrow> code c < 128 \<and> c \<notin> noise_chars"
proof (induction n rule: show_nat.induct)
  case (1 n)
  then show ?case
    using digit_ascii [of n] digit_ascii [of "n mod 10"]
    by (subst (asm) (2) show_nat.simps) (auto split: if_splits)
qed

lemma show_nat_length: "n < 10 ^ Suc k \<Longrightarrow> length (show_nat n) \<le> Suc k"
proof (induction k arbitrary: n)
  case 0
  then show ?case by (subst show_nat.simps) simp
next
  case (Suc k)
  show ?case
  proof (cases "n < 10")
    case True
    then show ?thesis by (subst show_nat.simps) simp
  next
    case False
    have "n div 10 < 10 ^ Suc k" using Suc.prems by (simp add: less_mult_imp_div_less mult.commute)
    from Suc.IH [OF this] False show ?thesis by (subst show_nat.simps) simp
  qed
qed

lemma span_form: "\<exists>n u. n < 2 ^ 64 \<and> u \<in> {''day'', ''hour'', ''minute'', ''second''} \<and>
    span secs = show_nat n @ '' '' @ u @ (if n = 1 then [] else ''s'')"
proof -
  define s where "s = f64_as_u64 (f64_max (f64_round secs) 1)"
  have s: "s < 2 ^ 64" by (simp only: s_def f64_as_u64_bound)
  then have d: "s div m < 2 ^ 64" for m using div_le_dividend [of s m] by linarith
  obtain n u where nu: "(if s mod 86400 = 0 \<and> 86400 < s then (s div 86400, ''day'')
      else if s mod 3600 = 0 then (s div 3600, ''hour'')
      else if s mod 60 = 0 then (s div 60, ''minute'') else (s, ''second'')) = (n, u)"
    by fastforce
  then have "n < 2 ^ 64" "u \<in> {''day'', ''hour'', ''minute'', ''second''}"
    using s d [of 86400] d [of 3600] d [of 60] by (auto split: if_splits)
  moreover have "span secs = show_nat n @ '' '' @ u @ (if n = 1 then [] else ''s'')"
    unfolding span_def Let_def s_def [symmetric] nu by simp
  ultimately show ?thesis by blast
qed

lemma ends_sheet_ascii:
  "c \<in> set (ends_sheet e) \<Longrightarrow> code c < 128 \<and> c \<notin> noise_chars" and
  ends_sheet_length: "length (ends_sheet e) \<le> 32"
proof -
  have "(\<forall>c \<in> set (ends_sheet e). code c < 128 \<and> c \<notin> noise_chars) \<and> length (ends_sheet e) \<le> 32"
  proof (cases e)
    case (After secs)
    obtain n u where n: "n < 2 ^ 64" and u: "u \<in> {''day'', ''hour'', ''minute'', ''second''}"
      and sp: "span secs = show_nat n @ '' '' @ u @ (if n = 1 then [] else ''s'')"
      using span_form by blast
    have "(2::nat) ^ 64 \<le> 10 ^ Suc 19" by simp
    with n have "length (show_nat n) \<le> Suc 19" by (intro show_nat_length) linarith
    then show ?thesis using u show_nat_ascii [of _ n] by (auto simp: After sp noise_chars_def)
  next
    case (AtScreenLock secs)
    then show ?thesis by (simp add: noise_chars_def)
  qed
  then show "c \<in> set (ends_sheet e) \<Longrightarrow> code c < 128 \<and> c \<notin> noise_chars" "length (ends_sheet e) \<le> 32"
    by blast+
qed

lemma starts_clean_ascii: "\<forall>c \<in> set s. code c < 128 \<Longrightarrow> starts_clean s"
  by (cases s) (auto simp: starts_clean_def is_cont_def)

lemma shorten_keeps_prefix:
  assumes "starts_clean p" and "starts_clean t" and "char_count p \<le> n"
  shows "\<exists>u. shorten (p @ t) n = p @ u"
proof (cases "char_count (p @ t) \<le> n")
  case True
  then show ?thesis by (auto simp: shorten_def truncate_str_def)
next
  case False
  have "take n (utf8_chars (p @ t)) = utf8_chars p @ take (n - length (utf8_chars p)) (utf8_chars t)"
    using assms by (simp add: utf8_chars_append char_count_def)
  with False show ?thesis by (auto simp: shorten_def truncate_str_def)
qed

lemma middle_dot_clean: "starts_clean middle_dot" "quiet_text middle_dot"
  by (simp_all add: middle_dot_def starts_clean_def is_cont_def quiet_text_def noise_chars_def)

lemma char_count_middle_dot: "char_count middle_dot = 3"
  by (simp add: middle_dot_def char_count_def is_cont_def)

definition sign_in_line :: "ends \<Rightarrow> string" where
  "sign_in_line e = ''Sign in '' @ ends_sheet e"

lemma sign_in_line_ascii: "\<forall>c \<in> set (sign_in_line e). code c < 128"
  using ends_sheet_ascii by (auto simp: sign_in_line_def)

lemma sign_in_line_quiet: "quiet_text (sign_in_line e)"
  using ends_sheet_ascii [of _ e] by (auto simp: sign_in_line_def quiet_text_def noise_chars_def)

lemma sign_in_line_short: "char_count (sign_in_line e) \<le> PROMPT_MAX"
  using ends_sheet_length [of e] char_count_ascii [OF sign_in_line_ascii [of e]]
  by (simp add: char_count_def PROMPT_MAX_def) (simp add: sign_in_line_def)

text \<open>What follows the sign-in on the sheet, before shortening.\<close>

lemma sheet_sign_in:
  assumes "starts_clean configured"
  shows "\<exists>t. starts_clean t \<and> quiet_text t \<and>
    sheet_reason who configured (Some (ends_sheet e)) = shorten (sign_in_line e @ t) PROMPT_MAX"
proof -
  define r where "r = unwrap_or (if configured = [] then None else Some (sanitise configured)) (prompt_action who)"
  have "starts_clean r" "quiet_text r"
    using assms by (simp_all add: r_def sanitise_clean prompt_action_clean quiet_prompt_action)
  then have "starts_clean (if r = [] then [] else middle_dot @ r)"
    "quiet_text (if r = [] then [] else middle_dot @ r)"
    by (simp_all add: starts_clean_append middle_dot_clean)
      (simp_all add: starts_clean_def quiet_text_def)
  moreover have "sheet_reason who configured (Some (ends_sheet e)) =
      shorten (sign_in_line e @ (if r = [] then [] else middle_dot @ r)) PROMPT_MAX"
    by (simp add: sheet_reason_def r_def sign_in_line_def Let_def)
  ultimately show ?thesis by blast
qed

text \<open>
  C36: When a request opens a sign-in the sheet leads with when it ends, whole, whatever the
  action, the application or a configured text would say: no configuration can take the
  grant off the sheet, and shortening never reaches it.
\<close>

theorem sign_in_leads_sheet:
  assumes "starts_clean configured"
  shows "\<exists>rest. sheet_reason who configured (Some (ends_sheet e)) = ''Sign in '' @ ends_sheet e @ rest"
proof -
  from sheet_sign_in [OF assms, of who e] obtain t where "starts_clean t"
    and t: "sheet_reason who configured (Some (ends_sheet e)) = shorten (sign_in_line e @ t) PROMPT_MAX"
    by blast
  from shorten_keeps_prefix [OF starts_clean_ascii [OF sign_in_line_ascii] this(1) sign_in_line_short]
  show ?thesis unfolding t by (auto simp: sign_in_line_def)
qed

definition nobody :: attribution where
  "nobody =
    \<lparr>at_pid = -1, at_process = None, at_ancestry = [], at_app = None, at_apps = [],
     at_destination = None, at_purpose = unknown_purpose, at_context = empty_context\<rparr>"

theorem sign_in_leads_sheet_witness:
  "\<exists>rest. sheet_reason nobody ''`quoted`'' (Some (ends_sheet (AtScreenLock (Fin 60)))) =
    ''Sign in until screen lock'' @ rest"
proof -
  have "starts_clean ''`quoted`''" by (simp add: starts_clean_def is_cont_def)
  from sign_in_leads_sheet [OF this, of nobody "AtScreenLock (Fin 60)"] show ?thesis by simp
qed


definition noisy :: attribution where
  "noisy = nobody
    \<lparr>at_purpose := unknown_purpose\<lparr>pu_kind := SshLogin, pu_host := Some [CHR 0x60, CHR 0x0A, CHR 0x22]\<rparr>,
     at_app := Some \<lparr>ai_bundle_path = ''/A.app'', ai_name = ''A'', ai_depth = 0\<rparr>\<rparr>"


end
