(* ===== verification/Event.thy ===== *)
theory Event
  imports Approvals
begin

text \<open>
  \<open>daemon/src/event.rs\<close>: the event log. The state is the bytes of the log and of the one
  older generation, and whether the log is open; which of the file system's calls succeed
  is an argument of each append. An event becomes a line by \<open>serde_json\<close>, a parameter.
\<close>

section \<open>Events\<close>

datatype event_kind = ListIdentities | Sign | SessionBind | Other

record event =
  ev_ts :: f64
  ev_kind :: event_kind
  ev_who :: attribution
  ev_key_fp :: "string option"
  ev_key_comment :: "string option"
  ev_upstream :: "string option"
  ev_bound_host_fp :: "string option"
  ev_scope :: "scope option"
  ev_reused :: bool
  ev_sign_in :: bool
  ev_outcome :: string
  ev_duration_ms :: nat

text \<open>
  \<open>SystemTime::now\<close> as seconds since the epoch; a clock set before it is no duration, and then
  the time is 0.
\<close>

definition event_now :: "f64 option \<Rightarrow> f64" where
  "event_now since_epoch = unwrap_or since_epoch 0"

section \<open>The log\<close>

record log =
  lg_current :: "string option"
  lg_rotated :: "string option"
  lg_mode :: "nat option"
  lg_open :: bool
  lg_max_bytes :: nat

record log_io =
  io_open :: bool
  io_write :: bool
  io_metadata :: bool
  io_rename :: bool
  io_reopen :: bool

definition log_new :: "string option \<Rightarrow> string option \<Rightarrow> nat \<Rightarrow> log" where
  "log_new current rotated max_bytes =
    \<lparr>lg_current = current, lg_rotated = rotated, lg_mode = None, lg_open = False,
     lg_max_bytes = max_bytes\<rparr>"

text \<open>
  \<open>OpenOptions::new().create(true).append(true).mode(0o600).open\<close>: an existing file keeps
  its bytes and its mode, a new one is empty and readable by the user alone.
\<close>

definition open_append :: "bool \<Rightarrow> log \<Rightarrow> log" where
  "open_append success l =
    (if success then
       l\<lparr>lg_open := True, lg_current := Some (unwrap_or (lg_current l) []),
         lg_mode := (if lg_current l = None then Some 384 else lg_mode l)\<rparr>
     else l\<lparr>lg_open := False\<rparr>)"

definition current_bytes :: "log \<Rightarrow> string" where
  "current_bytes l = unwrap_or (lg_current l) []"

definition rotated_bytes :: "log \<Rightarrow> string" where
  "rotated_bytes l = unwrap_or (lg_rotated l) []"

text \<open>A rename moves the file onto the older generation, which is lost.\<close>

definition rotate :: "log_io \<Rightarrow> log \<Rightarrow> log" where
  "rotate io l =
    (let l' = (if io_rename io
               then l\<lparr>lg_rotated := lg_current l, lg_current := None\<rparr> else l)
     in open_append (io_reopen io) l')"

definition append_line :: "log_io \<Rightarrow> string \<Rightarrow> log \<Rightarrow> log" where
  "append_line io line l =
    (let l1 = (if lg_open l then l else open_append (io_open io) l)
     in if \<not> lg_open l1 then l1
        else
          let l2 = (if io_write io
                    then l1\<lparr>lg_current := Some (current_bytes l1 @ line @ [CHR 0x0A])\<rparr> else l1)
          in if io_metadata io \<and> lg_max_bytes l2 < length (current_bytes l2)
             then rotate io l2 else l2)"

definition log_append :: "(event \<Rightarrow> string option) \<Rightarrow> log_io \<Rightarrow> event \<Rightarrow> log \<Rightarrow> log" where
  "log_append to_json io ev l =
    (case to_json ev of None \<Rightarrow> l | Some line \<Rightarrow> append_line io line l)"

section \<open>What the log keeps\<close>

text \<open>Every call of the file system succeeding.\<close>

definition io_fine :: log_io where
  "io_fine =
    \<lparr>io_open = True, io_write = True, io_metadata = True, io_rename = True, io_reopen = True\<rparr>"

text \<open>Both generations of the log are the end of everything written.\<close>

definition keeps_tail :: "log \<Rightarrow> string \<Rightarrow> bool" where
  "keeps_tail l history \<longleftrightarrow>
    (\<exists>lost. history = lost @ rotated_bytes l @ current_bytes l) \<and>
    length (current_bytes l) \<le> lg_max_bytes l"

lemma append_line_fine:
  "append_line io_fine line l =
    (let l1 = (if lg_open l then l else open_append True l);
         bytes = current_bytes l @ line @ [CHR 0x0A]
     in if lg_max_bytes l < length bytes
        then l1\<lparr>lg_rotated := Some bytes, lg_current := Some [], lg_mode := Some 384, lg_open := True\<rparr>
        else l1\<lparr>lg_current := Some bytes\<rparr>)"
  by (auto simp: append_line_def io_fine_def open_append_def rotate_def current_bytes_def Let_def)

lemma append_keeps_tail:
  assumes "keeps_tail l history"
  shows "keeps_tail (append_line io_fine line l) (history @ line @ [CHR 0x0A])"
proof -
  let ?bytes = "current_bytes l @ line @ [CHR 0x0A]"
  from assms obtain lost where h: "history = lost @ rotated_bytes l @ current_bytes l"
    by (auto simp: keeps_tail_def)
  show ?thesis
  proof (cases "lg_max_bytes l < length ?bytes")
    case True
    then have "current_bytes (append_line io_fine line l) = []"
      "rotated_bytes (append_line io_fine line l) = ?bytes"
      by (auto simp: append_line_fine Let_def current_bytes_def rotated_bytes_def)
    then show ?thesis by (simp add: keeps_tail_def h)
  next
    case False
    then have "current_bytes (append_line io_fine line l) = ?bytes"
      "rotated_bytes (append_line io_fine line l) = rotated_bytes l"
      "lg_max_bytes (append_line io_fine line l) = lg_max_bytes l"
      by (auto simp: append_line_fine Let_def current_bytes_def rotated_bytes_def open_append_def)
    with False show ?thesis by (simp add: keeps_tail_def h)
  qed
qed

lemma log_append_keeps_tail:
  assumes "keeps_tail l history" and "to_json ev = Some line"
  shows "keeps_tail (log_append to_json io_fine ev l) (history @ line @ [CHR 0x0A])"
  using append_keeps_tail [OF assms(1)] assms(2) by (simp add: log_append_def)

text \<open>
  The log over any run of appends that the file system accepts: the older generation
  and the log together are exactly the end of everything ever written, the last event
  always among it, so the one thing rotation loses is generations older than the last,
  and the log is never left longer than its bound.
\<close>

lemma log_keeps_recent:
  assumes "keeps_tail l history" and "\<forall>ev \<in> set evs. to_json ev \<noteq> None"
  shows "keeps_tail (fold (log_append to_json io_fine) evs l)
      (history @ concat (map (\<lambda>ev. the (to_json ev) @ [CHR 0x0A]) evs)) \<and>
    (evs \<noteq> [] \<longrightarrow>
      ends_with (rotated_bytes (fold (log_append to_json io_fine) evs l) @
          current_bytes (fold (log_append to_json io_fine) evs l))
        (the (to_json (last evs)) @ [CHR 0x0A]))"
  using assms
proof (induction evs rule: rev_induct)
  case Nil
  then show ?case by simp
next
  case (snoc ev evs)
  let ?l = "fold (log_append to_json io_fine) evs l"
  obtain line where j: "to_json ev = Some line" using snoc.prems by auto
  have t: "keeps_tail ?l (history @ concat (map (\<lambda>ev. the (to_json ev) @ [CHR 0x0A]) evs))"
    using snoc by auto
  have e: "ends_with (rotated_bytes (append_line io_fine line ?l) @ current_bytes (append_line io_fine line ?l))
      (line @ [CHR 0x0A])"
  proof (cases "lg_max_bytes ?l < length (current_bytes ?l @ line @ [CHR 0x0A])")
    case True
    then show ?thesis
      using ends_with_append [of "current_bytes ?l" "line @ [CHR 0x0A]"]
      by (simp add: append_line_fine Let_def current_bytes_def rotated_bytes_def)
  next
    case False
    then have "current_bytes (append_line io_fine line ?l) = current_bytes ?l @ line @ [CHR 0x0A]"
      by (auto simp: append_line_fine Let_def current_bytes_def open_append_def)
    then show ?thesis
      using ends_with_append [of "rotated_bytes (append_line io_fine line ?l) @ current_bytes ?l" "line @ [CHR 0x0A]"]
      by simp
  qed
  show ?case
    using log_append_keeps_tail [where to_json = to_json and ev = ev, OF t j] e
    by (simp add: j log_append_def [of to_json io_fine ev])
qed

definition blank_event :: event where
  "blank_event =
    \<lparr>ev_ts = 0, ev_kind = Other,
     ev_who = \<lparr>at_pid = -1, at_process = None, at_ancestry = [], at_app = None, at_apps = [],
       at_destination = None, at_purpose = unknown_purpose, at_context = empty_context\<rparr>,
     ev_key_fp = None, ev_key_comment = None, ev_upstream = None, ev_bound_host_fp = None,
     ev_scope = None, ev_reused = False, ev_sign_in = False, ev_outcome = ''ok'', ev_duration_ms = 0\<rparr>"

theorem log_keeps_recent_witness:
  "keeps_tail (fold (log_append (\<lambda>_. Some ''abc'') io_fine) [blank_event, blank_event] (log_new None None 5))
    (concat (replicate 2 (''abc'' @ [CHR 0x0A])))"
proof -
  have k: "keeps_tail (log_new None None 5) []"
    by (simp add: keeps_tail_def log_new_def current_bytes_def rotated_bytes_def)
  have j: "\<forall>ev \<in> set [blank_event, blank_event]. (\<lambda>_. Some ''abc'') ev \<noteq> None" by simp
  from log_keeps_recent [OF k j, THEN conjunct1] show ?thesis
    by (simp only: numeral_2_eq_2 replicate.simps list.map concat.simps option.sel append_Nil)
qed

end
