(* ===== verification/Upstream.thy ===== *)
theory Upstream
  imports Wire
begin

text \<open>
  \<open>daemon/src/upstream.rs\<close>: one request to an upstream agent over a connection of its own,
  and the listing of its keys. What the socket does, the bytes that arrive and how the
  stream ends after them, is a parameter. The answer a listing is encoded as
  (\<open>agent.rs\<close>, \<open>handle_request_identities\<close>) is here too, since one end reads what the
  other writes.
\<close>

section \<open>Requests\<close>

datatype io_error = WouldBlock | TimedOut | UnexpectedEof | InvalidData string | OtherError string

record upstream =
  up_name :: string
  up_path :: string

definition FAILURE :: byte where "FAILURE = 5"
definition REQUEST_IDENTITIES :: byte where "REQUEST_IDENTITIES = 11"
definition IDENTITIES_ANSWER :: byte where "IDENTITIES_ANSWER = 12"
definition SIGN_REQUEST :: byte where "SIGN_REQUEST = 13"
definition SIGN_RESPONSE :: byte where "SIGN_RESPONSE = 14"
definition EXTENSION :: byte where "EXTENSION = 27"

definition MAX_MSG :: nat where "MAX_MSG = 1048576"

text \<open>
  The socket at a path, given the frame written to it: an error of connecting or writing,
  or the bytes that arrived and the error the next read would meet.
\<close>

type_synonym net = "string \<Rightarrow> bytes \<Rightarrow> (io_error, bytes \<times> io_error) result"

definition be_length :: "bytes \<Rightarrow> nat" where
  "be_length bs = unat (u32_from_be (bs ! 0) (bs ! 1) (bs ! 2) (bs ! 3))"

definition request :: "net \<Rightarrow> upstream \<Rightarrow> bytes \<Rightarrow> (io_error, bytes) result" where
  "request net up payload =
    (case net (up_path up) (frame payload) of
       Inl e \<Rightarrow> Inl e
     | Inr (bs, fin) \<Rightarrow>
         if length bs < 4 then Inl fin
         else
           let n = be_length bs; rest = drop 4 bs
           in if n = 0 \<or> MAX_MSG < n
              then Inl (InvalidData (''bad reply length '' @ show_nat n @ '' from '' @ up_name up))
              else if length rest < n then Inl fin
              else Inr (take n rest))"

fun read_identities :: "nat \<Rightarrow> reader \<Rightarrow> (bytes \<times> string) list" where
  "read_identities 0 r = []"
| "read_identities (Suc n) r =
    (case reader_string r of
       (None, _) \<Rightarrow> []
     | (Some blob, r1) \<Rightarrow>
         (case reader_string r1 of (c, r2) \<Rightarrow>
            (blob, (case c of None \<Rightarrow> [] | Some c \<Rightarrow> from_utf8_lossy c)) # read_identities n r2))"

definition parse_identities :: "bytes \<Rightarrow> (bytes \<times> string) list" where
  "parse_identities reply =
    (let (tag, r) = reader_u8 (reader_new reply)
     in if tag \<noteq> Some IDENTITIES_ANSWER then []
        else
          let (count, r') = reader_u32 r
          in read_identities (case count of None \<Rightarrow> 0 | Some n \<Rightarrow> unat n) r')"

definition identities :: "net \<Rightarrow> upstream \<Rightarrow> (io_error, (bytes \<times> string) list) result" where
  "identities net up =
    (case request net up [REQUEST_IDENTITIES] of
       Inl e \<Rightarrow> Inl e | Inr reply \<Rightarrow> Inr (parse_identities reply))"

section \<open>The answer to a listing\<close>

fun write_identities :: "(bytes \<times> string) list \<Rightarrow> bytes \<Rightarrow> bytes" where
  "write_identities [] buf = buf"
| "write_identities ((blob, comment) # ids) buf =
    write_identities ids (writer_string (as_bytes comment) (writer_string blob buf))"

definition identities_answer :: "(bytes \<times> string) list \<Rightarrow> bytes" where
  "identities_answer ids =
    write_identities ids
      (writer_u32 (of_nat (length ids)) (writer_u8 IDENTITIES_ANSWER writer_new))"

section \<open>A listing is read back\<close>

definition identity_fields :: "(bytes \<times> string) list \<Rightarrow> bytes list" where
  "identity_fields ids = concat (map (\<lambda>(b, c). [b, as_bytes c]) ids)"

lemma write_identities_list: "write_identities ids buf = string_field.put_list (identity_fields ids) buf"
  by (induction ids buf rule: write_identities.induct) (simp_all add: identity_fields_def)

definition identity_ok :: "bytes \<times> string \<Rightarrow> bool" where
  "identity_ok i \<longleftrightarrow>
    length (fst i) < 2 ^ 32 \<and> length (snd i) < 2 ^ 32 \<and> utf8_valid (as_bytes (snd i))"

lemma read_written_identities:
  assumes "\<forall>i \<in> set ids. identity_ok i" and "at_bytes r (write_identities ids [])"
  shows "read_identities (length ids) r = ids"
  using assms
proof (induction ids arbitrary: r)
  case Nil
  then show ?case by simp
next
  case (Cons i ids)
  obtain b c where i: "i = (b, c)" by (cases i)
  have ok: "length b < 2 ^ 32" "length (as_bytes c) < 2 ^ 32" "utf8_valid (as_bytes c)"
    using Cons.prems(1) by (simp_all add: i identity_ok_def)
  have "write_identities (i # ids) [] =
      writer_string b [] @ writer_string (as_bytes c) [] @ write_identities ids []"
    by (simp add: i write_identities_list string_field.put_list_append)
      (simp add: identity_fields_def string_field.put_list_append)
  with Cons.prems(2) have a: "at_bytes r (writer_string b [] @ writer_string (as_bytes c) [] @ write_identities ids [])"
    by simp
  note rb = reader_string_put [OF ok(1) a]
  note rc = reader_string_put [OF ok(2) rb(2)]
  from Cons.IH [OF _ rc(2)] Cons.prems(1) show ?case
    by (simp add: rb(1) rc(1) i from_utf8_lossy_valid [OF ok(3)])
qed

lemma read_identities_bound:
  "reader_ok r \<Longrightarrow> 4 * length (read_identities n r) + rd_pos r \<le> length (rd_buf r)"
proof (induction n r rule: read_identities.induct)
  case (1 r)
  then show ?case by (simp add: reader_ok_def)
next
  case (2 n r)
  obtain b r1 where b: "reader_string r = (b, r1)" by (cases "reader_string r")
  obtain c r2 where c: "reader_string r1 = (c, r2)" by (cases "reader_string r1")
  show ?case
  proof (cases b)
    case None
    with b 2 show ?thesis by (simp add: reader_ok_def)
  next
    case (Some blob)
    with b have b': "reader_string r = (Some blob, r1)" by simp
    note ok1 = reader_string_ok [OF "2.prems" b]
    then have ok2: "reader_ok r2 \<and> rd_buf r2 = rd_buf r1" using reader_string_ok c by blast
    have "rd_pos r + 4 \<le> rd_pos r1" using reader_string_sub(1) [OF b'] by simp
    moreover have "rd_pos r1 \<le> rd_pos r2"
    proof (cases c)
      case None
      with c show ?thesis
        by (auto simp: reader_string_def reader_u32_def split: prod.splits option.splits
            dest: reader_u32_pos)
           (auto simp: usize_checked_add_def split: if_splits)
    next
      case (Some x)
      with c reader_string_sub(1) [of r1 x r2] show ?thesis by simp
    qed
    moreover have "4 * length (read_identities n r2) + rd_pos r2 \<le> length (rd_buf r2)"
      using "2.IH" [OF b' [symmetric] refl c [symmetric]] ok2 by blast
    ultimately show ?thesis using ok1 ok2 by (simp add: b' c)
  qed
qed

lemma read_frame:
  assumes "payload \<noteq> []" and "length payload \<le> MAX_MSG"
    and "net (up_path up) (frame q) = Inr (frame payload @ extra, fin)"
  shows "request net up q = Inr payload"
proof -
  have l: "be_length (u32_to_be v @ xs) = unat v" for v xs
    by (simp add: be_length_def nth_append u32_be_roundtrip [simplified])
  have "length payload < 2 ^ 32" using assms(2) by (simp add: MAX_MSG_def)
  then have n: "unat (of_nat (length payload) :: u32) = length payload" by (rule unat_of_nat_length)
  show ?thesis
    using assms by (simp add: request_def frame_def l n Let_def)
qed

lemma parse_answer:
  assumes "\<forall>i \<in> set ids. identity_ok i" and "length ids < 2 ^ 32"
    and "length (identities_answer ids) < 2 ^ 64"
  shows "parse_identities (identities_answer ids) = ids"
proof -
  have e: "identities_answer ids = IDENTITIES_ANSWER # u32_to_be (of_nat (length ids)) @ write_identities ids []"
    by (simp add: identities_answer_def write_identities_list string_field.put_list_append
        writer_u8_def writer_u32_def writer_new_def)
  have a: "at_bytes (reader_new (identities_answer ids))
      (IDENTITIES_ANSWER # u32_to_be (of_nat (length ids)) @ write_identities ids [])"
    using at_bytes_new [OF assms(3)] by (simp add: e)
  obtain r1 where u8: "reader_u8 (reader_new (identities_answer ids)) = (Some IDENTITIES_ANSWER, r1)"
    "at_bytes r1 (u32_to_be (of_nat (length ids)) @ write_identities ids [])"
    using reader_u8_put [OF a] by blast
  obtain r2 where u32: "reader_u32 r1 = (Some (of_nat (length ids)), r2)"
    "at_bytes r2 (write_identities ids [])"
    using reader_u32_put [OF u8(2)] by blast
  have c: "unat (of_nat (length ids) :: u32) = length ids"
    using assms(2) by (simp add: unat_of_nat)
  show ?thesis
    using read_written_identities [OF assms(1) u32(2)]
    by (simp add: parse_identities_def u8(1) u32(1) c Let_def)
qed

lemma answer_length: "4 * length ids \<le> length (identities_answer ids)"
proof -
  have "length buf + 4 * length ids \<le> length (write_identities ids buf)" for buf
  proof (induction ids buf rule: write_identities.induct)
    case (1 buf)
    then show ?case by simp
  next
    case (2 b c ids buf)
    then show ?case by simp
  qed
  from this [of "writer_u32 (of_nat (length ids)) (writer_u8 IDENTITIES_ANSWER writer_new)"]
  show ?thesis by (simp add: identities_answer_def)
qed

text \<open>
  A listing survives the wire: whatever keys and comments an agent lists, a reader of
  this code gets the same keys with the same comments in the same order out of the framed
  answer that this code writes, for every answer that fits a message.
\<close>

lemma identities_read_back:
  assumes "\<forall>i \<in> set ids. identity_ok i" and "length (identities_answer ids) \<le> MAX_MSG"
    and "net (up_path up) (frame [REQUEST_IDENTITIES]) = Inr (frame (identities_answer ids) @ extra, fin)"
  shows "identities net up = Inr ids"
proof -
  have "length ids < 2 ^ 32" "length (identities_answer ids) < 2 ^ 64"
    using answer_length [of ids] assms(2) by (simp_all add: MAX_MSG_def)
  note p = parse_answer [OF assms(1) this]
  have "identities_answer ids \<noteq> []"
    by (simp add: identities_answer_def write_identities_list string_field.put_list_append writer_u8_def
        writer_u32_def)
  with read_frame [where net = net and up = up and extra = extra and fin = fin] assms p
  show ?thesis by (simp add: identities_def)
qed

definition one_agent :: "bytes \<Rightarrow> net" where
  "one_agent answer path q = Inr (frame answer, UnexpectedEof)"

theorem identities_read_back_witness:
  "identities (one_agent (identities_answer [([1, 2], ''me''), ([3], [])])) \<lparr>up_name = ''a'', up_path = ''/s''\<rparr> =
    Inr [([1, 2], ''me''), ([3], [])]"
proof -
  let ?ids = "[([1, 2], ''me''), ([3], [])] :: (bytes \<times> string) list"
  have "\<forall>i \<in> set ?ids. identity_ok i" by (simp add: identity_ok_def as_bytes_def utf8_step_ascii)
  moreover have "length (identities_answer ?ids) \<le> MAX_MSG"
    by (simp add: identities_answer_def writer_u8_def writer_u32_def writer_new_def MAX_MSG_def)
  moreover have "one_agent (identities_answer ?ids) ''/s'' (frame [REQUEST_IDENTITIES]) =
      Inr (frame (identities_answer ?ids) @ [], UnexpectedEof)"
    by (simp add: one_agent_def)
  ultimately show ?thesis
    using identities_read_back [of ?ids "one_agent (identities_answer ?ids)" "\<lparr>up_name = ''a'', up_path = ''/s''\<rparr>"]
    by simp
qed

text \<open>
  A hostile or broken upstream cannot make the daemon allocate without bound: an answer
  is never longer than a message may be, and however many keys its count claims, at most a
  quarter as many are listed as the answer has bytes.
\<close>

lemma hostile_listing_bounded:
  "(case request net up q of Inl _ \<Rightarrow> True | Inr reply \<Rightarrow> reply \<noteq> [] \<and> length reply \<le> 2 ^ 20) \<and>
   (case identities net up of Inl _ \<Rightarrow> True | Inr ids \<Rightarrow> 4 * length ids \<le> 2 ^ 20)"
proof -
  have r: "case request net up q of Inl _ \<Rightarrow> True | Inr reply \<Rightarrow> reply \<noteq> [] \<and> length reply \<le> 2 ^ 20" for q
    by (auto simp: request_def MAX_MSG_def Let_def split: sum.splits prod.splits)
  have p: "4 * length (parse_identities reply) \<le> length reply" for reply
  proof -
    obtain t r1 where t: "reader_u8 (reader_new reply) = (t, r1)" by (cases "reader_u8 (reader_new reply)")
    obtain c r2 where c: "reader_u32 r1 = (c, r2)" by (cases "reader_u32 r1")
    have "reader_ok (reader_new reply)" by (simp add: reader_ok_def reader_new_def)
    from reader_u8_ok [OF this t] reader_u32_ok [OF _ c] have "reader_ok r2" "rd_buf r2 = reply"
      by (auto simp: reader_new_def)
    with read_identities_bound [of r2 "case c of None \<Rightarrow> 0 | Some n \<Rightarrow> unat n"] show ?thesis
      by (simp add: parse_identities_def t c)
  qed
  have "case identities net up of Inl _ \<Rightarrow> True | Inr ids \<Rightarrow> 4 * length ids \<le> 2 ^ 20"
  proof (cases "request net up [REQUEST_IDENTITIES]")
    case (Inl e)
    then show ?thesis by (simp add: identities_def)
  next
    case (Inr reply)
    with r [of "[REQUEST_IDENTITIES]"] have "length reply \<le> 2 ^ 20" by simp
    with p [of reply] have "4 * length (parse_identities reply) \<le> 2 ^ 20" by linarith
    with Inr show ?thesis by (simp add: identities_def)
  qed
  with r show ?thesis by blast
qed

end
