(* ===== verification/Agent.thy ===== *)
theory Agent
  imports Enclave Prompt Event Upstream
begin

text \<open>
  \<open>daemon/src/agent.rs\<close>: the state of the running daemon and its handlers. A signature
  with the daemon's own key is the composition of small phases, one per group of
  statements that touch shared state; the theory \<open>Interleave\<close> runs the same phases against
  the screen watch. What a handler reads from outside at each moment (the clock, the
  screen, the frameworks' answers) is in a record of readings.
\<close>

section \<open>State\<close>

record look =
  lk_at :: f64
  lk_saw :: screen

record config =
  cf_enclave :: "enclave option"
  cf_upstreams :: "upstream list"
  cf_log_lists :: bool
  cf_sign_in_secs :: f64
  cf_reuse_secs :: f64
  cf_require_approval :: bool
  cf_sheet_reason :: string

record daemon =
  dm_gate :: gate_state
  dm_looked :: look
  dm_cache :: la_cache
  dm_routes :: "bytes \<rightharpoonup> nat"
  dm_comments :: "bytes \<rightharpoonup> string"
  dm_log :: log
  dm_conns :: nat

text \<open>Code that is not the repository's: sockets, serialisers, SHA-256 and base64.\<close>

record outside =
  ou_os :: os
  ou_net :: net
  ou_scope_json :: "scope \<Rightarrow> string option"
  ou_event_json :: "event \<Rightarrow> string option"
  ou_sha256 :: "bytes \<Rightarrow> bytes"
  ou_base64 :: "bytes \<Rightarrow> string"

definition fingerprint :: "outside \<Rightarrow> bytes \<Rightarrow> string" where
  "fingerprint ou blob = ''SHA256:'' @ ou_base64 ou (ou_sha256 ou blob)"

section \<open>The screen\<close>

definition sign_out :: "daemon \<Rightarrow> bool \<times> daemon" where
  "sign_out st =
    (let (was, g) = end_approvals (dm_gate st)
     in (was, st\<lparr>dm_gate := g, dm_cache := enclave_forget_all (dm_cache st)\<rparr>))"

text \<open>Whether a look at the screen signs everybody out.\<close>

definition calls_sign_out :: "screen \<Rightarrow> look \<Rightarrow> f64 \<Rightarrow> bool" where
  "calls_sign_out scr before now \<longleftrightarrow> scr \<noteq> Unlocked \<or> unseen (lk_at before) now"

definition look_at_screen :: "screen \<Rightarrow> f64 \<Rightarrow> daemon \<Rightarrow> daemon" where
  "look_at_screen scr now st =
    (let before = dm_looked st;
         st' = st\<lparr>dm_looked := \<lparr>lk_at = now, lk_saw = scr\<rparr>\<rparr>
     in if calls_sign_out scr before now then snd (sign_out st') else st')"

text \<open>\<open>barred\<close>: only a sign-in key looks, and only it is held to the screen.\<close>

definition barred :: "enclave \<Rightarrow> screen \<Rightarrow> f64 \<Rightarrow> daemon \<Rightarrow> string option \<times> daemon" where
  "barred e scr now st =
    (if \<not> en_ends_at_lock e then (None, st)
     else (refusal scr, look_at_screen scr now st))"

definition release :: "(scope \<Rightarrow> string option) \<Rightarrow> reach list \<Rightarrow> la_cache \<Rightarrow> la_cache" where
  "release ser gone c = fold (\<lambda>r. enclave_forget (reach_key ser r)) gone c"

text \<open>One round of \<open>watch_screen\<close>: the look, and what has run out when nobody is signing.\<close>

definition watch_plan_window :: "config \<Rightarrow> f64" where
  "watch_plan_window cfg =
    snd (grant (if cf_require_approval cfg then cf_sign_in_secs cfg else 0) (cf_reuse_secs cfg)
      default_scope)"

definition watch_expire :: "config \<Rightarrow> outside \<Rightarrow> f64 \<Rightarrow> daemon \<Rightarrow> daemon" where
  "watch_expire cfg ou now st =
    (let (gone, left) = expire (gs_approved (dm_gate st)) (watch_plan_window cfg) now
     in st\<lparr>dm_gate := (dm_gate st)\<lparr>gs_approved := left\<rparr>,
           dm_cache := release (ou_scope_json ou) gone (dm_cache st)\<rparr>)"

definition watch_round :: "config \<Rightarrow> outside \<Rightarrow> screen \<Rightarrow> f64 \<Rightarrow> f64 \<Rightarrow> bool \<Rightarrow> daemon \<Rightarrow> daemon" where
  "watch_round cfg ou scr now later idle_gate st =
    (let st' = look_at_screen scr now st
     in if idle_gate then watch_expire cfg ou later st' else st')"

section \<open>Signing with our own key\<close>

text \<open>What one signature reads from outside, in the order it reads it.\<close>

record readings =
  rd_screen1 :: screen
  rd_now1 :: f64
  rd_now_decide :: f64
  rd_apple :: apple
  rd_screen2 :: screen
  rd_now2 :: f64
  rd_now_admit :: f64
  rd_wall :: "f64 option"
  rd_ms :: nat
  rd_log_io :: log_io

definition own_plan :: "config \<Rightarrow> enclave \<Rightarrow> scope \<Rightarrow> f64 \<Rightarrow> daemon \<Rightarrow> plan \<times> daemon" where
  "own_plan cfg e scope now st =
    (let (p, left) =
       decide (cf_require_approval cfg) (cf_sign_in_secs cfg) (cf_reuse_secs cfg)
         (en_ends_at_lock e) scope (gs_approved (dm_gate st)) now
     in (p, st\<lparr>dm_gate := (dm_gate st)\<lparr>gs_approved := left\<rparr>\<rparr>))"

definition own_key :: "outside \<Rightarrow> plan \<Rightarrow> string" where
  "own_key ou p = reach_key (ou_scope_json ou) (pl_reach p)"

definition own_release :: "outside \<Rightarrow> plan \<Rightarrow> daemon \<Rightarrow> daemon" where
  "own_release ou p st =
    (let c = release (ou_scope_json ou) (pl_expired p) (dm_cache st)
     in st\<lparr>dm_cache := (if pl_live p then c else enclave_forget (own_key ou p) c)\<rparr>)"

definition own_reason :: "config \<Rightarrow> attribution \<Rightarrow> plan \<Rightarrow> string" where
  "own_reason cfg who p =
    sheet_reason who (cf_sheet_reason cfg) (map_option ends_sheet (pl_signing_in p))"

definition own_sign ::
  "config \<Rightarrow> outside \<Rightarrow> enclave \<Rightarrow> apple \<Rightarrow> attribution \<Rightarrow> bytes \<Rightarrow> plan \<Rightarrow> daemon \<Rightarrow>
    (string, bytes) result \<times> la_event list \<times> daemon" where
  "own_sign cfg ou e ap who data p st =
    (case enclave_sign ap e data (own_reason cfg who p) (own_key ou p) (0 < pl_window p)
        (pl_unlock_reuse p) (cf_require_approval cfg) (pl_live p) (dm_cache st) of
       (res, ev, c) \<Rightarrow> (res, ev, st\<lparr>dm_cache := c\<rparr>))"

text \<open>The three endings: admitted, signed out meanwhile, failed.\<close>

definition own_admit :: "plan \<Rightarrow> u64 \<Rightarrow> f64 \<Rightarrow> daemon \<Rightarrow> bool \<times> daemon" where
  "own_admit p sign_outs now st =
    (case admit p sign_outs now (dm_gate st) of (ok, g) \<Rightarrow> (ok, st\<lparr>dm_gate := g\<rparr>))"

definition own_forget :: "outside \<Rightarrow> plan \<Rightarrow> daemon \<Rightarrow> daemon" where
  "own_forget ou p st = st\<lparr>dm_cache := enclave_forget (own_key ou p) (dm_cache st)\<rparr>"

definition sign_response :: "bytes \<Rightarrow> bytes" where
  "sign_response sig = writer_string sig (writer_u8 SIGN_RESPONSE writer_new)"

definition own_finish ::
  "outside \<Rightarrow> plan \<Rightarrow> u64 \<Rightarrow> f64 \<Rightarrow> (string, bytes) result \<Rightarrow> daemon \<Rightarrow> bytes \<times> string \<times> daemon" where
  "own_finish ou p sign_outs now made st =
    (case made of
       Inr sig \<Rightarrow>
         (case own_admit p sign_outs now st of
            (True, st') \<Rightarrow> (sign_response sig, ''ok'', st')
          | (False, st') \<Rightarrow> ([FAILURE], ''signed out while signing'', own_forget ou p st'))
     | Inl err \<Rightarrow>
         ([FAILURE], err,
          if \<not> pl_live p \<or> gs_sign_outs (dm_gate st) \<noteq> sign_outs then own_forget ou p st else st))"

text \<open>Everything under the sign gate, from the first look to the last.\<close>

definition own_turn ::
  "config \<Rightarrow> outside \<Rightarrow> enclave \<Rightarrow> readings \<Rightarrow> attribution \<Rightarrow> bytes \<Rightarrow> daemon \<Rightarrow>
    bytes \<times> string \<times> plan \<times> la_event list \<times> daemon" where
  "own_turn cfg ou e rd who data st =
    (let (refused, st1) = barred e (rd_screen1 rd) (rd_now1 rd) st;
         sign_outs = gs_sign_outs (dm_gate st1);
         (p, st2) = own_plan cfg e (scope_of (ou_os ou) who) (rd_now_decide rd) st1;
         st3 = own_release ou p st2;
         (made, ev, st4) =
           (case refused of
              Some why \<Rightarrow> (Inl why, [], st3)
            | None \<Rightarrow>
                (case own_sign cfg ou e (rd_apple rd) who data p st3 of
                   (res, ev, st') \<Rightarrow>
                     (case barred e (rd_screen2 rd) (rd_now2 rd) st' of
                        (Some why, st'') \<Rightarrow> (Inl why, ev, st'')
                      | (None, st'') \<Rightarrow> (res, ev, st''))));
         (reply, outcome, st5) = own_finish ou p sign_outs (rd_now_admit rd) made st4
     in (reply, outcome, p, ev, st5))"

definition own_event ::
  "config \<Rightarrow> outside \<Rightarrow> enclave \<Rightarrow> readings \<Rightarrow> attribution \<Rightarrow> string option \<Rightarrow> plan \<Rightarrow> string \<Rightarrow> event" where
  "own_event cfg ou e rd who bound p outcome =
    \<lparr>ev_ts = event_now (rd_wall rd), ev_kind = Sign, ev_who = who,
     ev_key_fp = Some (fingerprint ou (ssh_public_blob e)), ev_key_comment = Some (en_comment e),
     ev_upstream = Some ''Secure Enclave'', ev_bound_host_fp = bound,
     ev_scope = Some (scope_of (ou_os ou) who),
     ev_reused = (cf_require_approval cfg \<and> pl_live p),
     ev_sign_in = (pl_reach p = Everywhere), ev_outcome = outcome, ev_duration_ms = rd_ms rd\<rparr>"

definition log_event :: "outside \<Rightarrow> readings \<Rightarrow> event \<Rightarrow> daemon \<Rightarrow> daemon" where
  "log_event ou rd ev st =
    st\<lparr>dm_log := log_append (ou_event_json ou) (rd_log_io rd) ev (dm_log st)\<rparr>"

section \<open>Listing keys\<close>

text \<open>The maps and the list \<open>refresh_identities\<close> builds, from an upstream's index on.\<close>

record merged =
  mg_ids :: "(bytes \<times> string) list"
  mg_routes :: "bytes \<rightharpoonup> nat"
  mg_comments :: "bytes \<rightharpoonup> string"

definition merged_new :: merged where
  "merged_new = \<lparr>mg_ids = [], mg_routes = Map.empty, mg_comments = Map.empty\<rparr>"

fun merge_ids :: "nat \<Rightarrow> (bytes \<times> string) list \<Rightarrow> merged \<Rightarrow> merged" where
  "merge_ids idx [] m = m"
| "merge_ids idx ((blob, comment) # ids) m =
    (if mg_routes m blob \<noteq> None then merge_ids idx ids m
     else
       merge_ids idx ids
         \<lparr>mg_ids = mg_ids m @ [(blob, comment)], mg_routes = (mg_routes m)(blob \<mapsto> idx),
          mg_comments = (mg_comments m)(blob \<mapsto> comment)\<rparr>)"

fun merge_upstreams :: "net \<Rightarrow> nat \<Rightarrow> upstream list \<Rightarrow> merged \<Rightarrow> merged" where
  "merge_upstreams net idx [] m = m"
| "merge_upstreams net idx (up # ups) m =
    merge_upstreams net (Suc idx) ups
      (case identities net up of Inl _ \<Rightarrow> m | Inr ids \<Rightarrow> merge_ids idx ids m)"

definition refresh_identities :: "config \<Rightarrow> outside \<Rightarrow> daemon \<Rightarrow> (bytes \<times> string) list \<times> daemon" where
  "refresh_identities cfg ou st =
    (let m = merge_upstreams (ou_net ou) 0 (cf_upstreams cfg) merged_new
     in (mg_ids m, st\<lparr>dm_routes := mg_routes m, dm_comments := mg_comments m\<rparr>))"

definition list_event :: "attribution \<Rightarrow> readings \<Rightarrow> nat \<Rightarrow> event" where
  "list_event who rd n =
    \<lparr>ev_ts = event_now (rd_wall rd), ev_kind = ListIdentities, ev_who = who, ev_key_fp = None,
     ev_key_comment = None, ev_upstream = None, ev_bound_host_fp = None, ev_scope = None,
     ev_reused = False, ev_sign_in = False, ev_outcome = show_nat n @ '' keys'',
     ev_duration_ms = rd_ms rd\<rparr>"

definition is_self_probe :: "attribution \<Rightarrow> bool" where
  "is_self_probe who \<longleftrightarrow>
    (case at_process who of None \<Rightarrow> False | Some p \<Rightarrow> pi_name p = Some ''keywardd'')"

definition handle_request_identities ::
  "config \<Rightarrow> outside \<Rightarrow> readings \<Rightarrow> attribution \<Rightarrow> daemon \<Rightarrow> bytes \<times> daemon" where
  "handle_request_identities cfg ou rd who st =
    (let (ids, st1) = refresh_identities cfg ou st;
         ids = (case cf_enclave cfg of
                  None \<Rightarrow> ids
                | Some e \<Rightarrow> (ssh_public_blob e, en_comment e) # ids);
         st2 = (if cf_log_lists cfg \<and> \<not> is_self_probe who
                then log_event ou rd (list_event who rd (length ids)) st1 else st1)
     in (identities_answer ids, st2))"

section \<open>Signature requests\<close>

definition skip_u8 :: "bytes \<Rightarrow> reader" where
  "skip_u8 payload = snd (reader_u8 (reader_new payload))"

definition sign_blob :: "bytes \<Rightarrow> bytes option" where
  "sign_blob payload = fst (reader_string (skip_u8 payload))"

definition sign_data :: "bytes \<Rightarrow> bytes" where
  "sign_data payload =
    unwrap_or (fst (reader_string (snd (reader_string (skip_u8 payload))))) []"

definition handle_sign_own ::
  "config \<Rightarrow> outside \<Rightarrow> enclave \<Rightarrow> readings \<Rightarrow> attribution \<Rightarrow> string option \<Rightarrow> bytes \<Rightarrow> daemon \<Rightarrow>
    bytes \<times> la_event list \<times> daemon" where
  "handle_sign_own cfg ou e rd who bound data st =
    (case own_turn cfg ou e rd who data st of
       (reply, outcome, p, ev, st') \<Rightarrow>
         (reply, ev, log_event ou rd (own_event cfg ou e rd who bound p outcome) st'))"

definition upstream_event ::
  "outside \<Rightarrow> readings \<Rightarrow> attribution \<Rightarrow> string option \<Rightarrow> bytes \<Rightarrow> string option \<Rightarrow>
    string option \<Rightarrow> string \<Rightarrow> event" where
  "upstream_event ou rd who bound blob comment up_nm outcome =
    \<lparr>ev_ts = event_now (rd_wall rd), ev_kind = Sign, ev_who = who, ev_key_fp = Some (fingerprint ou blob),
     ev_key_comment = comment, ev_upstream = up_nm, ev_bound_host_fp = bound, ev_scope = None,
     ev_reused = False, ev_sign_in = False, ev_outcome = outcome, ev_duration_ms = rd_ms rd\<rparr>"

text \<open>How an error of the socket is worded in the log; the text of other errors is the OS's.\<close>

fun io_error_text :: "io_error \<Rightarrow> string" where
  "io_error_text WouldBlock = ''timeout''"
| "io_error_text TimedOut = ''timeout''"
| "io_error_text UnexpectedEof = ''error: failed to fill whole buffer''"
| "io_error_text (InvalidData msg) = ''error: '' @ msg"
| "io_error_text (OtherError msg) = ''error: '' @ msg"

definition forward_sign ::
  "outside \<Rightarrow> upstream option \<Rightarrow> bytes \<Rightarrow> bytes \<times> string option \<times> string" where
  "forward_sign ou up payload =
    (case up of
       None \<Rightarrow> ([FAILURE], None, ''no upstream holds this key'')
     | Some u \<Rightarrow>
         (case request (ou_net ou) u payload of
            Inr resp \<Rightarrow>
              (resp, Some (up_name u),
               if nth_opt resp 0 \<noteq> Some FAILURE then ''ok'' else ''denied'')
          | Inl e \<Rightarrow> ([FAILURE], Some (up_name u), io_error_text e)))"

definition handle_sign_upstream ::
  "config \<Rightarrow> outside \<Rightarrow> readings \<Rightarrow> attribution \<Rightarrow> string option \<Rightarrow> bytes \<Rightarrow> bytes \<Rightarrow> daemon \<Rightarrow>
    bytes \<times> daemon" where
  "handle_sign_upstream cfg ou rd who bound blob payload st =
    (let st1 = (if dm_routes st blob = None then snd (refresh_identities cfg ou st) else st);
         idx = dm_routes st1 blob;
         comment = (case dm_comments st1 blob of
                      None \<Rightarrow> None | Some c \<Rightarrow> if c = [] then None else Some c);
         up = (case idx of None \<Rightarrow> None | Some i \<Rightarrow> nth_opt (cf_upstreams cfg) i);
         (reply, up_nm, outcome) = forward_sign ou up payload
     in (reply,
         log_event ou rd (upstream_event ou rd who bound blob comment up_nm outcome) st1))"

definition handle_sign ::
  "config \<Rightarrow> outside \<Rightarrow> readings \<Rightarrow> attribution \<Rightarrow> string option \<Rightarrow> bytes \<Rightarrow> daemon \<Rightarrow>
    bytes \<times> la_event list \<times> daemon" where
  "handle_sign cfg ou rd who bound payload st =
    (case sign_blob payload of
       None \<Rightarrow> ([FAILURE], [], st)
     | Some blob \<Rightarrow>
         (case cf_enclave cfg of
            Some e \<Rightarrow>
              (if ssh_public_blob e = blob
               then handle_sign_own cfg ou e rd who bound (sign_data payload) st
               else (case handle_sign_upstream cfg ou rd who bound blob payload st of
                       (reply, st') \<Rightarrow> (reply, [], st')))
          | None \<Rightarrow>
              (case handle_sign_upstream cfg ou rd who bound blob payload st of
                 (reply, st') \<Rightarrow> (reply, [], st'))))"

section \<open>Extensions and connections\<close>

definition session_bind :: string where
  "session_bind = ''session-bind@openssh.com''"

definition bind_event :: "attribution \<Rightarrow> readings \<Rightarrow> string \<Rightarrow> event" where
  "bind_event who rd fp =
    \<lparr>ev_ts = event_now (rd_wall rd), ev_kind = SessionBind, ev_who = who, ev_key_fp = None,
     ev_key_comment = None, ev_upstream = None, ev_bound_host_fp = Some fp, ev_scope = None,
     ev_reused = False, ev_sign_in = False, ev_outcome = ''recorded'', ev_duration_ms = 0\<rparr>"

definition handle_extension ::
  "config \<Rightarrow> outside \<Rightarrow> readings \<Rightarrow> attribution \<Rightarrow> bytes \<Rightarrow> string option \<Rightarrow> daemon \<Rightarrow>
    bytes \<times> string option \<times> daemon" where
  "handle_extension cfg ou rd who payload bound st =
    (let (nm, r) = reader_string (skip_u8 payload);
         ext = (case nm of None \<Rightarrow> [] | Some n \<Rightarrow> from_utf8_lossy n)
     in if ext = session_bind then
          (case fst (reader_string r) of
             None \<Rightarrow> ([FAILURE], bound, st)
           | Some hostkey \<Rightarrow>
               let fp = fingerprint ou hostkey
               in if bound \<noteq> Some fp then
                    ([FAILURE], Some fp,
                     if cf_log_lists cfg then log_event ou rd (bind_event who rd fp) st else st)
                  else ([FAILURE], bound, st))
        else ([FAILURE], bound, st))"

text \<open>What one message is answered with, the host a connection is bound to, and the state.\<close>

definition dispatch ::
  "config \<Rightarrow> outside \<Rightarrow> readings \<Rightarrow> attribution \<Rightarrow> bytes \<Rightarrow> string option \<Rightarrow> daemon \<Rightarrow>
    bytes \<times> string option \<times> daemon" where
  "dispatch cfg ou rd who payload bound st =
    (let tag = payload ! 0
     in if tag = REQUEST_IDENTITIES then
          (case handle_request_identities cfg ou rd who st of (reply, st') \<Rightarrow> (reply, bound, st'))
        else if tag = SIGN_REQUEST then
          (case handle_sign cfg ou rd who bound payload st of (reply, _, st') \<Rightarrow> (reply, bound, st'))
        else if tag = EXTENSION then handle_extension cfg ou rd who payload bound st
        else ([FAILURE], bound, st))"

text \<open>
  \<open>serve\<close> over the bytes a client sends, until it stops, sends a length the protocol does
  not allow, or ends in the middle of a message: the frames written back, the host bound,
  and the state. The readings of the \<open>k\<close>-th message are \<open>rds k\<close>.
\<close>

function serve ::
  "config \<Rightarrow> outside \<Rightarrow> (nat \<Rightarrow> readings) \<Rightarrow> attribution \<Rightarrow> nat \<Rightarrow> bytes \<Rightarrow> string option \<Rightarrow>
    daemon \<Rightarrow> bytes list \<times> string option \<times> daemon" where
  "serve cfg ou rds who k stream bound st =
    (if length stream < 4 then ([], bound, st)
     else
       let n = be_length stream; rest = drop 4 stream
       in if n = 0 \<or> MAX_MSG < n \<or> length rest < n then ([], bound, st)
          else
            (case dispatch cfg ou (rds k) who (take n rest) bound st of
               (reply, bound', st') \<Rightarrow>
                 (case serve cfg ou rds who (Suc k) (drop n rest) bound' st' of
                    (replies, bound'', st'') \<Rightarrow> (frame reply # replies, bound'', st''))))"
  by pat_completeness auto
termination by (relation "measure (\<lambda>(_, _, _, _, _, stream, _, _). length stream)") auto

declare serve.simps [simp del]

definition MAX_CONNS :: nat where "MAX_CONNS = 512"

text \<open>A connection is accepted, or refused when too many are open; \<open>conn_done\<close> ends one.\<close>

definition conn_spawn :: "daemon \<Rightarrow> bool \<times> daemon" where
  "conn_spawn st =
    (if MAX_CONNS \<le> dm_conns st then (False, st) else (True, st\<lparr>dm_conns := dm_conns st + 1\<rparr>))"

definition conn_done :: "daemon \<Rightarrow> daemon" where
  "conn_done st = st\<lparr>dm_conns := dm_conns st - 1\<rparr>"

end
