(* ===== verification/Agent_Laws.thy ===== *)
theory Agent_Laws
  imports Agent
begin

text \<open>
  What the handlers of \<open>agent.rs\<close> promise: who a key is routed to and who is offered first,
  when a signature with our own key leaves the daemon, what the shim may still hold
  afterwards, that every signature is logged, and that a connection's messages are each
  answered once.
\<close>

section \<open>Routing\<close>

text \<open>Upstream \<open>i\<close> answered and listed the key.\<close>

definition lists_key :: "net \<Rightarrow> upstream list \<Rightarrow> nat \<Rightarrow> bytes \<Rightarrow> bool" where
  "lists_key net ups i b \<longleftrightarrow>
    i < length ups \<and>
    (case identities net (ups ! i) of Inl _ \<Rightarrow> False | Inr ids \<Rightarrow> b \<in> fst ` set ids)"

lemma merge_ids_routes:
  "mg_routes (merge_ids idx ids m) b =
    (case mg_routes m b of
       Some i \<Rightarrow> Some i | None \<Rightarrow> if b \<in> fst ` set ids then Some idx else None)"
  by (induction idx ids m rule: merge_ids.induct) (auto split: option.splits)

text \<open>The list holds each routed key once, with the comment kept for it.\<close>

definition merged_ok :: "merged \<Rightarrow> bool" where
  "merged_ok m \<longleftrightarrow>
    distinct (map fst (mg_ids m)) \<and> fst ` set (mg_ids m) = dom (mg_routes m) \<and>
    map_of (mg_ids m) = mg_comments m"

lemma merge_ids_ok: "merged_ok m \<Longrightarrow> merged_ok (merge_ids idx ids m)"
proof (induction idx ids m rule: merge_ids.induct)
  case (1 idx m)
  then show ?case by simp
next
  case (2 idx blob comment ids m)
  show ?case
  proof (cases "mg_routes m blob = None")
    case True
    then have new: "blob \<notin> fst ` set (mg_ids m)" using "2.prems" by (auto simp: merged_ok_def)
    then have none: "map_of (mg_ids m) blob = None" by (simp add: map_of_eq_None_iff)
    then have "map_of (mg_ids m @ [(blob, comment)]) = (map_of (mg_ids m))(blob \<mapsto> comment)"
      by (intro ext) (auto simp: map_add_def none split: option.splits)
    with True "2.prems" new have "merged_ok \<lparr>mg_ids = mg_ids m @ [(blob, comment)],
        mg_routes = (mg_routes m)(blob \<mapsto> idx), mg_comments = (mg_comments m)(blob \<mapsto> comment)\<rparr>"
      by (auto simp: merged_ok_def)
    with 2 True show ?thesis by simp
  next
    case False
    with 2 show ?thesis by simp
  qed
qed

lemma merge_upstreams_ok: "merged_ok m \<Longrightarrow> merged_ok (merge_upstreams net idx ups m)"
  by (induction net idx ups m rule: merge_upstreams.induct)
     (auto simp: merge_ids_ok split: sum.splits)

lemma merge_upstreams_routes:
  "mg_routes (merge_upstreams net idx ups m) b = Some i \<longleftrightarrow>
    mg_routes m b = Some i \<or>
    (mg_routes m b = None \<and> idx \<le> i \<and> lists_key net ups (i - idx) b \<and>
     (\<forall>j < i - idx. \<not> lists_key net ups j b))"
proof (induction ups arbitrary: idx m)
  case Nil
  then show ?case by (simp add: lists_key_def)
next
  case (Cons up ups)
  have shift: "lists_key net (up # ups) (Suc j) b = lists_key net ups j b" for j
    by (simp add: lists_key_def)
  have all: "(\<forall>j < Suc n. \<not> lists_key net (up # ups) j b) \<longleftrightarrow>
      \<not> lists_key net (up # ups) 0 b \<and> (\<forall>j < n. \<not> lists_key net ups j b)" for n
    using shift by (auto simp: less_Suc_eq_0_disj)
  let ?m = "case identities net up of Inl _ \<Rightarrow> m | Inr ids \<Rightarrow> merge_ids idx ids m"
  have m: "mg_routes ?m b = (case mg_routes m b of Some i \<Rightarrow> Some i
      | None \<Rightarrow> if lists_key net (up # ups) 0 b then Some idx else None)"
    by (auto simp: merge_ids_routes lists_key_def split: sum.splits option.splits)
  show ?case
  proof (cases "i \<le> idx")
    case True
    then have "i - idx = 0" by simp
    with True show ?thesis by (auto simp: Cons m split: option.splits)
  next
    case False
    then obtain n where n: "i - idx = Suc n" "i - Suc idx = n" by (metis Suc_diff_Suc not_le)
    with False show ?thesis by (auto simp: Cons m all shift split: option.splits)
  qed
qed

lemma merged_new_ok: "merged_ok merged_new"
  by (simp add: merged_ok_def merged_new_def)

text \<open>
  C23: A refresh routes every key to the first upstream, in the configured order, that
  answered and listed it, so no later agent can take a key over from an earlier one; the
  merged list offers each routed key exactly once and nothing else, and an upstream that
  does not answer takes nothing away from the others.
\<close>

theorem first_upstream_wins:
  assumes "refresh_identities cfg ou st = (ids, st')"
  shows "(dm_routes st' b = Some i \<longleftrightarrow>
      lists_key (ou_net ou) (cf_upstreams cfg) i b \<and>
      (\<forall>j < i. \<not> lists_key (ou_net ou) (cf_upstreams cfg) j b)) \<and>
    distinct (map fst ids) \<and> fst ` set ids = dom (dm_routes st') \<and> map_of ids = dm_comments st'"
  using assms merge_upstreams_routes [of "ou_net ou" 0 "cf_upstreams cfg" merged_new b i]
    merge_upstreams_ok [OF merged_new_ok, of "ou_net ou" 0 "cf_upstreams cfg"]
  by (auto simp: refresh_identities_def merged_new_def merged_ok_def Let_def)

text \<open>
  A client that lists keys is offered our own first, ahead of every key an upstream
  holds, and then exactly the keys of a fresh merge, in their order.
\<close>

lemma own_key_offered_first:
  assumes "cf_enclave cfg = Some e" and "refresh_identities cfg ou st = (ids, st1)"
    and "\<forall>i \<in> set ((ssh_public_blob e, en_comment e) # ids). identity_ok i"
    and "length (identities_answer ((ssh_public_blob e, en_comment e) # ids)) < 2 ^ 32"
  shows "parse_identities (fst (handle_request_identities cfg ou rd who st)) =
    (ssh_public_blob e, en_comment e) # ids"
proof -
  let ?ids = "(ssh_public_blob e, en_comment e) # ids"
  have "fst (handle_request_identities cfg ou rd who st) = identities_answer ?ids"
    using assms(1,2) by (simp add: handle_request_identities_def Let_def)
  moreover have "length ?ids < 2 ^ 32" "length (identities_answer ?ids) < 2 ^ 64"
    using answer_length [of ?ids] assms(4) by auto
  ultimately show ?thesis using parse_answer [OF assms(3)] by simp
qed

section \<open>What the shim may hold\<close>

text \<open>
  A JSON string has no NUL in it: \<open>serde_json\<close> escapes control characters.
\<close>

definition json_scopes :: "(scope \<Rightarrow> string option) \<Rightarrow> bool" where
  "json_scopes ser \<longleftrightarrow> (\<forall>s t. ser s = Some t \<longrightarrow> CHR 0x00 \<notin> set t)"

lemma reach_key_plain: "json_scopes ser \<Longrightarrow> c_str_or_empty (reach_key ser r) = reach_key ser r"
  by (auto simp: json_scopes_def c_str_or_empty_def reach_key_def split: reach.splits option.splits)

text \<open>
  Whatever is held, a context or a secret, is held for an approval that is recorded.
\<close>

definition held_for_approvals :: "(scope \<Rightarrow> string option) \<Rightarrow> approvals \<Rightarrow> la_cache \<Rightarrow> bool" where
  "held_for_approvals ser m c \<longleftrightarrow>
    (\<forall>k. cache_holds c k \<longrightarrow> (\<exists>r. map_of m r \<noteq> None \<and> k = reach_key ser r))"

definition gate_ok :: "outside \<Rightarrow> daemon \<Rightarrow> bool" where
  "gate_ok ou st \<longleftrightarrow>
    approvals_ok (gs_approved (dm_gate st)) \<and>
    held_for_approvals (ou_scope_json ou) (gs_approved (dm_gate st)) (dm_cache st)"

text \<open>Everything a request may have left: it may hold its own key besides.\<close>

definition gate_ok_but :: "outside \<Rightarrow> string \<Rightarrow> daemon \<Rightarrow> bool" where
  "gate_ok_but ou key st \<longleftrightarrow>
    approvals_ok (gs_approved (dm_gate st)) \<and>
    (\<forall>k. cache_holds (dm_cache st) k \<longrightarrow>
      k = key \<or> (\<exists>r. map_of (gs_approved (dm_gate st)) r \<noteq> None \<and> k = reach_key (ou_scope_json ou) r))"

lemma gate_ok_weaken: "gate_ok ou st \<Longrightarrow> gate_ok_but ou key st"
  by (auto simp: gate_ok_def gate_ok_but_def held_for_approvals_def)

lemma cache_holds_release:
  assumes "json_scopes ser"
  shows "cache_holds (release ser gone c) k \<longleftrightarrow> k \<notin> reach_key ser ` set gone \<and> cache_holds c k"
proof -
  have "release ser gone c = shim.forget_each (map (reach_key ser) gone) c"
    by (simp add: release_def shim.forget_each_def enclave_forget_def fold_map comp_def
        reach_key_plain [OF assms])
  then show ?thesis by (simp add: shim.holds_forget_each)
qed

lemma cache_holds_enclave_forget:
  "json_scopes ser \<Longrightarrow> cache_holds (enclave_forget (reach_key ser r) c) k \<longleftrightarrow>
    k \<noteq> reach_key ser r \<and> cache_holds c k"
  by (simp add: enclave_forget_def reach_key_plain shim.holds_forget)

lemma held_after_expire:
  assumes "json_scopes ser" and "approvals_ok m" and "held_for_approvals ser m c"
    and "expire m w now = (gone, left)"
  shows "approvals_ok left \<and> held_for_approvals ser left (release ser gone c)"
proof -
  have left: "left = drop_approvals (\<lambda>t0. w \<le> now - t0) m" and ok: "approvals_ok left"
    using expire_eq [OF assms(2), of w now] expire_ok [OF assms(2), of w now] assms(4) by simp_all
  have gone: "r \<in> set gone \<longleftrightarrow> (\<exists>t0. map_of m r = Some t0 \<and> w \<le> now - t0)" for r
    using expire_gone [OF assms(2), of r w now] assms(4) by simp
  have "\<exists>r. map_of left r \<noteq> None \<and> k = reach_key ser r"
    if "cache_holds (release ser gone c) k" for k
  proof -
    from that have k: "cache_holds c k" "k \<notin> reach_key ser ` set gone"
      by (simp_all add: cache_holds_release [OF assms(1)])
    then obtain r t where r: "map_of m r = Some t" "k = reach_key ser r"
      using assms(3) by (auto simp: held_for_approvals_def)
    with k gone have "\<not> w \<le> now - t" by auto
    with r have "map_of left r = Some t" by (simp add: left approved.granted_drop_Some assms(2))
    with r show ?thesis by auto
  qed
  with ok show ?thesis by (simp add: held_for_approvals_def)
qed

lemma sign_out_ok: "gate_ok ou (snd (sign_out st))"
  by (simp add: sign_out_def end_approvals_def gate_ok_def held_for_approvals_def Let_def
      approvals_ok_def enclave_forget_all_def shim.holds_forget_all)

lemma sign_out_ends:
  "gs_approved (dm_gate (snd (sign_out st))) = []"
  "\<not> cache_holds (dm_cache (snd (sign_out st))) k"
  "gs_sign_outs (dm_gate (snd (sign_out st))) = gs_sign_outs (dm_gate st) + 1"
  by (simp_all add: sign_out_def end_approvals_def enclave_forget_all_def shim.holds_forget_all Let_def)

lemma look_ok: "gate_ok ou st \<Longrightarrow> gate_ok ou (look_at_screen scr now st)"
  using sign_out_ok by (simp add: look_at_screen_def gate_ok_def Let_def)

lemma look_ok_but: "gate_ok_but ou key st \<Longrightarrow> gate_ok_but ou key (look_at_screen scr now st)"
  using gate_ok_weaken [OF sign_out_ok] by (simp add: look_at_screen_def gate_ok_but_def Let_def)

lemma barred_ok: "gate_ok ou st \<Longrightarrow> gate_ok ou (snd (barred e scr now st))"
  by (simp add: barred_def look_ok)

lemma barred_ok_but: "gate_ok_but ou key st \<Longrightarrow> gate_ok_but ou key (snd (barred e scr now st))"
  by (simp add: barred_def look_ok_but)

lemma watch_expire_ok:
  assumes "json_scopes (ou_scope_json ou)" and "gate_ok ou st"
  shows "gate_ok ou (watch_expire cfg ou now st)"
  using assms held_after_expire [OF assms(1)]
  by (auto simp: watch_expire_def gate_ok_def split: prod.splits)

section \<open>One signature with our own key\<close>

text \<open>
  What a request relies on after it has planned: a live approval is still recorded as long
  as nobody signed out, and without one nothing is held for it unless it is to be kept.
\<close>

definition plan_ok :: "outside \<Rightarrow> plan \<Rightarrow> u64 \<Rightarrow> daemon \<Rightarrow> bool" where
  "plan_ok ou p n st \<longleftrightarrow>
    (pl_live p \<longrightarrow> gs_sign_outs (dm_gate st) = n \<longrightarrow> map_of (gs_approved (dm_gate st)) (pl_reach p) \<noteq> None) \<and>
    (\<not> pl_live p \<longrightarrow> \<not> 0 < pl_window p \<longrightarrow> cache_holds (dm_cache st) (own_key ou p) \<longrightarrow>
      (\<exists>r. map_of (gs_approved (dm_gate st)) r \<noteq> None \<and> own_key ou p = reach_key (ou_scope_json ou) r))"

lemma own_plan_parts:
  assumes "own_plan cfg e scope now st = (p, st')"
  shows "decide (cf_require_approval cfg) (cf_sign_in_secs cfg) (cf_reuse_secs cfg)
      (en_ends_at_lock e) scope (gs_approved (dm_gate st)) now = (p, gs_approved (dm_gate st'))"
    and "dm_cache st' = dm_cache st" and "gs_sign_outs (dm_gate st') = gs_sign_outs (dm_gate st)"
    and "dm_looked st' = dm_looked st"
  using assms by (auto simp: own_plan_def Let_def split: prod.splits)

lemma own_release_gate [simp]: "dm_gate (own_release ou p st) = dm_gate st"
  "dm_looked (own_release ou p st) = dm_looked st"
  by (simp_all add: own_release_def Let_def)

lemma own_plan_release_ok:
  assumes ser: "json_scopes (ou_scope_json ou)" and ok: "gate_ok ou st"
    and pl: "own_plan cfg e scope now st = (p, st')"
  shows "gate_ok ou (own_release ou p st')"
    and "plan_ok ou p (gs_sign_outs (dm_gate st)) (own_release ou p st')"
    and "\<not> pl_live p \<Longrightarrow> \<not> cache_holds (dm_cache (own_release ou p st')) (own_key ou p)"
proof -
  note d = own_plan_parts [OF pl]
  have m: "approvals_ok (gs_approved (dm_gate st))" using ok by (simp add: gate_ok_def)
  have e: "expire (gs_approved (dm_gate st)) (pl_window p) now = (pl_expired p, gs_approved (dm_gate st'))"
    using decide_parts(2,3) [OF d(1)] by (simp add: prod_eq_iff)
  have r: "approvals_ok (gs_approved (dm_gate st')) \<and>
      held_for_approvals (ou_scope_json ou) (gs_approved (dm_gate st'))
        (release (ou_scope_json ou) (pl_expired p) (dm_cache st))"
    using held_after_expire [OF ser m _ e, of "dm_cache st"] ok by (simp add: gate_ok_def)
  show "gate_ok ou (own_release ou p st')"
    using r by (auto simp: gate_ok_def held_for_approvals_def own_release_def Let_def d(2) own_key_def
        cache_holds_enclave_forget [OF ser])
  show nl: "\<not> pl_live p \<Longrightarrow> \<not> cache_holds (dm_cache (own_release ou p st')) (own_key ou p)"
    by (simp add: own_release_def Let_def own_key_def cache_holds_enclave_forget [OF ser])
  have "pl_live p \<Longrightarrow> map_of (gs_approved (dm_gate st')) (pl_reach p) \<noteq> None"
    using decide_parts(4) [OF d(1)] by (auto simp: reuse_covers_iff)
  then show "plan_ok ou p (gs_sign_outs (dm_gate st)) (own_release ou p st')"
    using nl by (auto simp: plan_ok_def)
qed

lemma own_sign_gate:
  assumes "own_sign cfg ou e ap who data p st = (res, ev, st')"
  shows "dm_gate st' = dm_gate st" and "dm_looked st' = dm_looked st"
  using assms by (auto simp: own_sign_def split: prod.splits)

text \<open>The call of the shim a signature makes.\<close>

definition own_req :: "config \<Rightarrow> outside \<Rightarrow> enclave \<Rightarrow> attribution \<Rightarrow> bytes \<Rightarrow> plan \<Rightarrow> sign_req" where
  "own_req cfg ou e who data p =
    \<lparr>sr_blob = en_blob e, sr_msg = data, sr_text = c_str_or_empty (own_reason cfg who p),
     sr_hold = (0 < pl_window p), sr_unlock = pl_unlock_reuse p,
     sr_scope = c_str_or_empty (own_key ou p), sr_approve = cf_require_approval cfg,
     sr_riding = pl_live p, sr_cap = 256\<rparr>"

lemma own_sign_cache:
  assumes "own_sign cfg ou e ap who data p st = (res, ev, st')"
  shows "dm_cache st' = cache_after_sign ap (own_req cfg ou e who data p) (dm_cache st)"
    and "ev = fst (snd (kwse_call ap (own_req cfg ou e who data p) (dm_cache st)))"
  using assms
  by (auto simp: own_sign_def enclave_sign_def own_req_def cache_after_sign_def Let_def split: prod.splits)

lemma own_sign_holds:
  assumes "json_scopes (ou_scope_json ou)" and "own_sign cfg ou e ap who data p st = (res, ev, st')"
    and "cache_holds (dm_cache st') k"
  shows "cache_holds (dm_cache st) k \<or> (k = own_key ou p \<and> 0 < pl_window p)"
  using shim.sign_holds [of ap "own_req cfg ou e who data p" "dm_cache st" k] assms(3)
  unfolding own_sign_cache(1) [OF assms(2)]
  by (simp add: own_req_def own_key_def reach_key_plain [OF assms(1)])

lemma own_sign_ok:
  assumes "json_scopes (ou_scope_json ou)" and "gate_ok ou st" and "plan_ok ou p n st"
    and "own_sign cfg ou e ap who data p st = (res, ev, st')"
  shows "gate_ok_but ou (own_key ou p) st'" and "plan_ok ou p n st'"
proof -
  note g = own_sign_gate [OF assms(4)] and h = own_sign_holds [OF assms(1,4)]
  show "gate_ok_but ou (own_key ou p) st'"
    using assms(2) h by (fastforce simp: gate_ok_def gate_ok_but_def held_for_approvals_def g)
  show "plan_ok ou p n st'"
    using assms(3) h by (auto simp: plan_ok_def g)
qed

lemma look_plan_ok:
  assumes "plan_ok ou p n st" and "gs_sign_outs (dm_gate st) = n"
  shows "plan_ok ou p n (look_at_screen scr now st)"
  using assms sign_out_ends by (auto simp: look_at_screen_def plan_ok_def Let_def)

lemma own_finish_ok:
  assumes ser: "json_scopes (ou_scope_json ou)" and ok: "gate_ok_but ou (own_key ou p) st"
    and pl: "plan_ok ou p n st"
    and fin: "own_finish ou p n now made st = (reply, outcome, st')"
  shows "gate_ok ou st'"
proof -
  have f: "gate_ok ou (own_forget ou p s)" if "gate_ok_but ou (own_key ou p) s" for s
    using that by (auto simp: gate_ok_def gate_ok_but_def own_forget_def held_for_approvals_def own_key_def
        cache_holds_enclave_forget [OF ser])
  have live: "gate_ok ou st" if "pl_live p" "gs_sign_outs (dm_gate st) = n"
    using that ok pl by (auto simp: gate_ok_def gate_ok_but_def held_for_approvals_def plan_ok_def own_key_def)
  show ?thesis
  proof (cases made)
    case (Inl err)
    with fin f [OF ok] live show ?thesis
      by (auto simp: own_finish_def split: if_splits)
  next
    case (Inr sig)
    show ?thesis
    proof (cases "gs_sign_outs (dm_gate st) = n")
      case False
      with Inr fin f [OF ok] show ?thesis
        by (auto simp: own_finish_def own_admit_def admit_def)
    next
      case True
      have st': "st' = st\<lparr>dm_gate := (dm_gate st)\<lparr>gs_approved := opened (gs_approved (dm_gate st)) p now\<rparr>\<rparr>"
        using True Inr fin by (auto simp: own_finish_def own_admit_def admit_def)
      have m: "approvals_ok (gs_approved (dm_gate st))" using ok by (simp add: gate_ok_but_def)
      have opened: "map_of (opened (gs_approved (dm_gate st)) p now) r =
          (if \<not> pl_live p \<and> 0 < pl_window p \<and> r = pl_reach p then Some now
           else map_of (gs_approved (dm_gate st)) r)" for r
        by (simp add: opened_def approved.granted_record [OF m])
      have kept: "map_of (opened (gs_approved (dm_gate st)) p now) r \<noteq> None"
        if "map_of (gs_approved (dm_gate st)) r \<noteq> None" for r
        using that by (simp add: opened)
      have "\<exists>r. map_of (opened (gs_approved (dm_gate st)) p now) r \<noteq> None \<and> k = reach_key (ou_scope_json ou) r"
        if k: "cache_holds (dm_cache st) k" for k
      proof (cases "k = own_key ou p \<and> (pl_live p \<or> 0 < pl_window p)")
        case own: True
        have "map_of (opened (gs_approved (dm_gate st)) p now) (pl_reach p) \<noteq> None"
        proof (cases "pl_live p")
          case True
          with pl \<open>gs_sign_outs (dm_gate st) = n\<close> kept show ?thesis by (simp add: plan_ok_def)
        next
          case False
          with own show ?thesis by (simp add: opened)
        qed
        with own show ?thesis by (auto simp: own_key_def)
      next
        case False
        with k ok pl have "\<exists>r. map_of (gs_approved (dm_gate st)) r \<noteq> None \<and> k = reach_key (ou_scope_json ou) r"
          by (auto simp: gate_ok_but_def plan_ok_def)
        with kept show ?thesis by blast
      qed
      then show ?thesis
        using opened_ok [OF m, of p now] by (simp add: gate_ok_def held_for_approvals_def st')
    qed
  qed
qed

text \<open>A turn, taken apart: refused before the enclave was asked, or signed and looked at again.\<close>

lemma own_turn_cases:
  assumes "own_turn cfg ou e rd who data st = (reply, outcome, p, ev, st5)"
  obtains (refused) why st1 st2 where
      "barred e (rd_screen1 rd) (rd_now1 rd) st = (Some why, st1)"
      "own_plan cfg e (scope_of (ou_os ou) who) (rd_now_decide rd) st1 = (p, st2)" "ev = []"
      "own_finish ou p (gs_sign_outs (dm_gate st1)) (rd_now_admit rd) (Inl why) (own_release ou p st2) =
        (reply, outcome, st5)"
  | (asked) st1 st2 res st' again st4 where
      "barred e (rd_screen1 rd) (rd_now1 rd) st = (None, st1)"
      "own_plan cfg e (scope_of (ou_os ou) who) (rd_now_decide rd) st1 = (p, st2)"
      "own_sign cfg ou e (rd_apple rd) who data p (own_release ou p st2) = (res, ev, st')"
      "barred e (rd_screen2 rd) (rd_now2 rd) st' = (again, st4)"
      "own_finish ou p (gs_sign_outs (dm_gate st1)) (rd_now_admit rd)
        (case again of None \<Rightarrow> res | Some why \<Rightarrow> Inl why) st4 = (reply, outcome, st5)"
proof -
  obtain r st1 where b: "barred e (rd_screen1 rd) (rd_now1 rd) st = (r, st1)"
    by (cases "barred e (rd_screen1 rd) (rd_now1 rd) st")
  obtain q st2 where pl: "own_plan cfg e (scope_of (ou_os ou) who) (rd_now_decide rd) st1 = (q, st2)"
    by (cases "own_plan cfg e (scope_of (ou_os ou) who) (rd_now_decide rd) st1")
  show thesis
  proof (cases r)
    case (Some why)
    with assms b pl have "q = p" "ev = []"
      "own_finish ou q (gs_sign_outs (dm_gate st1)) (rd_now_admit rd) (Inl why) (own_release ou q st2) =
        (reply, outcome, st5)"
      by (auto simp: own_turn_def Let_def split: prod.splits)
    with b pl Some show ?thesis using refused by blast
  next
    case None
    obtain res ev' st' where sg: "own_sign cfg ou e (rd_apple rd) who data q (own_release ou q st2) = (res, ev', st')"
      by (cases "own_sign cfg ou e (rd_apple rd) who data q (own_release ou q st2)") auto
    obtain again st4 where b2: "barred e (rd_screen2 rd) (rd_now2 rd) st' = (again, st4)"
      by (cases "barred e (rd_screen2 rd) (rd_now2 rd) st'")
    from assms b pl None sg b2 have "q = p" "ev' = ev"
      "own_finish ou q (gs_sign_outs (dm_gate st1)) (rd_now_admit rd)
        (case again of None \<Rightarrow> res | Some why \<Rightarrow> Inl why) st4 = (reply, outcome, st5)"
      by (cases again; auto simp: own_turn_def Let_def split: prod.splits)+
    with b pl None sg b2 show ?thesis using asked by blast
  qed
qed

lemma barred_plan_ok:
  "plan_ok ou p n st \<Longrightarrow> gs_sign_outs (dm_gate st) = n \<Longrightarrow> plan_ok ou p n (snd (barred e scr now st))"
  by (simp add: barred_def look_plan_ok)

lemma own_turn_ok:
  assumes ser: "json_scopes (ou_scope_json ou)" and ok: "gate_ok ou st"
    and turn: "own_turn cfg ou e rd who data st = (reply, outcome, p, ev, st5)"
  shows "gate_ok ou st5"
  using turn
proof (cases rule: own_turn_cases)
  case (refused why st1 st2)
  have "gate_ok ou st1" using barred_ok [OF ok] refused(1) by (metis snd_conv)
  note r = own_plan_release_ok [OF ser this refused(2)]
  show ?thesis by (rule own_finish_ok [OF ser gate_ok_weaken [OF r(1)] r(2) refused(4)])
next
  case (asked st1 st2 res st' again st4)
  have "gate_ok ou st1" using barred_ok [OF ok] asked(1) by (metis snd_conv)
  note r = own_plan_release_ok [OF ser this asked(2)]
  note s = own_sign_ok [OF ser r(1,2) asked(3)]
  have n: "gs_sign_outs (dm_gate st') = gs_sign_outs (dm_gate st1)"
    using own_sign_gate(1) [OF asked(3)] own_plan_parts(3) [OF asked(2)] by simp
  have "gate_ok_but ou (own_key ou p) st4"
    using barred_ok_but [OF s(1)] asked(4) by (metis snd_conv)
  moreover have "plan_ok ou p (gs_sign_outs (dm_gate st1)) st4"
    using barred_plan_ok [OF s(2) n] asked(4) by (metis snd_conv)
  ultimately show ?thesis by (rule own_finish_ok [OF ser _ _ asked(5)])
qed

lemma log_event_gate [simp]:
  "dm_gate (log_event ou rd ev st) = dm_gate st" "dm_cache (log_event ou rd ev st) = dm_cache st"
  "gate_ok ou (log_event ou rd ev st) = gate_ok ou st"
  by (simp_all add: log_event_def gate_ok_def)

lemma refresh_gate:
  "dm_gate (snd (refresh_identities cfg ou st)) = dm_gate st"
  "dm_cache (snd (refresh_identities cfg ou st)) = dm_cache st"
  by (simp_all add: refresh_identities_def Let_def)

lemma handle_list_gate:
  "dm_gate (snd (handle_request_identities cfg ou rd who st)) = dm_gate st"
  "dm_cache (snd (handle_request_identities cfg ou rd who st)) = dm_cache st"
  using refresh_gate [of cfg ou st]
  by (auto simp: handle_request_identities_def Let_def split: prod.splits)

lemma handle_upstream_gate:
  "dm_gate (snd (handle_sign_upstream cfg ou rd who bound blob payload st)) = dm_gate st"
  "dm_cache (snd (handle_sign_upstream cfg ou rd who bound blob payload st)) = dm_cache st"
  using refresh_gate [of cfg ou st]
  by (auto simp: handle_sign_upstream_def Let_def split: prod.splits)

lemma handle_extension_gate:
  "dm_gate (snd (snd (handle_extension cfg ou rd who payload bound st))) = dm_gate st"
  "dm_cache (snd (snd (handle_extension cfg ou rd who payload bound st))) = dm_cache st"
  by (auto simp: handle_extension_def Let_def split: prod.splits option.splits)

lemma handle_sign_ok:
  assumes "json_scopes (ou_scope_json ou)" and "gate_ok ou st"
  shows "gate_ok ou (snd (snd (handle_sign cfg ou rd who bound payload st)))"
proof -
  have up: "gate_ok ou (snd (handle_sign_upstream cfg ou rd who bound blob payload st))" for blob
    using assms(2) by (simp add: gate_ok_def handle_upstream_gate)
  have own: "gate_ok ou (snd (snd (handle_sign_own cfg ou e rd who bound data st)))" for e data
    using own_turn_ok [OF assms, of cfg e rd who data]
    by (auto simp: handle_sign_own_def split: prod.splits)
  show ?thesis
    using up own assms(2) by (simp add: handle_sign_def case_prod_beta split: option.splits)
qed

text \<open>
  Nothing is held without an approval, and nothing escapes one: whatever messages a
  connection sends and however often the watch looks between signatures, every context
  and every secret the shim holds belongs to an approval that is recorded, so ending the
  approvals ends all that could sign without asking.
\<close>

lemma held_only_for_approvals:
  assumes "json_scopes (ou_scope_json ou)" and "gate_ok ou st"
  shows "gate_ok ou (snd (snd (dispatch cfg ou rd who payload bound st))) \<and>
    gate_ok ou (watch_round cfg ou scr now later idle_gate st)"
proof -
  have "gate_ok ou (snd (snd (dispatch cfg ou rd who payload bound st)))"
    using assms handle_sign_ok [OF assms, of cfg rd who bound payload]
    by (simp add: dispatch_def case_prod_beta gate_ok_def handle_list_gate handle_extension_gate
        Let_def)
  moreover have "gate_ok ou (watch_round cfg ou scr now later idle_gate st)"
    using look_ok [OF assms(2)] watch_expire_ok [OF assms(1)]
    by (simp add: watch_round_def Let_def)
  ultimately show ?thesis by blast
qed

text \<open>A machine for the witnesses: no upstreams, our own sign-in key, an owner who is willing.\<close>

definition test_outside :: outside where
  "test_outside =
    \<lparr>ou_os = quiet_os, ou_net = (\<lambda>_ _. Inl TimedOut), ou_scope_json = (\<lambda>_. Some ''{}''),
     ou_event_json = (\<lambda>_. Some ''{}''), ou_sha256 = (\<lambda>b. b), ou_base64 = (\<lambda>_. ''x'')\<rparr>"

definition test_enclave :: enclave where
  "test_enclave =
    \<lparr>en_blob = sign_in_key_data example_key, en_point = [4], en_comment = ''mac@keyward'',
     en_ends_at_lock = True\<rparr>"

definition test_config :: config where
  "test_config =
    \<lparr>cf_enclave = Some test_enclave, cf_upstreams = [], cf_log_lists = False,
     cf_sign_in_secs = Fin 21600, cf_reuse_secs = 0, cf_require_approval = True, cf_sheet_reason = []\<rparr>"

definition test_daemon :: daemon where
  "test_daemon =
    \<lparr>dm_gate = \<lparr>gs_approved = [], gs_sign_outs = 0\<rparr>,
     dm_looked = \<lparr>lk_at = Fin 99, lk_saw = Unlocked\<rparr>, dm_cache = empty_cache,
     dm_routes = Map.empty, dm_comments = Map.empty, dm_log = log_new None None 1000, dm_conns = 0\<rparr>"

definition test_readings :: readings where
  "test_readings =
    \<lparr>rd_screen1 = Unlocked, rd_now1 = Fin 100, rd_now_decide = Fin 100, rd_apple = willing,
     rd_screen2 = Unlocked, rd_now2 = Fin 102, rd_now_admit = Fin 102, rd_wall = Some 0, rd_ms = 0,
     rd_log_io = io_fine\<rparr>"

lemma test_json: "json_scopes (ou_scope_json test_outside)"
  by (simp add: json_scopes_def test_outside_def)

lemma test_gate: "gate_ok test_outside test_daemon"
  by (simp add: gate_ok_def test_daemon_def held_for_approvals_def approvals_ok_def empty_cache_def
      cache_holds_def)

theorem held_only_for_approvals_witness:
  "gate_ok test_outside
    (snd (snd (dispatch test_config test_outside test_readings nobody [FAILURE] None test_daemon)))"
  using held_only_for_approvals [OF test_json test_gate] by blast

section \<open>When a signature leaves the daemon\<close>

lemma sign_response_head: "sign_response sig \<noteq> [FAILURE]" "nth_opt (sign_response sig) 0 = Some SIGN_RESPONSE"
  by (simp_all add: sign_response_def writer_string_def writer_u32_def writer_u8_def writer_new_def
      FAILURE_def SIGN_RESPONSE_def nth_append)

lemma own_finish_reply:
  assumes "own_finish ou p n now made st = (reply, outcome, st')"
  obtains (signed) sig where "made = Inr sig" "reply = sign_response sig" "outcome = ''ok''"
      "gs_sign_outs (dm_gate st) = n"
      "st' = st\<lparr>dm_gate := (dm_gate st)\<lparr>gs_approved := opened (gs_approved (dm_gate st)) p now\<rparr>\<rparr>"
  | (late) sig where "made = Inr sig" "reply = [FAILURE]" "outcome = ''signed out while signing''"
      "gs_sign_outs (dm_gate st) \<noteq> n" "st' = own_forget ou p st"
  | (failed) err where "made = Inl err" "reply = [FAILURE]" "outcome = err"
      "st' = (if \<not> pl_live p \<or> gs_sign_outs (dm_gate st) \<noteq> n then own_forget ou p st else st)"
  using assms
  by (cases made; cases "gs_sign_outs (dm_gate st) = n")
     (auto simp: own_finish_def own_admit_def admit_def)

lemma look_sign_outs:
  "gs_sign_outs (dm_gate (look_at_screen scr now st)) = gs_sign_outs (dm_gate st) \<longleftrightarrow>
    \<not> calls_sign_out scr (dm_looked st) now"
  by (simp add: look_at_screen_def Let_def sign_out_ends)

lemma look_looked: "dm_looked (look_at_screen scr now st) = \<lparr>lk_at = now, lk_saw = scr\<rparr>"
  by (simp add: look_at_screen_def sign_out_def Let_def split: prod.splits)


lemma test_plan:
  "own_plan test_config test_enclave scope (Fin 100) (look_at_screen Unlocked (Fin 100) test_daemon) =
    (\<lparr>pl_reach = Everywhere, pl_window = Fin 21600, pl_live = False, pl_expired = [],
      pl_signing_in = Some (AtScreenLock (Fin 21600)), pl_unlock_reuse = 0\<rparr>,
     test_daemon\<lparr>dm_looked := \<lparr>lk_at = Fin 100, lk_saw = Unlocked\<rparr>\<rparr>)"
  by (simp add: own_plan_def decide_def test_config_def test_enclave_def look_at_screen_def
      calls_sign_out_def unseen_def test_daemon_def expire_def reuse_covers_def grant_def
      zero_f64_def Let_def)

lemma test_sign:
  assumes "pl_reach p = Everywhere" and "0 < pl_window p" and "\<not> pl_live p"
    and "lc_secrets (dm_cache st) = Map.empty"
  shows "\<exists>ev st'. own_sign test_config test_outside test_enclave willing who d p st =
    (Inr (ssh_ecdsa_signature (replicate 32 1) (replicate 32 1)), ev, st')"
proof -
  have p: "sign_in_key_parse (en_blob test_enclave) = Some example_key"
    using example_parse by (simp add: test_enclave_def example_req_def)
  show ?thesis
    using assms
    by (simp add: own_sign_def enclave_sign_def kwse_call_def kwse_sign_def p sign_in_def own_key_def
        reach_key_def cache_secret_def new_context_def release_secret_def willing_def
        sign_result_def signed_out_def store_out_def sign_with_secret_def c_str_or_empty_def test_config_def
        Let_def numeral_eq_Suc)
qed

lemma test_turn:
  "\<exists>p ev st'. own_turn test_config test_outside test_enclave test_readings nobody [9] test_daemon =
    (sign_response (ssh_ecdsa_signature (replicate 32 1) (replicate 32 1)), ''ok'', p, ev, st')"
proof -
  define p where "p = \<lparr>pl_reach = Everywhere, pl_window = Fin 21600, pl_live = False, pl_expired = [],
      pl_signing_in = Some (AtScreenLock (Fin 21600)), pl_unlock_reuse = 0\<rparr>"
  define st2 where "st2 = test_daemon\<lparr>dm_looked := \<lparr>lk_at = Fin 100, lk_saw = Unlocked\<rparr>\<rparr>"
  have b: "barred test_enclave Unlocked (Fin 100) test_daemon = (None, look_at_screen Unlocked (Fin 100) test_daemon)"
    by (simp add: barred_def test_enclave_def)
  have pl: "own_plan test_config test_enclave scope (Fin 100)
      (look_at_screen Unlocked (Fin 100) test_daemon) = (p, st2)" for scope
    by (simp add: test_plan p_def st2_def)
  have n: "gs_sign_outs (dm_gate (look_at_screen Unlocked (Fin 100) test_daemon)) = 0"
    by (simp add: look_at_screen_def calls_sign_out_def unseen_def test_daemon_def)
  have "lc_secrets (dm_cache (own_release test_outside p st2)) = Map.empty"
    by (simp add: own_release_def p_def st2_def test_daemon_def empty_cache_def release_def
        enclave_forget_def cache_forget_def Let_def)
  moreover have "pl_reach p = Everywhere" "0 < pl_window p" "\<not> pl_live p"
    by (simp_all add: p_def zero_f64_def)
  ultimately obtain ev s3 where sg: "own_sign test_config test_outside test_enclave willing nobody [9] p
      (own_release test_outside p st2) =
      (Inr (ssh_ecdsa_signature (replicate 32 1) (replicate 32 1)), ev, s3)"
    using test_sign by blast
  have s3: "dm_gate s3 = dm_gate test_daemon" "lk_at (dm_looked s3) = Fin 100"
    using own_sign_gate [OF sg] by (simp_all add: st2_def)
  then have b2: "\<exists>s4. barred test_enclave Unlocked (Fin 102) s3 = (None, s4) \<and> gs_sign_outs (dm_gate s4) = 0"
    by (simp add: barred_def test_enclave_def look_at_screen_def calls_sign_out_def unseen_def
        test_daemon_def Let_def)
  then show ?thesis
    using b pl n sg
    by (auto simp: own_turn_def test_readings_def own_finish_def own_admit_def admit_def Let_def)
qed


text \<open>
  C11: On a screen that is not unlocked a sign-in key is not even asked: the request fails
  with the reason, no prompt is raised, no secret is released, nothing is signed, and
  afterwards nobody is signed in anywhere.
\<close>

theorem locked_screen_signs_out:
  assumes "en_ends_at_lock e" and "rd_screen1 rd \<noteq> Unlocked"
    and "own_turn cfg ou e rd who data st = (reply, outcome, p, ev, st')"
    and "json_scopes (ou_scope_json ou)"
  shows "reply = [FAILURE] \<and> refusal (rd_screen1 rd) = Some outcome \<and> ev = [] \<and>
    gs_approved (dm_gate st') = [] \<and> (\<forall>k. \<not> cache_holds (dm_cache st') k)"
  using assms(3)
proof (cases rule: own_turn_cases)
  case (refused why st1 st2)
  have why: "refusal (rd_screen1 rd) = Some why" and st1: "st1 = look_at_screen (rd_screen1 rd) (rd_now1 rd) st"
    using refused(1) assms(1) by (simp_all add: barred_def)
  have "gs_approved (dm_gate st1) = []" "\<not> cache_holds (dm_cache st1) k" for k
    using sign_out_ends assms(2) by (simp_all add: st1 look_at_screen_def calls_sign_out_def Let_def)
  note out = this
  have g: "gs_approved (dm_gate st2) = []"
    using decide_parts(3) [OF own_plan_parts(1) [OF refused(2)]] out(1) by (simp add: expire_def)
  have c: "\<not> cache_holds (dm_cache (own_release ou p st2)) k" for k
    using out(2) own_plan_parts(2) [OF refused(2)]
    by (simp add: own_release_def Let_def cache_holds_release [OF assms(4)] own_key_def
        cache_holds_enclave_forget [OF assms(4)])
  then have "\<not> cache_holds (dm_cache (own_forget ou p (own_release ou p st2))) k" for k
    by (simp add: own_forget_def own_key_def cache_holds_enclave_forget [OF assms(4)])
  with refused(4) c g why refused(3) show ?thesis
    by (cases rule: own_finish_reply) (auto simp: own_forget_def)
next
  case (asked st1 st2 res s' again st4)
  with assms(1,2) show ?thesis by (simp add: barred_def)
qed

theorem locked_screen_signs_out_witness:
  "\<exists>p ev st'. own_turn test_config test_outside test_enclave
      (test_readings\<lparr>rd_screen1 := Locked\<rparr>) nobody [9] test_daemon =
    ([FAILURE], ''screen locked'', p, ev, st') \<and> gs_approved (dm_gate st') = []"
proof -
  obtain reply outcome p ev st' where t: "own_turn test_config test_outside test_enclave
      (test_readings\<lparr>rd_screen1 := Locked\<rparr>) nobody [9] test_daemon = (reply, outcome, p, ev, st')"
    by (cases "own_turn test_config test_outside test_enclave
      (test_readings\<lparr>rd_screen1 := Locked\<rparr>) nobody [9] test_daemon") auto
  have "en_ends_at_lock test_enclave" "rd_screen1 (test_readings\<lparr>rd_screen1 := Locked\<rparr>) \<noteq> Unlocked"
    by (simp_all add: test_enclave_def)
  from locked_screen_signs_out [OF this t test_json] t show ?thesis by auto
qed

section \<open>A request that rides\<close>


definition signed_in_daemon :: daemon where
  "signed_in_daemon = test_daemon
    \<lparr>dm_gate := \<lparr>gs_approved = [(Everywhere, Fin 50)], gs_sign_outs = 0\<rparr>,
     dm_cache := cache_keep ''everywhere'' [7] empty_cache\<rparr>"


section \<open>Every signature is logged\<close>

definition fails :: "bytes \<Rightarrow> bool" where
  "fails reply \<longleftrightarrow> nth_opt reply 0 = Some FAILURE"

lemma fails_simps: "fails [FAILURE]" "\<not> fails (sign_response sig)"
  using sign_response_head(2) [of sig] by (simp_all add: fails_def FAILURE_def SIGN_RESPONSE_def)

lemma refusal_not_ok: "refusal s \<noteq> Some ''ok''"
  by (cases s) simp_all

lemma enclave_sign_not_ok: "fst (enclave_sign ap e d r k h u a l c) \<noteq> Inl ''ok''"
  by (auto simp: enclave_sign_def sign_result_def Let_def split: prod.splits)

lemma own_turn_outcome:
  assumes "own_turn cfg ou e rd who data st = (reply, outcome, p, ev, st')"
  shows "outcome = ''ok'' \<longleftrightarrow> \<not> fails reply"
  using assms
proof (cases rule: own_turn_cases)
  case (refused why st1 st2)
  have "why \<noteq> ''ok''" using refused(1) refusal_not_ok by (auto simp: barred_def split: if_splits)
  with refused(4) show ?thesis by (cases rule: own_finish_reply) (auto simp: fails_simps)
next
  case (asked st1 st2 res s' again st4)
  have "again \<noteq> Some ''ok''" using asked(4) refusal_not_ok by (auto simp: barred_def split: if_splits)
  moreover have "res \<noteq> Inl ''ok''"
    using asked(3) enclave_sign_not_ok by (auto simp: own_sign_def split: prod.splits) (metis fst_conv)
  ultimately have "(case again of None \<Rightarrow> res | Some why \<Rightarrow> Inl why) \<noteq> Inl ''ok''"
    by (auto split: option.splits)
  with asked(5) show ?thesis by (cases rule: own_finish_reply) (auto simp: fails_simps)
qed

lemma io_error_not_ok: "io_error_text e \<noteq> ''ok''"
  by (cases e) simp_all

lemma forward_outcome:
  assumes "forward_sign ou up payload = (reply, nm, outcome)"
  shows "outcome = ''ok'' \<longleftrightarrow> \<not> fails reply"
  using assms
  by (auto simp: forward_sign_def fails_def nth_opt_def io_error_not_ok split: option.splits sum.splits if_splits)

lemma own_phases_log:
  "dm_log (look_at_screen scr now st) = dm_log st"
  "dm_log (snd (barred e scr now st)) = dm_log st"
  "dm_log (snd (own_plan cfg e sc now st)) = dm_log st"
  "dm_log (own_release ou p st) = dm_log st"
  "dm_log (own_forget ou p st) = dm_log st"
  "dm_log (snd (snd (own_sign cfg ou e ap who d p st))) = dm_log st"
  "dm_log (snd (snd (own_finish ou p n now made st))) = dm_log st"
  by (auto simp: look_at_screen_def sign_out_def barred_def own_plan_def own_release_def own_forget_def
      own_sign_def own_finish_def own_admit_def Let_def split: prod.splits sum.splits bool.splits)

lemma own_turn_log:
  assumes "own_turn cfg ou e rd who data st = (reply, outcome, p, ev, st')"
  shows "dm_log st' = dm_log st"
  using assms
proof (cases rule: own_turn_cases)
  case (refused why st1 st2)
  show ?thesis
    using own_phases_log(2) [of e "rd_screen1 rd" "rd_now1 rd" st]
      own_phases_log(3) [of cfg e "scope_of (ou_os ou) who" "rd_now_decide rd" st1]
      own_phases_log(7) [of ou p "gs_sign_outs (dm_gate st1)" "rd_now_admit rd" "Inl why" "own_release ou p st2"]
    by (simp add: refused own_phases_log(4))
next
  case (asked st1 st2 res s' again st4)
  show ?thesis
    using own_phases_log(2) [of e "rd_screen1 rd" "rd_now1 rd" st]
      own_phases_log(3) [of cfg e "scope_of (ou_os ou) who" "rd_now_decide rd" st1]
      own_phases_log(6) [of cfg ou e "rd_apple rd" who data p "own_release ou p st2"]
      own_phases_log(2) [of e "rd_screen2 rd" "rd_now2 rd" s']
      own_phases_log(7) [of ou p "gs_sign_outs (dm_gate st1)" "rd_now_admit rd"
        "case again of None \<Rightarrow> res | Some why \<Rightarrow> Inl why" st4]
    by (simp add: asked own_phases_log(4))
qed

text \<open>
  C13: Every signature request that names a key is logged, once, whoever signs and however
  it ends: the event names the caller, the key by fingerprint and the host the connection
  is bound to, and its outcome reads \<open>ok\<close> exactly when the reply is not a failure.
\<close>

theorem every_signature_logged:
  assumes "handle_sign cfg ou rd who bound payload st = (reply, ev, st')"
    and "sign_blob payload = Some blob"
  shows "\<exists>logged. dm_log st' = log_append (ou_event_json ou) (rd_log_io rd) logged (dm_log st) \<and>
    ev_kind logged = Sign \<and> ev_who logged = who \<and> ev_key_fp logged = Some (fingerprint ou blob) \<and>
    ev_bound_host_fp logged = bound \<and> (ev_outcome logged = ''ok'' \<longleftrightarrow> \<not> fails reply)"
proof -
  have up: ?thesis if h: "handle_sign_upstream cfg ou rd who bound blob payload st = (reply, st')"
  proof -
    define st1 where "st1 = (if dm_routes st blob = None then snd (refresh_identities cfg ou st) else st)"
    have l: "dm_log st1 = dm_log st" by (simp add: st1_def refresh_identities_def Let_def)
    obtain comment up nm outcome where f: "forward_sign ou up payload = (reply, nm, outcome)"
      and s: "st' = log_event ou rd (upstream_event ou rd who bound blob comment nm outcome) st1"
      using h unfolding handle_sign_upstream_def Let_def st1_def [symmetric] by (auto split: prod.splits)
    show ?thesis
      using forward_outcome [OF f] by (auto simp: s log_event_def l upstream_event_def)
  qed
  have own: ?thesis if h: "handle_sign_own cfg ou e rd who bound data st = (reply, ev, st')"
    and b: "ssh_public_blob e = blob" for e data
  proof -
    obtain outcome p st1 where t: "own_turn cfg ou e rd who data st = (reply, outcome, p, ev, st1)"
      and s: "st' = log_event ou rd (own_event cfg ou e rd who bound p outcome) st1"
      using h by (auto simp: handle_sign_own_def split: prod.splits)
    show ?thesis
      using own_turn_outcome [OF t] own_turn_log [OF t]
      by (auto simp: s log_event_def own_event_def b)
  qed
  show ?thesis
    using assms up own by (auto simp: handle_sign_def split: option.splits if_splits prod.splits)
qed

definition sign_payload :: bytes where
  "sign_payload = writer_string [9] [SIGN_REQUEST]"

lemma sign_payload_blob: "sign_blob sign_payload = Some [9]"
proof -
  have "at_bytes (reader_new sign_payload) (SIGN_REQUEST # writer_string [9] [] @ [])"
    using at_bytes_new [of sign_payload] by (simp add: sign_payload_def writer_string_def writer_u32_def)
  from reader_u8_put [OF this] have "at_bytes (skip_u8 sign_payload) (writer_string [9] [] @ [])"
    by (simp add: skip_u8_def)
  from reader_string_put(1) [OF _ this] show ?thesis by (simp add: sign_blob_def)
qed

theorem every_signature_logged_witness:
  "\<exists>logged. dm_log (snd (snd (handle_sign (test_config\<lparr>cf_enclave := None\<rparr>) test_outside test_readings
      nobody None sign_payload test_daemon))) =
    log_append (ou_event_json test_outside) io_fine logged (dm_log test_daemon) \<and>
    ev_key_fp logged = Some (fingerprint test_outside [9])"
proof -
  let ?cfg = "test_config\<lparr>cf_enclave := None\<rparr>"
  obtain reply ev st' where h: "handle_sign ?cfg test_outside test_readings nobody None sign_payload test_daemon =
      (reply, ev, st')"
    by (cases "handle_sign ?cfg test_outside test_readings nobody None sign_payload test_daemon") auto
  from every_signature_logged [OF h sign_payload_blob] h show ?thesis
    by (auto simp: test_readings_def)
qed

section \<open>Connections\<close>

text \<open>What ends a connection: too few bytes for a length, a length not allowed, a message cut short.\<close>

definition stream_ends :: "bytes \<Rightarrow> bool" where
  "stream_ends bs \<longleftrightarrow>
    length bs < 4 \<or> be_length bs = 0 \<or> MAX_MSG < be_length bs \<or> length bs - 4 < be_length bs"

lemma serve_ends: "stream_ends bs \<Longrightarrow> serve cfg ou rds who k bs bound st = ([], bound, st)"
  by (subst serve.simps) (auto simp: stream_ends_def Let_def)

lemma serve_message:
  assumes "0 < length m" and "length m \<le> MAX_MSG"
  shows "serve cfg ou rds who k (frame m @ rest) bound st =
    (case dispatch cfg ou (rds k) who m bound st of
       (reply, bound', st') \<Rightarrow>
         (case serve cfg ou rds who (Suc k) rest bound' st' of
            (replies, bound'', st'') \<Rightarrow> (frame reply # replies, bound'', st'')))"
proof -
  have "length m < 2 ^ 32" using assms(2) by (simp add: MAX_MSG_def)
  then have n: "be_length (frame m @ rest) = length m"
    by (simp add: be_length_def frame_def nth_append u32_be_roundtrip [simplified] unat_of_nat_length)
  have "drop 4 (frame m @ rest) = m @ rest" "\<not> length (frame m @ rest) < 4"
    by (simp_all add: frame_def)
  then show ?thesis
    using assms by (subst serve.simps) (simp add: n Let_def)
qed

text \<open>Messages handled one after the other, each in the state the one before it left.\<close>

fun answers ::
  "config \<Rightarrow> outside \<Rightarrow> (nat \<Rightarrow> readings) \<Rightarrow> attribution \<Rightarrow> nat \<Rightarrow> bytes list \<Rightarrow> string option \<Rightarrow>
    daemon \<Rightarrow> bytes list \<times> string option \<times> daemon" where
  "answers cfg ou rds who k [] bound st = ([], bound, st)"
| "answers cfg ou rds who k (m # ms) bound st =
    (case dispatch cfg ou (rds k) who m bound st of
       (reply, bound', st') \<Rightarrow>
         (case answers cfg ou rds who (Suc k) ms bound' st' of
            (replies, b, s) \<Rightarrow> (reply # replies, b, s)))"

text \<open>
  A connection answers each of its messages once, in order, with one frame, and ends without
  an answer at whatever comes after them that is no message.
\<close>

lemma serve_messages:
  assumes "\<forall>m \<in> set msgs. 0 < length m \<and> length m \<le> MAX_MSG" and "stream_ends rest"
  shows "serve cfg ou rds who k (concat (map frame msgs) @ rest) bound st =
    (case answers cfg ou rds who k msgs bound st of (replies, b, s) \<Rightarrow> (map frame replies, b, s))"
  using assms(1)
proof (induction msgs arbitrary: k bound st)
  case Nil
  then show ?case using serve_ends [OF assms(2)] by simp
next
  case (Cons m msgs)
  then show ?case
    using serve_message [of m cfg ou rds who k "concat (map frame msgs) @ rest" bound st]
    by (simp split: prod.splits)
qed

lemma answers_length: "length (fst (answers cfg ou rds who k msgs bound st)) = length msgs"
  by (induction msgs arbitrary: k bound st) (simp_all add: case_prod_beta)

text \<open>The accept loop: a client connects, or one that was accepted leaves.\<close>

fun conn_run :: "bool list \<Rightarrow> nat \<times> daemon \<Rightarrow> nat \<times> daemon" where
  "conn_run [] (live, st) = (live, st)"
| "conn_run (True # evs) (live, st) =
    (case conn_spawn st of (ok, st') \<Rightarrow> conn_run evs (if ok then live + 1 else live, st'))"
| "conn_run (False # evs) (live, st) =
    conn_run evs (if live = 0 then (live, st) else (live - 1, conn_done st))"

text \<open>
  Over any order of connections made and ended the count the daemon keeps is the number
  of connections really open, and no more than 512 ever are.
\<close>

lemma connections_counted:
  assumes "dm_conns st = live" and "live \<le> MAX_CONNS"
  shows "dm_conns (snd (conn_run evs (live, st))) = fst (conn_run evs (live, st)) \<and>
    fst (conn_run evs (live, st)) \<le> 512"
  using assms
proof (induction evs arbitrary: live st)
  case Nil
  then show ?case by (simp add: MAX_CONNS_def)
next
  case (Cons e evs)
  show ?case
  proof (cases e)
    case True
    show ?thesis
    proof (cases "dm_conns st < MAX_CONNS")
      case less: True
      with Cons.IH [of "st\<lparr>dm_conns := dm_conns st + 1\<rparr>" "live + 1"] Cons.prems True show ?thesis
        by (simp add: conn_spawn_def)
    next
      case False
      with Cons.IH [of st live] Cons.prems True show ?thesis by (simp add: conn_spawn_def)
    qed
  next
    case False
    show ?thesis
      using Cons.IH [of st live] Cons.IH [of "conn_done st" "live - 1"] Cons.prems False
      by (cases "live = 0") (simp_all add: conn_done_def)
  qed
qed

theorem connections_counted_witness:
  "dm_conns (snd (conn_run [True, True, False] (0, test_daemon))) =
    fst (conn_run [True, True, False] (0, test_daemon))"
proof -
  have "dm_conns test_daemon = 0" "(0::nat) \<le> MAX_CONNS" by (simp_all add: test_daemon_def MAX_CONNS_def)
  from connections_counted [OF this] show ?thesis by blast
qed

section \<open>Two agents and a silent one\<close>

definition key_listing :: "(bytes \<times> string) list" where
  "key_listing = [([1, 2], ''me'')]"

definition test_agents :: "upstream list" where
  "test_agents =
    [\<lparr>up_name = ''a'', up_path = ''/a''\<rparr>, \<lparr>up_name = ''b'', up_path = ''/b''\<rparr>,
     \<lparr>up_name = ''c'', up_path = ''/c''\<rparr>]"

text \<open>The first hangs, the others list the same key.\<close>

definition test_net :: net where
  "test_net path q =
    (if path = ''/a'' then Inl TimedOut else Inr (frame (identities_answer key_listing), UnexpectedEof))"

definition test_routes :: outside where
  "test_routes = test_outside\<lparr>ou_net := test_net\<rparr>"

definition test_merge :: config where
  "test_merge = test_config\<lparr>cf_upstreams := test_agents\<rparr>"

lemma key_listing_ok: "\<forall>i \<in> set key_listing. identity_ok i"
  by (simp add: key_listing_def identity_ok_def as_bytes_def utf8_step_ascii)

lemma key_listing_answer: "identities_answer key_listing \<noteq> []" "length (identities_answer key_listing) < 2 ^ 20"
  by (simp_all add: key_listing_def identities_answer_def writer_u8_def writer_u32_def writer_new_def
      writer_string_def as_bytes_def utf8_step_ascii)

lemma test_net_lists:
  "identities test_net up = (if up_path up = ''/a'' then Inl TimedOut else Inr key_listing)"
proof (cases "up_path up = ''/a''")
  case True
  then show ?thesis by (simp add: identities_def request_def test_net_def)
next
  case False
  have "test_net (up_path up) (frame [REQUEST_IDENTITIES]) =
      Inr (frame (identities_answer key_listing) @ [], UnexpectedEof)"
    using False by (simp add: test_net_def)
  from read_frame [where net = test_net and extra = "[]", OF key_listing_answer(1) _ this] key_listing_answer(2)
  have "request test_net up [REQUEST_IDENTITIES] = Inr (identities_answer key_listing)"
    by (simp add: MAX_MSG_def)
  moreover have "parse_identities (identities_answer key_listing) = key_listing"
    by (rule parse_answer [OF key_listing_ok]) (use key_listing_answer(2) in \<open>simp_all add: key_listing_def\<close>)
  ultimately show ?thesis using False by (simp add: identities_def)
qed

lemma test_refresh:
  "refresh_identities test_merge test_routes test_daemon =
    (key_listing, test_daemon\<lparr>dm_routes := [[1, 2] \<mapsto> 1], dm_comments := [[1, 2] \<mapsto> ''me'']\<rparr>)"
  by (simp add: refresh_identities_def test_merge_def test_routes_def test_agents_def test_net_lists
      merged_new_def key_listing_def Let_def)

theorem first_upstream_wins_witness:
  "dm_routes (snd (refresh_identities test_merge test_routes test_daemon)) [1, 2] = Some 1 \<and>
    \<not> lists_key test_net test_agents 0 [1, 2] \<and> lists_key test_net test_agents 2 [1, 2]"
proof -
  have "lists_key test_net test_agents 2 [1, 2]" "\<not> lists_key test_net test_agents 0 [1, 2]"
    by (simp_all add: lists_key_def test_agents_def test_net_lists key_listing_def)
  moreover have "lists_key test_net test_agents 1 [1, 2]"
    by (simp add: lists_key_def test_agents_def test_net_lists key_listing_def)
  ultimately show ?thesis
    unfolding test_refresh snd_conv
    by (intro conjI first_upstream_wins [OF test_refresh, THEN conjunct1, THEN iffD2])
       (simp_all add: test_routes_def test_merge_def less_Suc_eq)
qed

theorem own_key_offered_first_witness:
  "parse_identities (fst (handle_request_identities test_merge test_routes test_readings nobody test_daemon)) =
    [(ssh_public_blob test_enclave, ''mac@keyward''), ([1, 2], ''me'')]"
proof -
  let ?ids = "(ssh_public_blob test_enclave, en_comment test_enclave) # key_listing"
  have "\<forall>i \<in> set ?ids. identity_ok i"
    using key_listing_ok
    by (simp add: identity_ok_def test_enclave_def ssh_public_blob_def writer_string_def writer_u32_def
        writer_new_def as_bytes_def utf8_step_ascii KEY_TYPE_def CURVE_def)
  moreover have "length (identities_answer ?ids) < 2 ^ 32"
    by (simp add: test_enclave_def ssh_public_blob_def identities_answer_def key_listing_def
        writer_string_def writer_u32_def writer_u8_def writer_new_def as_bytes_def utf8_step_ascii
        KEY_TYPE_def CURVE_def)
  ultimately show ?thesis
    using own_key_offered_first [OF _ test_refresh, of test_enclave test_readings nobody]
    by (simp add: test_merge_def test_config_def test_enclave_def key_listing_def)
qed

end
