(* ===== verification/Session.thy ===== *)
theory Session
  imports Agent_Laws
begin

text \<open>
  A whole connection of \<open>agent.rs\<close>'s \<open>serve\<close>: what any stream of bytes a client may send can do
  to the approvals, to what the shim holds, to the log and to the host binding. Each fact is
  proved of one message and carried over the loop once.
\<close>

text \<open>The log is as it was, or has one event more, which names the caller and how long it took.\<close>

definition one_more :: "outside \<Rightarrow> readings \<Rightarrow> attribution \<Rightarrow> log \<Rightarrow> log \<Rightarrow> bool" where
  "one_more ou rd who l l' \<longleftrightarrow>
    l' = l \<or>
    (\<exists>ev. ev_who ev = who \<and> ev_duration_ms ev \<in> {0, rd_ms rd} \<and>
      l' = log_append (ou_event_json ou) (rd_log_io rd) ev l)"

lemma one_more_same [simp]: "one_more ou rd who l l"
  by (simp add: one_more_def)

lemma one_more_event: "ev_who ev = who \<and> ev_duration_ms ev \<in> {0, rd_ms rd} \<Longrightarrow> one_more ou rd who (dm_log st) (dm_log (log_event ou rd ev st))"
  by (auto simp: one_more_def log_event_def)

lemma refresh_log: "dm_log (snd (refresh_identities cfg ou st)) = dm_log st"
  by (simp add: refresh_identities_def Let_def)

lemma handle_list_logs:
  "one_more ou rd who (dm_log st) (dm_log (snd (handle_request_identities cfg ou rd who st)))"
proof -
  obtain ids st1 where r: "refresh_identities cfg ou st = (ids, st1)" by (cases "refresh_identities cfg ou st")
  have "ev_who (list_event who rd n) = who \<and> ev_duration_ms (list_event who rd n) \<in> {0, rd_ms rd}" for n by (simp add: list_event_def)
  then have "one_more ou rd who (dm_log st1) (dm_log (log_event ou rd (list_event who rd n) st1))" for n
    by (rule one_more_event)
  then show ?thesis
    using refresh_log [of cfg ou st] by (simp add: handle_request_identities_def Let_def r)
qed

lemma handle_upstream_logs:
  "one_more ou rd who (dm_log st) (dm_log (snd (handle_sign_upstream cfg ou rd who bound blob payload st)))"
proof -
  define st1 where "st1 = (if dm_routes st blob = None then snd (refresh_identities cfg ou st) else st)"
  have "dm_log st1 = dm_log st" by (simp add: st1_def refresh_log)
  moreover have "ev_who (upstream_event ou rd who bound blob c u outcome) = who \<and>
      ev_duration_ms (upstream_event ou rd who bound blob c u outcome) \<in> {0, rd_ms rd}" for c u outcome
    by (simp add: upstream_event_def)
  then have "one_more ou rd who (dm_log st1)
      (dm_log (log_event ou rd (upstream_event ou rd who bound blob c u outcome) st1))" for c u outcome
    by (rule one_more_event)
  ultimately show ?thesis
    by (simp add: handle_sign_upstream_def Let_def st1_def [symmetric] case_prod_beta)
qed

lemma handle_own_logs:
  "one_more ou rd who (dm_log st) (dm_log (snd (snd (handle_sign_own cfg ou e rd who bound data st))))"
proof -
  obtain reply outcome p ev st1 where t: "own_turn cfg ou e rd who data st = (reply, outcome, p, ev, st1)"
    by (cases "own_turn cfg ou e rd who data st") auto
  have "ev_who (own_event cfg ou e rd who bound p outcome) = who \<and>
      ev_duration_ms (own_event cfg ou e rd who bound p outcome) \<in> {0, rd_ms rd}" by (simp add: own_event_def)
  from one_more_event [OF this, of ou st1] own_turn_log [OF t] show ?thesis
    by (simp add: handle_sign_own_def t)
qed

lemma handle_sign_logs:
  "one_more ou rd who (dm_log st) (dm_log (snd (snd (handle_sign cfg ou rd who bound payload st))))"
  using handle_upstream_logs handle_own_logs
  by (simp add: handle_sign_def case_prod_beta split: option.splits)

lemma handle_extension_logs:
  "one_more ou rd who (dm_log st) (dm_log (snd (snd (handle_extension cfg ou rd who payload bound st))))"
proof -
  have "ev_who (bind_event who rd fp) = who \<and> ev_duration_ms (bind_event who rd fp) \<in> {0, rd_ms rd}" for fp by (simp add: bind_event_def)
  then have "one_more ou rd who (dm_log st) (dm_log (log_event ou rd (bind_event who rd fp) st))" for fp
    by (rule one_more_event)
  then show ?thesis by (simp add: handle_extension_def Let_def case_prod_beta split: option.splits)
qed

lemma dispatch_logs:
  "one_more ou rd who (dm_log st) (dm_log (snd (snd (dispatch cfg ou rd who payload bound st))))"
  using handle_list_logs handle_sign_logs handle_extension_logs
  by (simp add: dispatch_def case_prod_beta Let_def)

text \<open>What a log is after some events, each with what the file system made of it.\<close>

definition logged :: "outside \<Rightarrow> (log_io \<times> event) list \<Rightarrow> log \<Rightarrow> log" where
  "logged ou evs l = fold (\<lambda>(io, ev). log_append (ou_event_json ou) io ev) evs l"

lemma serve_logs:
  "\<exists>evs. dm_log (snd (snd (serve cfg ou rds who k stream bound st))) = logged ou evs (dm_log st) \<and>
    length evs \<le> length (fst (serve cfg ou rds who k stream bound st)) \<and>
    (\<forall>(io, ev) \<in> set evs. ev_who ev = who \<and> (\<exists>j. ev_duration_ms ev \<in> {0, rd_ms (rds j)}))"
proof (induction cfg ou rds who k stream bound st rule: serve.induct)
  case (1 cfg ou rds who k stream bound st)
  let ?n = "be_length stream"
  show ?case
  proof (cases "stream_ends stream")
    case True
    then show ?thesis by (intro exI [of _ "[]"]) (simp add: serve_ends logged_def)
  next
    case False
    then have c: "\<not> length stream < 4" "\<not> (?n = 0 \<or> MAX_MSG < ?n \<or> length (drop 4 stream) < ?n)"
      by (auto simp: stream_ends_def)
    obtain reply b s where d: "dispatch cfg ou (rds k) who (take ?n (drop 4 stream)) bound st = (reply, b, s)"
      by (cases "dispatch cfg ou (rds k) who (take ?n (drop 4 stream)) bound st") auto
    obtain replies b2 s2 where r: "serve cfg ou rds who (Suc k) (drop ?n (drop 4 stream)) b s = (replies, b2, s2)"
      by (cases "serve cfg ou rds who (Suc k) (drop ?n (drop 4 stream)) b s") auto
    have sv: "serve cfg ou rds who k stream bound st = (frame reply # replies, b2, s2)"
      using c by (subst serve.simps) (simp add: Let_def d r del: drop_drop)
    from "1.IH" [OF c(1) refl refl c(2) d [symmetric] refl] r
    obtain evs where e: "dm_log s2 = logged ou evs (dm_log s)" "length evs \<le> length replies"
        "\<forall>(io, ev) \<in> set evs. ev_who ev = who \<and> (\<exists>j. ev_duration_ms ev \<in> {0, rd_ms (rds j)})"
      unfolding r fst_conv snd_conv by blast
    from dispatch_logs [of ou "rds k" who st cfg "take ?n (drop 4 stream)" bound]
    consider "dm_log s = dm_log st" | ev where "ev_who ev = who"
        "ev_duration_ms ev \<in> {0, rd_ms (rds k)}"
        "dm_log s = log_append (ou_event_json ou) (rd_log_io (rds k)) ev (dm_log st)"
      by (auto simp: d one_more_def)
    then show ?thesis
    proof cases
      case 1
      with e show ?thesis by (intro exI [of _ evs]) (simp add: sv)
    next
      case (2 ev)
      with e show ?thesis
        by (intro exI [of _ "(rd_log_io (rds k), ev) # evs"]) (auto simp: sv logged_def)
    qed
  qed
qed

section \<open>Any bytes at all\<close>

lemma frame_of_stream:
  assumes "\<not> stream_ends stream"
  shows "\<exists>m rest. stream = frame m @ rest \<and> 0 < length m \<and> length m \<le> MAX_MSG"
proof -
  let ?n = "be_length stream"
  from assms have c: "4 \<le> length stream" "0 < ?n" "?n \<le> MAX_MSG" "?n \<le> length (drop 4 stream)"
    by (auto simp: stream_ends_def not_less not_le)
  then obtain a b c' d rest where s: "stream = a # b # c' # d # rest"
    by (auto simp: numeral_eq_Suc Suc_le_length_iff)
  let ?m = "take ?n rest"
  have "?n = unat (u32_from_be a b c' d)" by (simp add: s be_length_def numeral_3_eq_3 numeral_2_eq_2)
  then have "(of_nat ?n :: u32) = u32_from_be a b c' d" by simp
  with c s have "frame ?m = a # b # c' # d # ?m" by (simp add: frame_def u32_be_roundtrip' [simplified])
  then have "stream = frame ?m @ drop ?n rest" using s by simp
  with c s show ?thesis by (intro exI [of _ ?m] exI [of _ "drop ?n rest"]) simp
qed

lemma stream_of_frames:
  "\<exists>msgs rest. stream = concat (map frame msgs) @ rest \<and> stream_ends rest \<and>
    (\<forall>m \<in> set msgs. 0 < length m \<and> length m \<le> MAX_MSG)"
proof (induction "length stream" arbitrary: stream rule: less_induct)
  case less
  show ?case
  proof (cases "stream_ends stream")
    case True
    then show ?thesis by (intro exI [of _ "[] :: bytes list"] exI [of _ stream]) simp
  next
    case False
    then obtain m rest where m: "stream = frame m @ rest" "0 < length m" "length m \<le> MAX_MSG"
      using frame_of_stream by blast
    then have "length rest < length stream" by (simp add: frame_def)
    from less [OF this] obtain msgs r where "rest = concat (map frame msgs) @ r" "stream_ends r"
        "\<forall>m \<in> set msgs. 0 < length m \<and> length m \<le> MAX_MSG" by blast
    with m show ?thesis by (intro exI [of _ "m # msgs"] exI [of _ r]) simp
  qed
qed

lemma frames_length:
  "\<forall>m \<in> set msgs. 0 < length m \<Longrightarrow> 5 * length msgs \<le> length (concat (map frame msgs))"
  by (induction msgs) (auto simp: frame_def neq_Nil_conv)


lemma dispatch_ok:
  assumes "json_scopes (ou_scope_json ou)" and "gate_ok ou st"
  shows "gate_ok ou (snd (snd (dispatch cfg ou rd who payload bound st)))"
  using assms handle_sign_ok [OF assms, of cfg rd who bound payload]
  by (simp add: dispatch_def case_prod_beta gate_ok_def handle_list_gate handle_extension_gate Let_def)

lemma serve_ok:
  assumes "json_scopes (ou_scope_json ou)" and "gate_ok ou st"
  shows "gate_ok ou (snd (snd (serve cfg ou rds who k stream bound st)))"
  using assms(2)
proof (induction "length stream" arbitrary: k stream bound st rule: less_induct)
  case less
  show ?case
  proof (cases "stream_ends stream")
    case True
    with less.prems show ?thesis by (simp add: serve_ends)
  next
    case False
    let ?n = "be_length stream"
    from False have c: "\<not> length stream < 4" "\<not> (?n = 0 \<or> MAX_MSG < ?n \<or> length (drop 4 stream) < ?n)"
      by (auto simp: stream_ends_def)
    obtain reply b s where d: "dispatch cfg ou (rds k) who (take ?n (drop 4 stream)) bound st = (reply, b, s)"
      by (cases "dispatch cfg ou (rds k) who (take ?n (drop 4 stream)) bound st") auto
    have "gate_ok ou s" using dispatch_ok [OF assms(1) less.prems] d by (metis snd_conv)
    moreover have "length (drop ?n (drop 4 stream)) < length stream" using c by auto
    ultimately have "gate_ok ou (snd (snd (serve cfg ou rds who (Suc k) (drop ?n (drop 4 stream)) b s)))"
      using less.hyps by blast
    then show ?thesis
      using c by (subst serve.simps) (simp add: Let_def d case_prod_beta del: drop_drop)
  qed
qed

text \<open>
  One client after another, each with its readings, its caller and its bytes; between them
  the watch looks, and lets go of what has run out.
\<close>

datatype happening =
    Client "nat \<Rightarrow> readings" attribution bytes
  | WatchLooks screen f64 f64 bool

fun day :: "config \<Rightarrow> outside \<Rightarrow> happening list \<Rightarrow> daemon \<Rightarrow> daemon" where
  "day cfg ou [] st = st"
| "day cfg ou (Client rds who stream # rest) st =
    day cfg ou rest (snd (snd (serve cfg ou rds who 0 stream None st)))"
| "day cfg ou (WatchLooks scr now later free # rest) st =
    day cfg ou rest (watch_round cfg ou scr now later free st)"

lemma day_ok:
  assumes "json_scopes (ou_scope_json ou)"
  shows "gate_ok ou st \<Longrightarrow> gate_ok ou (day cfg ou hs st)"
proof (induction hs arbitrary: st)
  case (Cons h hs)
  show ?case
  proof (cases h)
    case (Client rds who stream)
    with Cons.IH [OF serve_ok [OF assms Cons.prems]] show ?thesis by simp
  next
    case (WatchLooks scr now later free)
    have "gate_ok ou (watch_round cfg ou scr now later free st)"
      using look_ok [OF Cons.prems] watch_expire_ok [OF assms] by (simp add: watch_round_def Let_def)
    from Cons.IH [OF this] WatchLooks show ?thesis by simp
  qed
qed simp

end
