(* ===== verification/Interleave.thy ===== *)
theory Interleave
  imports Agent_Laws
begin

text \<open>
  \<open>agent.rs\<close>, the concurrent part: \<open>handle_sign\<close> with a sign-in key on one thread and
  \<open>watch_screen\<close> on another, step by step. A step is one critical section of the code: a
  look takes the \<open>looked\<close> lock from its first step to its last, the approvals and the
  shim's cache are each locked for one step, the sign gate is held by the signer from
  start to finish and by the watch while it expires. What the clock, the screen and the
  frameworks answer is any value. Any other thread lists keys, passes requests on, logs and
  comes and goes without touching what these two share (\<open>bystands\<close>); the theory \<open>Threads\<close> has
  them one by one. The ghost \<open>wd_outs\<close> counts the sign-outs without wrapping, and \<open>wd_sent\<close>
  keeps, for each signature sent, that count when the request read \<open>sign_outs\<close> and when it
  was admitted, with the screen of its second look.
\<close>

section \<open>Threads\<close>

text \<open>A look that has read the screen: to end the approvals, to forget what is held, done.\<close>

datatype look_pc = Ending screen | Forgetting screen | Looked screen

text \<open>A request between the steps of its turn; \<open>nat\<close> is the ghost of the count it read.\<close>

datatype signer =
    Idle
  | First look_pc
  | Loading "string option"
  | Deciding "string option" u64 nat
  | Dropping "string option" u64 nat plan "string list"
  | Asking u64 nat plan
  | Prompted u64 nat plan nat
  | Made u64 nat plan "(string, bytes) result"
  | Second u64 nat plan "(string, bytes) result" look_pc
  | Admitting u64 nat plan "(string, bytes) result" "screen option"
  | Cleaning plan

datatype watcher = Asleep | Watching look_pc | Trying | Holding | Expiring "string list"

record world =
  wd_daemon :: daemon
  wd_signer :: signer
  wd_watch :: watcher
  wd_outs :: nat
  wd_sent :: "(nat \<times> nat \<times> screen) list"

fun signer_looks :: "signer \<Rightarrow> bool" where
  "signer_looks (First l) = True"
| "signer_looks (Second n g p r l) = True"
| "signer_looks _ = False"

fun watch_looks :: "watcher \<Rightarrow> bool" where
  "watch_looks (Watching l) = True"
| "watch_looks _ = False"

fun watch_has_gate :: "watcher \<Rightarrow> bool" where
  "watch_has_gate Holding = True"
| "watch_has_gate (Expiring ks) = True"
| "watch_has_gate _ = False"

section \<open>The steps of a look\<close>

definition begin_look :: "screen \<Rightarrow> f64 \<Rightarrow> daemon \<Rightarrow> look_pc \<times> daemon" where
  "begin_look scr now d =
    (if calls_sign_out scr (dm_looked d) now then Ending scr else Looked scr,
     d\<lparr>dm_looked := \<lparr>lk_at = now, lk_saw = scr\<rparr>\<rparr>)"

definition end_step :: "daemon \<Rightarrow> daemon" where
  "end_step d = d\<lparr>dm_gate := snd (end_approvals (dm_gate d))\<rparr>"

definition forget_all_step :: "daemon \<Rightarrow> daemon" where
  "forget_all_step d = d\<lparr>dm_cache := enclave_forget_all (dm_cache d)\<rparr>"

lemma look_in_steps:
  "look_at_screen scr now d =
    (case begin_look scr now d of
       (Ending _, d') \<Rightarrow> forget_all_step (end_step d') | (_, d') \<Rightarrow> d')"
  by (simp add: look_at_screen_def begin_look_def forget_all_step_def end_step_def sign_out_def
      Let_def split: prod.splits)

definition forget_step :: "string \<Rightarrow> daemon \<Rightarrow> daemon" where
  "forget_step k d = d\<lparr>dm_cache := enclave_forget k (dm_cache d)\<rparr>"

text \<open>The keys \<open>handle_sign\<close> lets go of after planning, in its order.\<close>

definition drop_keys :: "outside \<Rightarrow> plan \<Rightarrow> string list" where
  "drop_keys ou p =
    map (reach_key (ou_scope_json ou)) (pl_expired p) @ (if pl_live p then [] else [own_key ou p])"

lemma own_release_in_steps: "own_release ou p d = fold forget_step (drop_keys ou p) d"
proof -
  have f: "fold forget_step ks d = d\<lparr>dm_cache := fold enclave_forget ks (dm_cache d)\<rparr>" for ks and d :: daemon
    by (induction ks arbitrary: d) (simp_all add: forget_step_def)
  have r: "release ser gone c = fold enclave_forget (map (reach_key ser) gone) c" for ser gone c
    by (simp add: release_def fold_map comp_def)
  show ?thesis by (simp add: own_release_def f r drop_keys_def Let_def)
qed

section \<open>The step relation\<close>

text \<open>The arguments of the shim's call, for a request that shows \<open>text\<close>.\<close>

definition ask_begin ::
  "outside \<Rightarrow> sign_in_key \<Rightarrow> apple \<Rightarrow> bytes \<Rightarrow> plan \<Rightarrow> la_cache \<Rightarrow> (out_buffer \<times> la_event list) option \<times> la_cache" where
  "ask_begin ou key ap data p c =
    sign_in_begin ap key data (0 < pl_window p) (c_str_or_empty (own_key ou p)) (pl_live p) 256 c"

definition ask_end ::
  "config \<Rightarrow> outside \<Rightarrow> sign_in_key \<Rightarrow> apple \<Rightarrow> bytes \<Rightarrow> string \<Rightarrow> plan \<Rightarrow> nat \<Rightarrow> la_cache \<Rightarrow>
    out_buffer \<times> la_event list \<times> la_cache" where
  "ask_end cfg ou key ap data txt p n c =
    sign_in_end ap key data txt (0 < pl_window p) (pl_unlock_reuse p)
      (c_str_or_empty (own_key ou p)) (cf_require_approval cfg) 256 n c"

inductive step :: "config \<Rightarrow> outside \<Rightarrow> enclave \<Rightarrow> sign_in_key \<Rightarrow> world \<Rightarrow> world \<Rightarrow> bool"
  for cfg ou e key where
  start: "\<lbrakk>wd_signer w = Idle; \<not> watch_has_gate (wd_watch w); \<not> watch_looks (wd_watch w);
      begin_look scr now (wd_daemon w) = (l, d)\<rbrakk> \<Longrightarrow>
    step cfg ou e key w (w\<lparr>wd_daemon := d, wd_signer := First l\<rparr>)"
| first_end: "wd_signer w = First (Ending scr) \<Longrightarrow>
    step cfg ou e key w (w\<lparr>wd_daemon := end_step (wd_daemon w), wd_outs := wd_outs w + 1,
      wd_signer := First (Forgetting scr)\<rparr>)"
| first_forget: "wd_signer w = First (Forgetting scr) \<Longrightarrow>
    step cfg ou e key w (w\<lparr>wd_daemon := forget_all_step (wd_daemon w), wd_signer := First (Looked scr)\<rparr>)"
| first_done: "wd_signer w = First (Looked scr) \<Longrightarrow>
    step cfg ou e key w (w\<lparr>wd_signer := Loading (refusal scr)\<rparr>)"
| load: "wd_signer w = Loading refused \<Longrightarrow>
    step cfg ou e key w
      (w\<lparr>wd_signer := Deciding refused (gs_sign_outs (dm_gate (wd_daemon w))) (wd_outs w)\<rparr>)"
| plan: "\<lbrakk>wd_signer w = Deciding refused n g; own_plan cfg e sc now (wd_daemon w) = (p, d)\<rbrakk> \<Longrightarrow>
    step cfg ou e key w (w\<lparr>wd_daemon := d, wd_signer := Dropping refused n g p (drop_keys ou p)\<rparr>)"
| drop: "wd_signer w = Dropping refused n g p (k # ks) \<Longrightarrow>
    step cfg ou e key w
      (w\<lparr>wd_daemon := forget_step k (wd_daemon w), wd_signer := Dropping refused n g p ks\<rparr>)"
| refuse: "wd_signer w = Dropping (Some why) n g p [] \<Longrightarrow>
    step cfg ou e key w (w\<lparr>wd_signer := Admitting n g p (Inl why) None\<rparr>)"
| ask: "wd_signer w = Dropping None n g p [] \<Longrightarrow> step cfg ou e key w (w\<lparr>wd_signer := Asking n g p\<rparr>)"
| answered: "\<lbrakk>wd_signer w = Asking n g p;
      ask_begin ou key ap data p (dm_cache (wd_daemon w)) = (Some (out, ev), c)\<rbrakk> \<Longrightarrow>
    step cfg ou e key w (w\<lparr>wd_daemon := (wd_daemon w)\<lparr>dm_cache := c\<rparr>,
      wd_signer := Made n g p (sign_result out)\<rparr>)"
| prompt: "\<lbrakk>wd_signer w = Asking n g p;
      ask_begin ou key ap data p (dm_cache (wd_daemon w)) = (None, c)\<rbrakk> \<Longrightarrow>
    step cfg ou e key w (w\<lparr>wd_daemon := (wd_daemon w)\<lparr>dm_cache := c\<rparr>,
      wd_signer := Prompted n g p (lc_made (dm_cache (wd_daemon w)))\<rparr>)"
| released: "\<lbrakk>wd_signer w = Prompted n g p m;
      ask_end cfg ou key ap data txt p m (dm_cache (wd_daemon w)) = (out, ev, c)\<rbrakk> \<Longrightarrow>
    step cfg ou e key w (w\<lparr>wd_daemon := (wd_daemon w)\<lparr>dm_cache := c\<rparr>,
      wd_signer := Made n g p (sign_result out)\<rparr>)"
| second: "\<lbrakk>wd_signer w = Made n g p r; \<not> watch_looks (wd_watch w);
      begin_look scr now (wd_daemon w) = (l, d)\<rbrakk> \<Longrightarrow>
    step cfg ou e key w (w\<lparr>wd_daemon := d, wd_signer := Second n g p r l\<rparr>)"
| second_end: "wd_signer w = Second n g p r (Ending scr) \<Longrightarrow>
    step cfg ou e key w (w\<lparr>wd_daemon := end_step (wd_daemon w), wd_outs := wd_outs w + 1,
      wd_signer := Second n g p r (Forgetting scr)\<rparr>)"
| second_forget: "wd_signer w = Second n g p r (Forgetting scr) \<Longrightarrow>
    step cfg ou e key w
      (w\<lparr>wd_daemon := forget_all_step (wd_daemon w), wd_signer := Second n g p r (Looked scr)\<rparr>)"
| second_done: "wd_signer w = Second n g p r (Looked scr) \<Longrightarrow>
    step cfg ou e key w
      (w\<lparr>wd_signer := Admitting n g p (case refusal scr of None \<Rightarrow> r | Some why \<Rightarrow> Inl why) (Some scr)\<rparr>)"
| admitted: "\<lbrakk>wd_signer w = Admitting n g p (Inr sig) (Some scr);
      own_admit p n now (wd_daemon w) = (True, d)\<rbrakk> \<Longrightarrow>
    step cfg ou e key w (w\<lparr>wd_daemon := d, wd_signer := Idle, wd_sent := (g, wd_outs w, scr) # wd_sent w\<rparr>)"
| too_late: "\<lbrakk>wd_signer w = Admitting n g p (Inr sig) (Some scr);
      own_admit p n now (wd_daemon w) = (False, d)\<rbrakk> \<Longrightarrow>
    step cfg ou e key w (w\<lparr>wd_daemon := d, wd_signer := Cleaning p\<rparr>)"
| failed_clean: "\<lbrakk>wd_signer w = Admitting n g p (Inl err) looked;
      \<not> pl_live p \<or> gs_sign_outs (dm_gate (wd_daemon w)) \<noteq> n\<rbrakk> \<Longrightarrow>
    step cfg ou e key w (w\<lparr>wd_signer := Cleaning p\<rparr>)"
| failed_live: "\<lbrakk>wd_signer w = Admitting n g p (Inl err) looked;
      pl_live p; gs_sign_outs (dm_gate (wd_daemon w)) = n\<rbrakk> \<Longrightarrow>
    step cfg ou e key w (w\<lparr>wd_signer := Idle\<rparr>)"
| clean: "wd_signer w = Cleaning p \<Longrightarrow>
    step cfg ou e key w (w\<lparr>wd_daemon := forget_step (own_key ou p) (wd_daemon w), wd_signer := Idle\<rparr>)"
| wake: "\<lbrakk>wd_watch w = Asleep; \<not> signer_looks (wd_signer w);
      begin_look scr now (wd_daemon w) = (l, d)\<rbrakk> \<Longrightarrow>
    step cfg ou e key w (w\<lparr>wd_daemon := d, wd_watch := Watching l\<rparr>)"
| watch_end: "wd_watch w = Watching (Ending scr) \<Longrightarrow>
    step cfg ou e key w (w\<lparr>wd_daemon := end_step (wd_daemon w), wd_outs := wd_outs w + 1,
      wd_watch := Watching (Forgetting scr)\<rparr>)"
| watch_forget: "wd_watch w = Watching (Forgetting scr) \<Longrightarrow>
    step cfg ou e key w
      (w\<lparr>wd_daemon := forget_all_step (wd_daemon w), wd_watch := Watching (Looked scr)\<rparr>)"
| watch_done: "wd_watch w = Watching (Looked scr) \<Longrightarrow> step cfg ou e key w (w\<lparr>wd_watch := Trying\<rparr>)"
| gate_busy: "wd_watch w = Trying \<Longrightarrow>
    step cfg ou e key w (w\<lparr>wd_watch := Asleep\<rparr>)"
| gate_taken: "\<lbrakk>wd_watch w = Trying; wd_signer w = Idle\<rbrakk> \<Longrightarrow>
    step cfg ou e key w (w\<lparr>wd_watch := Holding\<rparr>)"
| watch_expires: "\<lbrakk>wd_watch w = Holding;
      expire (gs_approved (dm_gate (wd_daemon w))) (watch_plan_window cfg) now = (gone, left)\<rbrakk> \<Longrightarrow>
    step cfg ou e key w
      (w\<lparr>wd_daemon := (wd_daemon w)\<lparr>dm_gate := (dm_gate (wd_daemon w))\<lparr>gs_approved := left\<rparr>\<rparr>,
         wd_watch := Expiring (map (reach_key (ou_scope_json ou)) gone)\<rparr>)"
| watch_drops: "wd_watch w = Expiring (k # ks) \<Longrightarrow>
    step cfg ou e key w (w\<lparr>wd_daemon := forget_step k (wd_daemon w), wd_watch := Expiring ks\<rparr>)"
| watch_sleeps: "wd_watch w = Expiring [] \<Longrightarrow> step cfg ou e key w (w\<lparr>wd_watch := Asleep\<rparr>)"
| bystands: "\<lbrakk>dm_gate d = dm_gate (wd_daemon w); dm_looked d = dm_looked (wd_daemon w);
      dm_cache d = dm_cache (wd_daemon w)\<rbrakk> \<Longrightarrow>
    step cfg ou e key w (w\<lparr>wd_daemon := d\<rparr>)"

definition initial :: "world \<Rightarrow> bool" where
  "initial w \<longleftrightarrow>
    gs_approved (dm_gate (wd_daemon w)) = [] \<and> gs_sign_outs (dm_gate (wd_daemon w)) = 0 \<and>
    (\<forall>k. \<not> cache_holds (dm_cache (wd_daemon w)) k) \<and>
    wd_signer w = Idle \<and> wd_watch w = Asleep \<and> wd_outs w = 0 \<and> wd_sent w = []"

inductive reachable :: "config \<Rightarrow> outside \<Rightarrow> enclave \<Rightarrow> sign_in_key \<Rightarrow> world \<Rightarrow> bool"
  for cfg ou e key where
  base: "initial w \<Longrightarrow> reachable cfg ou e key w"
| next_step: "reachable cfg ou e key w \<Longrightarrow> step cfg ou e key w w' \<Longrightarrow> reachable cfg ou e key w'"

inductive_cases stepE: "step cfg ou e key w w'"

section \<open>Nothing is held without an approval\<close>

text \<open>Keys a thread is about to forget, or has kept and not yet been admitted for.\<close>

definition own_pending :: "outside \<Rightarrow> plan \<Rightarrow> string set" where
  "own_pending ou p = (if \<not> pl_live p \<and> 0 < pl_window p then {own_key ou p} else {})"

fun pending :: "outside \<Rightarrow> signer \<Rightarrow> string set" where
  "pending ou (Dropping refused n g p ks) = set ks"
| "pending ou (Made n g p r) = own_pending ou p"
| "pending ou (Second n g p r l) = own_pending ou p"
| "pending ou (Admitting n g p r scr) = own_pending ou p"
| "pending ou (Cleaning p) = {own_key ou p}"
| "pending ou _ = {}"

fun watch_pending :: "watcher \<Rightarrow> string set" where
  "watch_pending (Expiring ks) = set ks"
| "watch_pending _ = {}"

text \<open>A thread has ended the approvals and not yet forgotten what is held.\<close>

fun signer_forgets :: "signer \<Rightarrow> bool" where
  "signer_forgets (First (Forgetting scr)) = True"
| "signer_forgets (Second n g p r (Forgetting scr)) = True"
| "signer_forgets _ = False"

fun watch_forgets :: "watcher \<Rightarrow> bool" where
  "watch_forgets (Watching (Forgetting scr)) = True"
| "watch_forgets _ = False"

definition covered :: "outside \<Rightarrow> approvals \<Rightarrow> string \<Rightarrow> bool" where
  "covered ou m k \<longleftrightarrow> (\<exists>r. map_of m r \<noteq> None \<and> k = reach_key (ou_scope_json ou) r)"

definition world_ok :: "outside \<Rightarrow> world \<Rightarrow> bool" where
  "world_ok ou w \<longleftrightarrow>
    approvals_ok (gs_approved (dm_gate (wd_daemon w))) \<and>
    (signer_forgets (wd_signer w) \<or> watch_forgets (wd_watch w) \<or>
     (\<forall>k. cache_holds (dm_cache (wd_daemon w)) k \<longrightarrow>
        k \<in> pending ou (wd_signer w) \<or> k \<in> watch_pending (wd_watch w) \<or>
        covered ou (gs_approved (dm_gate (wd_daemon w))) k)) \<and>
    (\<forall>k \<in> pending ou (wd_signer w) \<union> watch_pending (wd_watch w). CHR 0x00 \<notin> set k) \<and>
    (case wd_signer w of Prompted n g p m \<Rightarrow> \<not> pl_live p | _ \<Rightarrow> True)"

lemma begin_look_same:
  assumes "begin_look scr now d = (l, d')"
  shows "dm_gate d' = dm_gate d" and "dm_cache d' = dm_cache d"
    and "l = Ending scr \<or> l = Looked scr"
  using assms by (auto simp: begin_look_def split: if_splits)

lemma end_step_simps [simp]:
  "gs_approved (dm_gate (end_step d)) = []" "dm_cache (end_step d) = dm_cache d"
  "gs_sign_outs (dm_gate (end_step d)) = gs_sign_outs (dm_gate d) + 1"
  by (simp_all add: end_step_def end_approvals_def)

lemma forget_all_step_simps [simp]:
  "dm_gate (forget_all_step d) = dm_gate d" "\<not> cache_holds (dm_cache (forget_all_step d)) k"
  by (simp_all add: forget_all_step_def enclave_forget_all_def shim.holds_forget_all)

lemma forget_step_gate [simp]: "dm_gate (forget_step k d) = dm_gate d"
  by (simp add: forget_step_def)

lemma forget_step_holds:
  assumes "CHR 0x00 \<notin> set k"
  shows "cache_holds (dm_cache (forget_step k d)) j \<longleftrightarrow> j \<noteq> k \<and> cache_holds (dm_cache d) j"
  using assms by (simp add: forget_step_def enclave_forget_def c_str_or_empty_def shim.holds_forget)

lemma reach_key_no_nul: "json_scopes ser \<Longrightarrow> CHR 0x00 \<notin> set (reach_key ser r)"
  by (auto simp: json_scopes_def reach_key_def split: reach.splits option.splits)

lemma covered_expire:
  assumes "approvals_ok m" and "expire m w now = (gone, left)" and "covered ou m k"
  shows "covered ou left k \<or> k \<in> set (map (reach_key (ou_scope_json ou)) gone)"
proof -
  from assms(3) obtain r t where r: "map_of m r = Some t" "k = reach_key (ou_scope_json ou) r"
    by (auto simp: covered_def)
  have "left = drop_approvals (\<lambda>t0. w \<le> now - t0) m"
    using expire_eq [OF assms(1), of w now] assms(2) by simp
  moreover have "r \<in> set gone \<longleftrightarrow> w \<le> now - t"
    using expire_gone [OF assms(1), of r w now] assms(2) r by auto
  ultimately show ?thesis
    using r assms(1) by (auto simp: covered_def approved.granted_drop_Some)
qed

lemma own_plan_expire:
  assumes "own_plan cfg e sc now d = (p, d')" and "approvals_ok (gs_approved (dm_gate d))"
  shows "expire (gs_approved (dm_gate d)) (pl_window p) now = (pl_expired p, gs_approved (dm_gate d'))"
    and "approvals_ok (gs_approved (dm_gate d'))" and "dm_cache d' = dm_cache d"
    and "gs_sign_outs (dm_gate d') = gs_sign_outs (dm_gate d)"
proof -
  note x = own_plan_parts [OF assms(1)]
  show "expire (gs_approved (dm_gate d)) (pl_window p) now = (pl_expired p, gs_approved (dm_gate d'))"
    using decide_parts(2,3) [OF x(1)] by (simp add: prod_eq_iff)
  show "approvals_ok (gs_approved (dm_gate d'))" using decide_ok [OF assms(2) x(1)] .
  show "dm_cache d' = dm_cache d" "gs_sign_outs (dm_gate d') = gs_sign_outs (dm_gate d)"
    using x by simp_all
qed

lemma ask_begin_holds:
  "ask_begin ou key ap data p c = (r, c') \<Longrightarrow> cache_holds c' k = cache_holds c k"
  by (auto simp: ask_begin_def sign_in_begin_def new_context_def cache_holds_def split: option.splits if_splits)

lemma ask_begin_None: "ask_begin ou key ap data p c = (None, c') \<Longrightarrow> \<not> pl_live p"
  by (auto simp: ask_begin_def sign_in_begin_def split: option.splits if_splits)

lemma ask_end_holds:
  assumes "json_scopes (ou_scope_json ou)"
    and "ask_end cfg ou key ap data txt p n c = (out, ev, c')" and "cache_holds c' k"
  shows "cache_holds c k \<or> (k = own_key ou p \<and> 0 < pl_window p)"
proof -
  have "c_str_or_empty (own_key ou p) = own_key ou p"
    by (simp add: own_key_def reach_key_plain [OF assms(1)])
  with assms(2,3) show ?thesis
    by (auto simp: ask_end_def sign_in_end_def cache_holds_def cache_keep_def
        split: option.splits prod.splits if_splits)
qed

lemma own_admit_cases:
  assumes "own_admit p n now d = (ok, d')"
  shows "dm_cache d' = dm_cache d" and "ok \<longleftrightarrow> gs_sign_outs (dm_gate d) = n"
    and "\<not> ok \<Longrightarrow> d' = d"
    and "ok \<Longrightarrow> gs_approved (dm_gate d') = opened (gs_approved (dm_gate d)) p now"
    and "gs_sign_outs (dm_gate d') = gs_sign_outs (dm_gate d)"
  using assms by (auto simp: own_admit_def admit_def split: prod.splits if_splits)

lemma covered_opened:
  assumes "approvals_ok m"
  shows "covered ou (opened m p now) k \<longleftrightarrow>
    covered ou m k \<or> k \<in> own_pending ou p"
proof -
  have g: "map_of (opened m p now) r =
      (if \<not> pl_live p \<and> 0 < pl_window p \<and> r = pl_reach p then Some now else map_of m r)" for r
    by (simp add: opened_def approved.granted_record [OF assms])
  have "covered ou m k \<Longrightarrow> covered ou (opened m p now) k"
    unfolding covered_def g by (metis option.distinct(1))
  moreover have "k \<in> own_pending ou p \<Longrightarrow> covered ou (opened m p now) k"
    unfolding covered_def g by (auto simp: own_pending_def own_key_def split: if_splits)
  moreover have "covered ou (opened m p now) k \<Longrightarrow> covered ou m k \<or> k \<in> own_pending ou p"
    unfolding covered_def g by (auto simp: own_pending_def own_key_def split: if_splits)
  ultimately show ?thesis by blast
qed

lemma drop_keys_no_nul: "json_scopes (ou_scope_json ou) \<Longrightarrow> k \<in> set (drop_keys ou p) \<Longrightarrow> CHR 0x00 \<notin> set k"
  by (auto simp: drop_keys_def own_key_def dest: reach_key_no_nul split: if_splits)

lemma own_pending_no_nul: "json_scopes (ou_scope_json ou) \<Longrightarrow> k \<in> own_pending ou p \<Longrightarrow> CHR 0x00 \<notin> set k"
  by (auto simp: own_pending_def own_key_def dest: reach_key_no_nul split: if_splits)

lemma own_key_no_nul: "json_scopes (ou_scope_json ou) \<Longrightarrow> CHR 0x00 \<notin> set (own_key ou p)"
  by (simp add: own_key_def reach_key_no_nul)

lemma step_world_ok:
  assumes ser: "json_scopes (ou_scope_json ou)" and ok: "world_ok ou w"
    and st: "step cfg ou e key w w'"
  shows "world_ok ou w'"
  using st
proof (cases rule: step.cases)
  case (start scr now l d)
  with ok begin_look_same [OF start(5)] show ?thesis by (auto simp: world_ok_def)
next
  case (plan refused n g sc now p d)
  note x = own_plan_expire [OF plan(3)]
  have m: "approvals_ok (gs_approved (dm_gate (wd_daemon w)))" using ok by (simp add: world_ok_def)
  note y = x(1) [OF m] x(2) [OF m] x(3) [OF m]
  have c: "\<forall>k. covered ou (gs_approved (dm_gate (wd_daemon w))) k \<longrightarrow>
      covered ou (gs_approved (dm_gate d)) k \<or> k \<in> set (drop_keys ou p)"
    using covered_expire [OF m y(1)] by (auto simp: drop_keys_def)
  have n: "\<forall>k \<in> set (drop_keys ou p). CHR 0x00 \<notin> set k" using drop_keys_no_nul [OF ser] by blast
  show ?thesis using ok c n plan y(2,3) by (auto simp: world_ok_def)
next
  case (drop refused n g p k ks)
  then have "CHR 0x00 \<notin> set k" using ok by (simp add: world_ok_def)
  with drop ok show ?thesis by (auto simp: world_ok_def forget_step_holds)
next
  case (answered n g p ap data out ev c)
  with ok ask_begin_holds [OF answered(3)] show ?thesis
    using own_pending_no_nul [OF ser, of _ p] by (auto simp: world_ok_def)
next
  case (prompt n g p ap data c)
  with ok ask_begin_holds [OF prompt(3)] ask_begin_None [OF prompt(3)] show ?thesis
    by (auto simp: world_ok_def)
next
  case (released n g p m ap data shown out ev c)
  have "\<forall>k. cache_holds c k \<longrightarrow> cache_holds (dm_cache (wd_daemon w)) k \<or> k \<in> own_pending ou p"
    using ask_end_holds [OF ser released(3)] released(2) ok by (auto simp: world_ok_def own_pending_def)
  with released ok show ?thesis
    using own_pending_no_nul [OF ser, of _ p] by (auto simp: world_ok_def)
next
  case (second n g p r scr now l d)
  with ok begin_look_same [OF second(4)] show ?thesis by (auto simp: world_ok_def)
next
  case (admitted n g p sig scr now d)
  have m: "approvals_ok (gs_approved (dm_gate (wd_daemon w)))" using ok by (simp add: world_ok_def)
  note a = own_admit_cases [OF admitted(3)]
  have o: "gs_approved (dm_gate d) = opened (gs_approved (dm_gate (wd_daemon w))) p now" using a by simp
  show ?thesis using admitted ok a(1) o covered_opened [OF m, of ou p now] opened_ok [OF m, of p now]
    by (auto simp: world_ok_def)
next
  case (too_late n g p sig scr now d)
  note a = own_admit_cases [OF too_late(3)]
  have "own_pending ou p \<subseteq> {own_key ou p}" by (simp add: own_pending_def)
  with too_late ok a show ?thesis using own_key_no_nul [OF ser, of p] by (auto simp: world_ok_def)
next
  case (watch_expires now gone left)
  have m: "approvals_ok (gs_approved (dm_gate (wd_daemon w)))" using ok by (simp add: world_ok_def)
  have l: "approvals_ok left" using expire_ok [OF m, of "watch_plan_window cfg" now] watch_expires(3) by simp
  have c: "\<forall>k. covered ou (gs_approved (dm_gate (wd_daemon w))) k \<longrightarrow>
      covered ou left k \<or> k \<in> set (map (reach_key (ou_scope_json ou)) gone)"
    using covered_expire [OF m watch_expires(3)] by blast
  have n: "\<forall>k \<in> set (map (reach_key (ou_scope_json ou)) gone). CHR 0x00 \<notin> set k"
    using reach_key_no_nul [OF ser] by auto
  show ?thesis using ok c n l watch_expires(1,2) by (auto simp: world_ok_def)
next
  case (watch_drops k ks)
  then have "CHR 0x00 \<notin> set k" using ok by (simp add: world_ok_def)
  with watch_drops ok show ?thesis by (auto simp: world_ok_def forget_step_holds)
next
  case (clean p)
  with ok own_key_no_nul [OF ser, of p] show ?thesis by (auto simp: world_ok_def forget_step_holds)
next
  case (wake scr now l d)
  with ok begin_look_same [OF wake(4)] show ?thesis by (auto simp: world_ok_def)
qed (use ok own_pending_no_nul [OF ser] own_key_no_nul [OF ser] in
     \<open>auto simp: world_ok_def approvals_ok_def own_pending_def split: if_splits\<close>)

lemma reachable_world_ok:
  assumes "json_scopes (ou_scope_json ou)" and "reachable cfg ou e key w"
  shows "world_ok ou w"
  using assms(2)
proof induction
  case (base w)
  then show ?case by (simp add: initial_def world_ok_def approvals_ok_def)
next
  case (next_step w w')
  then show ?case using step_world_ok [OF assms(1)] by blast
qed

text \<open> C2: However the requests' steps and the screen watch's interleave, from a daemon that
  holds nothing: whenever neither is at work, every unlocked context the shim holds is one
  that an approval on record reaches, so nothing outlives the approval it was kept for. \<close>

theorem nothing_held_at_rest:
  assumes "json_scopes (ou_scope_json ou)" and "reachable cfg ou e key w"
    and "wd_signer w = Idle" and "wd_watch w = Asleep"
  shows "gate_ok ou (wd_daemon w)"
  using reachable_world_ok [OF assms(1,2)] assms(3,4)
  by (auto simp: world_ok_def gate_ok_def held_for_approvals_def covered_def)


section \<open>No signature spans a sign-out\<close>

fun counted :: "signer \<Rightarrow> (u64 \<times> nat) option" where
  "counted (Deciding refused n g) = Some (n, g)"
| "counted (Dropping refused n g p ks) = Some (n, g)"
| "counted (Asking n g p) = Some (n, g)"
| "counted (Prompted n g p m) = Some (n, g)"
| "counted (Made n g p r) = Some (n, g)"
| "counted (Second n g p r l) = Some (n, g)"
| "counted (Admitting n g p r scr) = Some (n, g)"
| "counted _ = None"

fun admits_unlocked :: "signer \<Rightarrow> bool" where
  "admits_unlocked (Admitting n g p (Inr sig) (Some scr)) = (refusal scr = None)"
| "admits_unlocked _ = True"

definition sent_ok :: "nat \<Rightarrow> (nat \<times> nat \<times> screen) \<Rightarrow> bool" where
  "sent_ok outs s \<longleftrightarrow> (case s of (g0, g1, scr) \<Rightarrow>
     g0 \<le> g1 \<and> g1 \<le> outs \<and> (of_nat g0 :: u64) = of_nat g1 \<and> refusal scr = None)"

definition counts_ok :: "world \<Rightarrow> bool" where
  "counts_ok w \<longleftrightarrow>
    gs_sign_outs (dm_gate (wd_daemon w)) = of_nat (wd_outs w) \<and>
    (case counted (wd_signer w) of None \<Rightarrow> True | Some (n, g) \<Rightarrow> n = of_nat g \<and> g \<le> wd_outs w) \<and>
    admits_unlocked (wd_signer w) \<and>
    list_all (sent_ok (wd_outs w)) (wd_sent w)"

lemma sent_ok_mono: "sent_ok outs s \<Longrightarrow> outs \<le> outs' \<Longrightarrow> sent_ok outs' s"
  by (auto simp: sent_ok_def)

lemma sent_all_mono: "list_all (sent_ok outs) l \<Longrightarrow> list_all (sent_ok (Suc outs)) l"
  by (auto simp: list_all_iff intro: sent_ok_mono)

lemma own_plan_outs:
  "own_plan cfg e sc now d = (p, d') \<Longrightarrow> gs_sign_outs (dm_gate d') = gs_sign_outs (dm_gate d)"
  using own_plan_parts by metis

lemma step_counts_ok:
  assumes ok: "counts_ok w" and st: "step cfg ou e key w w'"
  shows "counts_ok w'"
  using st
proof (cases rule: step.cases)
  case (plan refused n g sc now p d)
  with ok own_plan_outs [OF plan(3)] show ?thesis by (simp add: counts_ok_def)
next
  case (admitted n g p sig scr now d)
  note a = own_admit_cases [OF admitted(3)]
  have "sent_ok (wd_outs w) (g, wd_outs w, scr)"
    using ok a(2) admitted(2) by (simp add: counts_ok_def sent_ok_def)
  with ok a(5) admitted(1,2) show ?thesis by (simp add: counts_ok_def)
next
  case (too_late n g p sig scr now d)
  with ok own_admit_cases [OF too_late(3)] show ?thesis by (simp add: counts_ok_def)
next
  case (second_done n g p r scr)
  with ok show ?thesis by (cases r) (auto simp: counts_ok_def split: option.splits)
qed (use ok in \<open>auto simp: counts_ok_def begin_look_same sent_all_mono forget_step_def
       forget_all_step_def end_step_def end_approvals_def split: option.splits\<close>)

lemma reachable_counts_ok: "reachable cfg ou e key w \<Longrightarrow> counts_ok w"
proof (induction rule: reachable.induct)
  case (base w)
  then show ?case by (simp add: initial_def counts_ok_def)
next
  case (next_step w w')
  then show ?case using step_counts_ok by blast
qed

lemma u64_of_nat_inj:
  assumes "(of_nat a :: u64) = of_nat b" and "a \<le> b" and "b < 2 ^ 64"
  shows "a = b"
proof -
  have "unat (of_nat x :: u64) = x" if "x < 2 ^ 64" for x
    using that unat_of_nat [where 'a = 64, of x] take_bit_nat_eq_self [of x 64] by simp
  from this [of a] this [of b] assms show ?thesis by (metis order_le_less_trans)
qed

text \<open> C1: However the threads interleave, every signature that leaves was admitted with the
  sign-out count its request had read before deciding, and after a second look that found
  the screen unlocked: no sign-out fell between its decision and its release (while
  fewer than 2^64 sign-outs have been made, the width of the counter). \<close>

theorem no_signature_spans_sign_out:
  assumes "reachable cfg ou e key w" and "wd_outs w < 2 ^ 64"
    and "(counted_at, admitted_at, scr) \<in> set (wd_sent w)"
  shows "counted_at = admitted_at \<and> refusal scr = None"
proof -
  have "sent_ok (wd_outs w) (counted_at, admitted_at, scr)"
    using reachable_counts_ok [OF assms(1)] assms(3) by (simp add: counts_ok_def list_all_iff)
  then have s: "counted_at \<le> admitted_at" "admitted_at \<le> wd_outs w"
      "(of_nat counted_at :: u64) = of_nat admitted_at" "refusal scr = None"
    by (simp_all add: sent_ok_def)
  then show ?thesis using u64_of_nat_inj [OF s(3,1)] assms(2) by simp
qed

section \<open>The sequential turn is one of the runs\<close>

text \<open>A world whose watch sleeps, by its parts.\<close>

definition quiet :: "daemon \<Rightarrow> signer \<Rightarrow> nat \<Rightarrow> (nat \<times> nat \<times> screen) list \<Rightarrow> world" where
  "quiet d s outs sent =
    \<lparr>wd_daemon = d, wd_signer = s, wd_watch = Asleep, wd_outs = outs, wd_sent = sent\<rparr>"

lemma quiet_simps [simp]:
  "wd_daemon (quiet d s outs sent) = d" "wd_signer (quiet d s outs sent) = s"
  "wd_watch (quiet d s outs sent) = Asleep" "wd_outs (quiet d s outs sent) = outs"
  "wd_sent (quiet d s outs sent) = sent"
  "(quiet d s outs sent)\<lparr>wd_daemon := d'\<rparr> = quiet d' s outs sent"
  "(quiet d s outs sent)\<lparr>wd_signer := s'\<rparr> = quiet d s' outs sent"
  "(quiet d s outs sent)\<lparr>wd_outs := outs'\<rparr> = quiet d s outs' sent"
  "(quiet d s outs sent)\<lparr>wd_sent := sent'\<rparr> = quiet d s outs sent'"
  by (simp_all add: quiet_def)

lemma quiet_world: "wd_watch w = Asleep \<Longrightarrow> w = quiet (wd_daemon w) (wd_signer w) (wd_outs w) (wd_sent w)"
  by (simp add: quiet_def)

lemma four_steps: "r a b \<Longrightarrow> r b c \<Longrightarrow> r c d \<Longrightarrow> r d e \<Longrightarrow> r\<^sup>*\<^sup>* a e"
  by (meson converse_rtranclp_into_rtranclp rtranclp.rtrancl_refl)

lemma look_run:
  assumes "en_ends_at_lock e" and "barred e scr now d = (r, d')"
  shows "\<exists>outs' \<le> outs + 1.
    (step cfg ou e key)\<^sup>*\<^sup>* (quiet d Idle outs sent) (quiet d' (Loading r) outs' sent)"
proof -
  obtain l d1 where l: "begin_look scr now d = (l, d1)" by (cases "begin_look scr now d")
  have r: "r = refusal scr" and d': "d' = (case begin_look scr now d of
       (Ending _, d') \<Rightarrow> forget_all_step (end_step d') | (_, d') \<Rightarrow> d')"
    using assms by (auto simp: barred_def look_in_steps)
  have s: "step cfg ou e key (quiet d Idle outs sent) (quiet d1 (First l) outs sent)"
    using step.start [of "quiet d Idle outs sent" scr now l d1] l by simp
  have f: "step cfg ou e key (quiet x (First (Looked scr)) n sent) (quiet x (Loading r) n sent)" for x n
    using step.first_done [of "quiet x (First (Looked scr)) n sent" scr] r by simp
  show ?thesis
  proof (cases "l = Ending scr")
    case True
    have "step cfg ou e key (quiet d1 (First l) outs sent)
        (quiet (end_step d1) (First (Forgetting scr)) (Suc outs) sent)"
      using step.first_end [of "quiet d1 (First l) outs sent" scr] True by simp
    moreover have "step cfg ou e key (quiet (end_step d1) (First (Forgetting scr)) (Suc outs) sent)
        (quiet d' (First (Looked scr)) (Suc outs) sent)"
      using step.first_forget [of "quiet (end_step d1) (First (Forgetting scr)) (Suc outs) sent" scr]
        d' l True by simp
    ultimately show ?thesis using s f four_steps [where r = "step cfg ou e key"] by (intro exI [of _ "Suc outs"] conjI) (simp, blast)
  next
    case False
    then have "l = Looked scr" using begin_look_same(3) [OF l] by simp
    then have "d1 = d'" using d' l by simp
    with \<open>l = Looked scr\<close> s f show ?thesis
      by (intro exI [of _ outs] conjI) (simp, meson converse_rtranclp_into_rtranclp rtranclp.rtrancl_refl)
  qed
qed

lemma second_look_run:
  assumes "en_ends_at_lock e" and "barred e scr now d = (r, d')"
  shows "\<exists>outs' \<le> outs + 1. (step cfg ou e key)\<^sup>*\<^sup>* (quiet d (Made n g p res) outs sent)
    (quiet d' (Admitting n g p (case r of None \<Rightarrow> res | Some why \<Rightarrow> Inl why) (Some scr)) outs' sent)"
proof -
  obtain l d1 where l: "begin_look scr now d = (l, d1)" by (cases "begin_look scr now d")
  have r: "r = refusal scr" and d': "d' = (case begin_look scr now d of
       (Ending _, d') \<Rightarrow> forget_all_step (end_step d') | (_, d') \<Rightarrow> d')"
    using assms by (auto simp: barred_def look_in_steps)
  let ?a = "Admitting n g p (case r of None \<Rightarrow> res | Some why \<Rightarrow> Inl why) (Some scr)"
  let ?s = "Second n g p res"
  have s: "step cfg ou e key (quiet d (Made n g p res) outs sent) (quiet d1 (?s l) outs sent)"
    using step.second [of "quiet d (Made n g p res) outs sent" n g p res scr now l d1] l by simp
  have f: "step cfg ou e key (quiet x (?s (Looked scr)) k sent) (quiet x ?a k sent)" for x k
    using step.second_done [of "quiet x (?s (Looked scr)) k sent" n g p res scr] r by simp
  show ?thesis
  proof (cases "l = Ending scr")
    case True
    have "step cfg ou e key (quiet d1 (?s l) outs sent)
        (quiet (end_step d1) (?s (Forgetting scr)) (Suc outs) sent)"
      using step.second_end [of "quiet d1 (?s l) outs sent" n g p res scr] True by simp
    moreover have "step cfg ou e key (quiet (end_step d1) (?s (Forgetting scr)) (Suc outs) sent)
        (quiet d' (?s (Looked scr)) (Suc outs) sent)"
      using step.second_forget [of "quiet (end_step d1) (?s (Forgetting scr)) (Suc outs) sent" n g p res scr]
        d' l True by simp
    ultimately show ?thesis using s f four_steps [where r = "step cfg ou e key"] by (intro exI [of _ "Suc outs"] conjI) (simp, blast)
  next
    case False
    then have "l = Looked scr" using begin_look_same(3) [OF l] by simp
    then have "d1 = d'" using d' l by simp
    with \<open>l = Looked scr\<close> s f show ?thesis
      by (intro exI [of _ outs] conjI) (simp, meson converse_rtranclp_into_rtranclp rtranclp.rtrancl_refl)
  qed
qed

lemma drop_run:
  "(step cfg ou e key)\<^sup>*\<^sup>* (quiet d (Dropping r n g p ks) outs sent)
    (quiet (fold forget_step ks d) (Dropping r n g p []) outs sent)"
proof (induction ks arbitrary: d)
  case (Cons k ks)
  have "step cfg ou e key (quiet d (Dropping r n g p (k # ks)) outs sent)
      (quiet (forget_step k d) (Dropping r n g p ks) outs sent)"
    using step.drop [of "quiet d (Dropping r n g p (k # ks)) outs sent" r n g p k ks] by simp
  with Cons.IH [of "forget_step k d"] show ?case by (simp add: converse_rtranclp_into_rtranclp)
qed simp

text \<open>From the loaded count to the keys let go of.\<close>

lemma plan_run:
  assumes "own_plan cfg e sc now d = (p, d')"
  shows "(step cfg ou e key)\<^sup>*\<^sup>* (quiet d (Loading r) outs sent)
    (quiet (own_release ou p d') (Dropping r (gs_sign_outs (dm_gate d)) outs p []) outs sent)"
proof -
  let ?n = "gs_sign_outs (dm_gate d)"
  have "step cfg ou e key (quiet d (Loading r) outs sent) (quiet d (Deciding r ?n outs) outs sent)"
    using step.load [of "quiet d (Loading r) outs sent" r] by simp
  moreover have "step cfg ou e key (quiet d (Deciding r ?n outs) outs sent)
      (quiet d' (Dropping r ?n outs p (drop_keys ou p)) outs sent)"
    using step.plan [of "quiet d (Deciding r ?n outs) outs sent" r ?n outs cfg e sc now p d'] assms by simp
  ultimately show ?thesis
    using drop_run [of cfg ou e key d' r ?n outs p "drop_keys ou p" outs sent]
    by (simp add: own_release_in_steps converse_rtranclp_into_rtranclp)
qed

lemma sign_run:
  assumes "sign_in_key_parse (en_blob e) = Some key"
    and "own_sign cfg ou e ap who data p d = (res, ev, d')"
  shows "(step cfg ou e key)\<^sup>*\<^sup>* (quiet d (Dropping None n g p []) outs sent)
    (quiet d' (Made n g p res) outs sent)"
proof -
  let ?txt = "c_str_or_empty (own_reason cfg who p)"
  have a: "step cfg ou e key (quiet d (Dropping None n g p []) outs sent) (quiet d (Asking n g p) outs sent)"
    using step.ask [of "quiet d (Dropping None n g p []) outs sent" n g p] by simp
  obtain r c where b: "ask_begin ou key ap data p (dm_cache d) = (r, c)"
    by (cases "ask_begin ou key ap data p (dm_cache d)")
  have s: "own_sign cfg ou e ap who data p d =
    (case (case r of Some (out, ev) \<Rightarrow> (out, ev, c)
           | None \<Rightarrow> ask_end cfg ou key ap data ?txt p (lc_made (dm_cache d)) c) of
       (out, ev, c') \<Rightarrow> (sign_result out, ev, d\<lparr>dm_cache := c'\<rparr>))"
    using assms(1) b by (auto simp: own_sign_def enclave_sign_def kwse_call_def kwse_sign_def
        sign_in_steps ask_begin_def ask_end_def Let_def split: prod.splits option.splits)
  show ?thesis
  proof (cases r)
    case (Some oe)
    then obtain out ev' where oe: "r = Some (out, ev')" by (cases oe) auto
    have "step cfg ou e key (quiet d (Asking n g p) outs sent) (quiet d' (Made n g p res) outs sent)"
      using step.answered [of "quiet d (Asking n g p) outs sent" n g p ou key ap data out ev' c]
        b oe s assms(2) by simp
    with a show ?thesis by simp
  next
    case None
    obtain out ev' c' where x: "ask_end cfg ou key ap data ?txt p (lc_made (dm_cache d)) c = (out, ev', c')"
      by (cases "ask_end cfg ou key ap data ?txt p (lc_made (dm_cache d)) c") auto
    let ?m = "Prompted n g p (lc_made (dm_cache d))"
    have "step cfg ou e key (quiet d (Asking n g p) outs sent) (quiet (d\<lparr>dm_cache := c\<rparr>) ?m outs sent)"
      using step.prompt [of "quiet d (Asking n g p) outs sent" n g p ou key ap data c] b None by simp
    moreover have "step cfg ou e key (quiet (d\<lparr>dm_cache := c\<rparr>) ?m outs sent) (quiet d' (Made n g p res) outs sent)"
      using step.released [of "quiet (d\<lparr>dm_cache := c\<rparr>) ?m outs sent" n g p "lc_made (dm_cache d)"
          cfg ou key ap data ?txt out ev' c'] x s None assms(2) by simp
    ultimately show ?thesis using a by (simp add: converse_rtranclp_into_rtranclp)
  qed
qed

lemma clean_run:
  "step cfg ou e key (quiet d (Cleaning p) outs sent) (quiet (own_forget ou p d) Idle outs sent)"
  using step.clean [of "quiet d (Cleaning p) outs sent" p]
  by (simp add: own_forget_def forget_step_def)

lemma failed_run:
  assumes "d' = (if \<not> pl_live p \<or> gs_sign_outs (dm_gate d) \<noteq> n then own_forget ou p d else d)"
  shows "(step cfg ou e key)\<^sup>*\<^sup>* (quiet d (Admitting n g p (Inl err) scr) outs sent) (quiet d' Idle outs sent)"
proof (cases "\<not> pl_live p \<or> gs_sign_outs (dm_gate d) \<noteq> n")
  case True
  have "step cfg ou e key (quiet d (Admitting n g p (Inl err) scr) outs sent) (quiet d (Cleaning p) outs sent)"
    using step.failed_clean [of "quiet d (Admitting n g p (Inl err) scr) outs sent" n g p err scr] True
    by simp
  with clean_run [of cfg ou e key d p outs sent] assms True show ?thesis
    by (simp add: converse_rtranclp_into_rtranclp)
next
  case False
  have "step cfg ou e key (quiet d (Admitting n g p (Inl err) scr) outs sent) (quiet d Idle outs sent)"
    using step.failed_live [of "quiet d (Admitting n g p (Inl err) scr) outs sent" n g p err scr] False
    by simp
  with assms False show ?thesis by auto
qed

lemma finish_run:
  assumes "own_finish ou p n now res d = (reply, outcome, d')"
  shows "\<exists>sent'. (step cfg ou e key)\<^sup>*\<^sup>* (quiet d (Admitting n g p res (Some scr)) outs sent)
      (quiet d' Idle outs sent') \<and>
    sent' = (if reply = [FAILURE] then sent else (g, outs, scr) # sent)"
  using assms
proof (cases rule: own_finish_reply)
  case (signed sig)
  have "step cfg ou e key (quiet d (Admitting n g p (Inr sig) (Some scr)) outs sent)
      (quiet d' Idle outs ((g, outs, scr) # sent))"
    using step.admitted [of "quiet d (Admitting n g p (Inr sig) (Some scr)) outs sent" n g p sig scr now d']
      signed by (simp add: own_admit_def admit_def)
  then show ?thesis using signed sign_response_head(1) by auto
next
  case (late sig)
  have "step cfg ou e key (quiet d (Admitting n g p (Inr sig) (Some scr)) outs sent)
      (quiet d (Cleaning p) outs sent)"
    using step.too_late [of "quiet d (Admitting n g p (Inr sig) (Some scr)) outs sent" n g p sig scr now d]
      late by (simp add: own_admit_def admit_def)
  with clean_run [of cfg ou e key d p outs sent] late show ?thesis
    by (simp add: converse_rtranclp_into_rtranclp)
next
  case (failed err)
  then show ?thesis using failed_run [OF failed(4)] by auto
qed

lemma reachable_run: "(step cfg ou e key)\<^sup>*\<^sup>* w w' \<Longrightarrow> reachable cfg ou e key w \<Longrightarrow> reachable cfg ou e key w'"
  by (induction rule: rtranclp_induct) (auto intro: reachable.next_step)

lemma turn_run:
  assumes "sign_in_key_parse (en_blob e) = Some key" and e: "en_ends_at_lock e"
    and "own_turn cfg ou e rd who data d = (reply, outcome, p, ev, d')"
  shows "\<exists>outs' sent'. (step cfg ou e key)\<^sup>*\<^sup>* (quiet d Idle outs sent) (quiet d' Idle outs' sent') \<and>
    length sent' = (if reply = [FAILURE] then 0 else 1) + length sent \<and> outs' \<le> outs + 2"
  using assms(3)
proof (cases rule: own_turn_cases)
  case (refused why st1 st2)
  let ?n = "gs_sign_outs (dm_gate st1)"
  obtain o1 where a: "(step cfg ou e key)\<^sup>*\<^sup>* (quiet d Idle outs sent) (quiet st1 (Loading (Some why)) o1 sent)"
      "o1 \<le> outs + 1"
    using look_run [OF e refused(1)] by blast
  note b = plan_run [OF refused(2), where r = "Some why" and outs = o1 and sent = sent and key = key and ou = ou]
  have c: "step cfg ou e key (quiet (own_release ou p st2) (Dropping (Some why) ?n o1 p []) o1 sent)
      (quiet (own_release ou p st2) (Admitting ?n o1 p (Inl why) None) o1 sent)"
    using step.refuse [of "quiet (own_release ou p st2) (Dropping (Some why) ?n o1 p []) o1 sent"] by simp
  from refused(4) have f: "reply = [FAILURE]" "d' = (if \<not> pl_live p \<or>
      gs_sign_outs (dm_gate (own_release ou p st2)) \<noteq> ?n then own_forget ou p (own_release ou p st2)
      else own_release ou p st2)"
    by (cases rule: own_finish_reply; simp)+
  note g = failed_run [OF f(2), where cfg = cfg and e = e and key = key and g = o1 and err = why and scr = None
      and outs = o1 and sent = sent]
  have "(step cfg ou e key)\<^sup>*\<^sup>* (quiet d Idle outs sent) (quiet d' Idle o1 sent)"
    using a(1) b c g by (meson rtranclp.rtrancl_into_rtrancl rtranclp_trans)
  with f(1) a(2) show ?thesis by (intro exI [of _ o1] exI [of _ sent]) simp
next
  case (asked st1 st2 res s' again st4)
  let ?n = "gs_sign_outs (dm_gate st1)"
  obtain o1 where a: "(step cfg ou e key)\<^sup>*\<^sup>* (quiet d Idle outs sent) (quiet st1 (Loading None) o1 sent)"
      "o1 \<le> outs + 1"
    using look_run [OF e asked(1)] by blast
  note b = plan_run [OF asked(2), where r = None and outs = o1 and sent = sent and key = key and ou = ou]
  note c = sign_run [OF assms(1) asked(3), where n = ?n and g = o1 and outs = o1 and sent = sent]
  obtain o2 where l: "(step cfg ou e key)\<^sup>*\<^sup>* (quiet s' (Made ?n o1 p res) o1 sent) (quiet st4
      (Admitting ?n o1 p (case again of None \<Rightarrow> res | Some why \<Rightarrow> Inl why) (Some (rd_screen2 rd))) o2 sent)"
      "o2 \<le> o1 + 1"
    using second_look_run [OF e asked(4)] by blast
  obtain sent' where f: "(step cfg ou e key)\<^sup>*\<^sup>* (quiet st4
      (Admitting ?n o1 p (case again of None \<Rightarrow> res | Some why \<Rightarrow> Inl why) (Some (rd_screen2 rd))) o2 sent)
      (quiet d' Idle o2 sent')"
      "length sent' = (if reply = [FAILURE] then 0 else 1) + length sent"
    using finish_run [OF asked(5), where cfg = cfg and e = e and key = key and g = o1
        and scr = "rd_screen2 rd" and outs = o2 and sent = sent] by (auto split: if_splits)
  have "(step cfg ou e key)\<^sup>*\<^sup>* (quiet d Idle outs sent) (quiet d' Idle o2 sent')"
    using a(1) b c l(1) f(1) by (meson rtranclp_trans)
  with f(2) a(2) l(2) show ?thesis by (intro exI [of _ o2] exI [of _ sent']) simp
qed

text \<open> C4: The turn of a request as the sequential model has it, one function of the daemon,
  is a run of the interleaved steps in which the watch stays asleep; it ends where the
  function ends, with the daemon it returns, and one signature more has been sent
  exactly when the answer is not a failure. So what is proved of every interleaving
  holds of the handler. \<close>

theorem turn_is_a_run:
  assumes "reachable cfg ou e key w" and "wd_signer w = Idle" and "wd_watch w = Asleep"
    and "sign_in_key_parse (en_blob e) = Some key" and "en_ends_at_lock e"
    and "own_turn cfg ou e rd who data (wd_daemon w) = (reply, outcome, p, ev, d')"
  shows "\<exists>w'. reachable cfg ou e key w' \<and> wd_daemon w' = d' \<and> wd_signer w' = Idle \<and>
    wd_watch w' = Asleep \<and>
    length (wd_sent w') = (if reply = [FAILURE] then 0 else 1) + length (wd_sent w)"
  using assms(6)
proof -
  obtain outs' sent' where r: "(step cfg ou e key)\<^sup>*\<^sup>* (quiet (wd_daemon w) Idle (wd_outs w) (wd_sent w))
      (quiet d' Idle outs' sent')"
      "length sent' = (if reply = [FAILURE] then 0 else 1) + length (wd_sent w)"
    using turn_run [OF assms(4-6), where outs = "wd_outs w" and sent = "wd_sent w"] by blast
  have "w = quiet (wd_daemon w) Idle (wd_outs w) (wd_sent w)" using quiet_world [OF assms(3)] assms(2) by simp
  with r(1) reachable_run [OF _ assms(1)] have "reachable cfg ou e key (quiet d' Idle outs' sent')" by metis
  with r(2) show ?thesis by (intro exI [of _ "quiet d' Idle outs' sent'"]) simp
qed

section \<open>Witnesses\<close>

definition test_world :: world where
  "test_world = quiet test_daemon Idle 0 []"

lemma test_reachable: "reachable cfg ou e key test_world"
  by (rule reachable.base)
     (simp add: test_world_def initial_def test_daemon_def empty_cache_def cache_holds_def)

lemma test_sign_in_key: "sign_in_key_parse (en_blob test_enclave) = Some example_key"
  using example_parse by (simp add: test_enclave_def example_req_def)

lemma test_turn_ends:
  obtains p ev d where
    "own_turn test_config test_outside test_enclave test_readings nobody [9] (wd_daemon test_world) =
      (sign_response (ssh_ecdsa_signature (replicate 32 1) (replicate 32 1)), ''ok'', p, ev, d)"
  using test_turn by (auto simp: test_world_def)

lemma test_idle: "wd_signer test_world = Idle" "wd_watch test_world = Asleep" "wd_sent test_world = []"
  "wd_outs test_world = 0"
  by (simp_all add: test_world_def)

lemma test_lock: "en_ends_at_lock test_enclave"
  by (simp add: test_enclave_def)

theorem turn_is_a_run_witness:
  "\<exists>w. reachable test_config test_outside test_enclave example_key w \<and> length (wd_sent w) = 1"
proof -
  obtain p ev d where t:
    "own_turn test_config test_outside test_enclave test_readings nobody [9] (wd_daemon test_world) =
      (sign_response (ssh_ecdsa_signature (replicate 32 1) (replicate 32 1)), ''ok'', p, ev, d)"
    by (rule test_turn_ends)
  from turn_is_a_run [OF test_reachable test_idle(1,2) test_sign_in_key test_lock t]
  obtain w where "reachable test_config test_outside test_enclave example_key w"
      "length (wd_sent w) = (if sign_response (ssh_ecdsa_signature (replicate 32 1) (replicate 32 1)) = [FAILURE]
        then 0 else 1) + length (wd_sent test_world)"
    by blast
  then show ?thesis using sign_response_head(1) test_idle(3) by (intro exI [of _ w]) simp
qed

text \<open>After the test turn: at rest, one signature sent.\<close>

lemma test_after_turn:
  obtains d outs sent where "outs \<le> 2" "length sent = 1"
    "reachable test_config test_outside test_enclave example_key (quiet d Idle outs sent)"
proof -
  obtain p ev d where t:
    "own_turn test_config test_outside test_enclave test_readings nobody [9] (wd_daemon test_world) =
      (sign_response (ssh_ecdsa_signature (replicate 32 1) (replicate 32 1)), ''ok'', p, ev, d)"
    by (rule test_turn_ends)
  obtain outs' sent' where r: "(step test_config test_outside test_enclave example_key)\<^sup>*\<^sup>*
        (quiet (wd_daemon test_world) Idle 0 []) (quiet d Idle outs' sent')" "outs' \<le> 2"
      "length sent' = (if sign_response (ssh_ecdsa_signature (replicate 32 1) (replicate 32 1)) = [FAILURE]
        then 0 else 1)"
    using turn_run [OF test_sign_in_key test_lock t, of 0 "[]"] by auto
  have "quiet (wd_daemon test_world) Idle 0 [] = test_world" by (simp add: test_world_def)
  with r(1) have "reachable test_config test_outside test_enclave example_key (quiet d Idle outs' sent')"
    using reachable_run [OF _ test_reachable] by metis
  then show thesis using that [OF r(2)] r(3) sign_response_head(1) by simp
qed

theorem nothing_held_at_rest_witness:
  "\<exists>d outs sent. length sent = 1 \<and>
    reachable test_config test_outside test_enclave example_key (quiet d Idle outs sent) \<and>
    gate_ok test_outside d"
proof -
  obtain d outs and sent :: "(nat \<times> nat \<times> screen) list" where r: "length sent = 1"
      "reachable test_config test_outside test_enclave example_key (quiet d Idle outs sent)"
    by (rule test_after_turn)
  from nothing_held_at_rest [OF test_json r(2)] r show ?thesis
    by (intro exI [of _ d] exI [of _ outs] exI [of _ sent]) simp
qed

theorem no_signature_spans_sign_out_witness:
  "\<exists>d outs g scr. reachable test_config test_outside test_enclave example_key
    (quiet d Idle outs [(g, g, scr)]) \<and> outs < 2 ^ 64 \<and> refusal scr = None"
proof -
  obtain d outs and sent :: "(nat \<times> nat \<times> screen) list" where r: "outs \<le> 2" "length sent = 1"
      "reachable test_config test_outside test_enclave example_key (quiet d Idle outs sent)"
    by (rule test_after_turn)
  obtain g0 g1 scr where s: "sent = [(g0, g1, scr)]"
    using r(2) by (cases sent) auto
  have o: "wd_outs (quiet d Idle outs sent) < 2 ^ 64" using r(1) by simp
  have "(g0, g1, scr) \<in> set (wd_sent (quiet d Idle outs sent))" by (simp add: s)
  from no_signature_spans_sign_out [OF r(3) o this] s r(3) o show ?thesis
    by (intro exI [of _ d] exI [of _ outs] exI [of _ g0] exI [of _ scr]) simp
qed

section \<open>The race a sign-out can win\<close>

definition racing :: "daemon \<Rightarrow> signer \<Rightarrow> watcher \<Rightarrow> nat \<Rightarrow> world" where
  "racing d s wt outs = \<lparr>wd_daemon = d, wd_signer = s, wd_watch = wt, wd_outs = outs, wd_sent = []\<rparr>"

lemma racing_simps [simp]:
  "wd_daemon (racing d s wt outs) = d" "wd_signer (racing d s wt outs) = s"
  "wd_watch (racing d s wt outs) = wt" "wd_outs (racing d s wt outs) = outs"
  "wd_sent (racing d s wt outs) = []"
  "(racing d s wt outs)\<lparr>wd_daemon := d'\<rparr> = racing d' s wt outs"
  "(racing d s wt outs)\<lparr>wd_signer := s'\<rparr> = racing d s' wt outs"
  "(racing d s wt outs)\<lparr>wd_watch := wt'\<rparr> = racing d s wt' outs"
  "(racing d s wt outs)\<lparr>wd_outs := outs'\<rparr> = racing d s wt outs'"
  by (simp_all add: racing_def)

definition race_plan :: plan where
  "race_plan = \<lparr>pl_reach = Everywhere, pl_window = Fin 21600, pl_live = False, pl_expired = [],
    pl_signing_in = Some (AtScreenLock (Fin 21600)), pl_unlock_reuse = 0\<rparr>"

definition seen_at :: "f64 \<Rightarrow> screen \<Rightarrow> daemon \<Rightarrow> daemon" where
  "seen_at t scr d = d\<lparr>dm_looked := \<lparr>lk_at = t, lk_saw = scr\<rparr>\<rparr>"

text \<open>
  The watch sees a lock and ends the approvals; before it gets to forgetting, a request that
  had looked just before reads the new count, plans and asks.
\<close>

lemma race_plan:
  "own_plan test_config test_enclave default_scope (Fin 101) (end_step (seen_at (Fin 101) Locked test_daemon)) =
    (race_plan, end_step (seen_at (Fin 101) Locked test_daemon))"
  by (simp add: own_plan_def decide_def test_config_def test_enclave_def race_plan_def
      end_step_def end_approvals_def seen_at_def test_daemon_def expire_def reuse_covers_def grant_def
      zero_f64_def Let_def)

lemma race_asks:
  obtains c where
    "reachable test_config test_outside test_enclave example_key
      (racing ((end_step (seen_at (Fin 101) Locked test_daemon))\<lparr>dm_cache := c\<rparr>)
        (Asking 1 1 race_plan) (Watching (Forgetting Locked)) 1)"
    "lc_secrets c = Map.empty"
proof -
  let ?r = "reachable test_config test_outside test_enclave example_key"
  let ?d1 = "seen_at (Fin 100) Unlocked test_daemon"
  let ?d2 = "seen_at (Fin 101) Locked test_daemon"
  let ?d3 = "end_step ?d2"
  let ?k = "own_key test_outside race_plan"
  have "?r (racing test_daemon Idle Asleep 0)"
    by (rule reachable.base) (simp add: initial_def test_daemon_def empty_cache_def cache_holds_def)
  from next_step [OF this step.start [of _ Unlocked "Fin 100" "Looked Unlocked" ?d1]]
  have "?r (racing ?d1 (First (Looked Unlocked)) Asleep 0)"
    by (simp add: begin_look_def calls_sign_out_def unseen_def test_daemon_def seen_at_def)
  from next_step [OF this step.first_done [of _ Unlocked]]
  have "?r (racing ?d1 (Loading None) Asleep 0)" by simp
  from next_step [OF this step.wake [of _ Locked "Fin 101" "Ending Locked" ?d2]]
  have "?r (racing ?d2 (Loading None) (Watching (Ending Locked)) 0)"
    by (simp add: begin_look_def calls_sign_out_def seen_at_def)
  from next_step [OF this step.watch_end [of _ Locked]]
  have "?r (racing ?d3 (Loading None) (Watching (Forgetting Locked)) 1)" by simp
  from next_step [OF this step.load [of _ None]]
  have "?r (racing ?d3 (Deciding None 1 1) (Watching (Forgetting Locked)) 1)"
    by (simp add: end_step_def end_approvals_def seen_at_def test_daemon_def)
  from next_step [OF this step.plan [of _ None 1 1 test_config test_enclave default_scope "Fin 101" race_plan ?d3]]
  have "?r (racing ?d3 (Dropping None 1 1 race_plan (drop_keys test_outside race_plan))
      (Watching (Forgetting Locked)) 1)"
    by (simp add: race_plan)
  then have "?r (racing ?d3 (Dropping None 1 1 race_plan [?k]) (Watching (Forgetting Locked)) 1)"
    by (simp add: drop_keys_def race_plan_def)
  from next_step [OF this step.drop [of _ None 1 1 race_plan ?k "[]"]]
  have "?r (racing (forget_step ?k ?d3) (Dropping None 1 1 race_plan []) (Watching (Forgetting Locked)) 1)"
    by simp
  from next_step [OF this step.ask [of _ 1 1 race_plan]]
  have "?r (racing (forget_step ?k ?d3) (Asking 1 1 race_plan) (Watching (Forgetting Locked)) 1)" by simp
  moreover have "lc_secrets (dm_cache (forget_step ?k ?d3)) = Map.empty"
    by (simp add: forget_step_def enclave_forget_def cache_forget_def end_step_def seen_at_def
        test_daemon_def empty_cache_def)
  ultimately show thesis using that [of "dm_cache (forget_step ?k ?d3)"] by (simp add: forget_step_def)
qed

text \<open>The Touch ID is answered, the secret kept; then the watch forgets it.\<close>

lemma race_signs:
  obtains c where
    "reachable test_config test_outside test_enclave example_key
      (racing ((end_step (seen_at (Fin 101) Locked test_daemon))\<lparr>dm_cache := c\<rparr>)
        (Made 1 1 race_plan (Inr (ssh_ecdsa_signature (replicate 32 1) (replicate 32 1)))) Asleep 1)"
    "\<forall>k. \<not> cache_holds c k"
proof -
  let ?r = "reachable test_config test_outside test_enclave example_key"
  let ?d = "\<lambda>c. (end_step (seen_at (Fin 101) Locked test_daemon))\<lparr>dm_cache := c\<rparr>"
  let ?sig = "ssh_ecdsa_signature (replicate 32 1) (replicate 32 1)"
  obtain c where a: "?r (racing (?d c) (Asking 1 1 race_plan) (Watching (Forgetting Locked)) 1)"
      "lc_secrets c = Map.empty"
    by (rule race_asks)
  obtain c1 where b: "ask_begin test_outside example_key willing [9] race_plan c = (None, c1)"
    using a(2) by (simp add: ask_begin_def sign_in_begin_def cache_secret_def race_plan_def)
  obtain out ev c2 where x: "ask_end test_config test_outside example_key willing [9] [] race_plan
      (lc_made c) c1 = (out, ev, c2)"
    by (cases "ask_end test_config test_outside example_key willing [9] [] race_plan (lc_made c) c1") auto
  have sig: "sign_result out = Inr ?sig"
    using x by (auto simp: ask_end_def sign_in_end_def release_secret_def willing_def race_plan_def
        signed_out_def sign_with_secret_def store_out_def sign_result_def numeral_eq_Suc Let_def)
  from next_step [OF a(1) step.prompt [of _ 1 1 race_plan test_outside example_key willing "[9]" c1]]
  have "?r (racing (?d c1) (Prompted 1 1 race_plan (lc_made c)) (Watching (Forgetting Locked)) 1)"
    using b by simp
  from next_step [OF this step.released [of _ 1 1 race_plan "lc_made c" test_config test_outside
        example_key willing "[9]" "[]" out ev c2]]
  have "?r (racing (?d c2) (Made 1 1 race_plan (Inr ?sig)) (Watching (Forgetting Locked)) 1)"
    using x sig by simp
  from next_step [OF this step.watch_forget [of _ Locked]]
  have "?r (racing (forget_all_step (?d c2)) (Made 1 1 race_plan (Inr ?sig)) (Watching (Looked Locked)) 1)"
    by simp
  from next_step [OF this step.watch_done [of _ Locked]]
  have "?r (racing (forget_all_step (?d c2)) (Made 1 1 race_plan (Inr ?sig)) Trying 1)" by simp
  from next_step [OF this step.gate_busy]
  have "?r (racing (forget_all_step (?d c2)) (Made 1 1 race_plan (Inr ?sig)) Asleep 1)" by simp
  then show thesis using that [of "enclave_forget_all c2"] forget_all_step_simps(2) [of "?d c2"]
    by (simp add: forget_all_step_def)
qed

text \<open> C26: The window the code leaves open: a sign-out is two steps, the approvals first and what
  the shim holds after, and a request that starts between them counts it as past. The steps
  then reach a rest in which a sign-in is on record as approved while the shim
  holds no secret for it, so every request that rides it fails until it ends. \<close>

theorem sign_in_without_secret_reachable:
  "\<exists>w t. reachable test_config test_outside test_enclave example_key w \<and>
    wd_signer w = Idle \<and> wd_watch w = Asleep \<and>
    map_of (gs_approved (dm_gate (wd_daemon w))) Everywhere = Some t \<and>
    cache_secret (dm_cache (wd_daemon w)) (reach_key (ou_scope_json test_outside) Everywhere) = None"
proof -
  let ?r = "reachable test_config test_outside test_enclave example_key"
  let ?sig = "ssh_ecdsa_signature (replicate 32 1) (replicate 32 1)"
  obtain c where a: "?r (racing ((end_step (seen_at (Fin 101) Locked test_daemon))\<lparr>dm_cache := c\<rparr>)
        (Made 1 1 race_plan (Inr ?sig)) Asleep 1)" "\<forall>k. \<not> cache_holds c k"
    by (rule race_signs)
  define d where "d = (end_step (seen_at (Fin 101) Locked test_daemon))\<lparr>dm_cache := c\<rparr>"
  have g: "dm_gate d = \<lparr>gs_approved = [], gs_sign_outs = 1\<rparr>"
    by (simp add: d_def end_step_def end_approvals_def seen_at_def test_daemon_def)
  let ?d = "seen_at (Fin 103) Unlocked d"
  from next_step [OF a(1) step.second [of _ 1 1 race_plan "Inr ?sig" Unlocked "Fin 103" "Looked Unlocked" ?d]]
  have "?r (racing ?d (Second 1 1 race_plan (Inr ?sig) (Looked Unlocked)) Asleep 1)"
    by (simp add: begin_look_def calls_sign_out_def unseen_def seen_at_def d_def end_step_def)
  from next_step [OF this step.second_done [of _ 1 1 race_plan "Inr ?sig" Unlocked]]
  have r: "?r (racing ?d (Admitting 1 1 race_plan (Inr ?sig) (Some Unlocked)) Asleep 1)" by simp
  define d' where "d' = ?d\<lparr>dm_gate := \<lparr>gs_approved = [(Everywhere, Fin 103)], gs_sign_outs = 1\<rparr>\<rparr>"
  have "own_admit race_plan 1 (Fin 103) ?d = (True, d')"
    using g by (simp add: own_admit_def admit_def seen_at_def d'_def opened_def race_plan_def zero_f64_def)
  with next_step [OF r step.admitted [of _ 1 1 race_plan ?sig Unlocked "Fin 103" d']]
  have f: "?r ((racing d' Idle Asleep 1)\<lparr>wd_sent := [(1, 1, Unlocked)]\<rparr>)" by simp
  have "cache_secret (dm_cache d') k = None" for k
    using a(2) by (simp add: d'_def seen_at_def d_def cache_holds_def cache_secret_def)
  with f show ?thesis
    by (intro exI [of _ "(racing d' Idle Asleep 1)\<lparr>wd_sent := [(1, 1, Unlocked)]\<rparr>"] exI [of _ "Fin 103"])
       (simp add: d'_def)
qed

end
