(* ===== verification/Card.thy ===== *)
theory Card
  imports Agent_Laws
begin

text \<open>
  \<open>daemon/src/ui.rs\<close>: what the app is told while a signature is in flight. The message of
  the card, field by field; how a link of the chain is named; the command it shows, with the
  script a shell reads from its standard input where that can be recovered; and the exchange
  with the app's socket, which may break off at any point without stopping the signature.
\<close>

section \<open>The message\<close>

record show_msg =
  sm_headline :: string
  sm_app :: "string option"
  sm_app_bundle :: "string option"
  sm_process :: "string option"
  sm_key :: "string option"
  sm_fingerprint :: "string option"
  sm_host :: "string option"
  sm_repo :: "string option"
  sm_branch :: "string option"
  sm_subject :: "string option"
  sm_command :: "string option"
  sm_script :: bool
  sm_chain :: "string list"
  sm_session :: "string option"
  sm_directory :: "string option"
  sm_remote :: "string option"
  sm_commits :: "string list"
  sm_commit_count :: "nat option"
  sm_stat :: "string option"
  sm_upstream :: "string option"
  sm_sign_in :: "string option"

definition says_frizz :: "string \<Rightarrow> bool" where
  "says_frizz s \<longleftrightarrow> contains s ''.frizz/server-releases'' \<or> contains s ''frizz-server''"

definition says_claude :: "string \<Rightarrow> bool" where
  "says_claude s \<longleftrightarrow> contains s ''/claude'' \<or> contains s ''claude-code''"

definition display_name :: "proc_info \<Rightarrow> string option" where
  "display_name p =
    (case pi_name p of
       None \<Rightarrow> None
     | Some name \<Rightarrow>
         let head = (case pi_path p of None \<Rightarrow> [] | Some path \<Rightarrow> [path]) @ take 2 (pi_args p)
         in if (case pi_path p of None \<Rightarrow> False | Some path \<Rightarrow> ends_with path ''/claude'')
            then Some ''claude''
            else if list_ex says_frizz head then Some ''frizz server''
            else if name = ''node'' \<and> list_ex says_claude head then Some ''claude''
            else Some name)"

definition short_home :: "string option \<Rightarrow> string \<Rightarrow> string" where
  "short_home home path =
    (case home of
       Some h \<Rightarrow> (if starts_with path h then ''~'' @ drop (length h) path else path)
     | None \<Rightarrow> path)"

definition socket_path :: "string option \<Rightarrow> string" where
  "socket_path home =
    path_join (unwrap_or home ''/tmp'') ''Library/Application Support/Keyward/ui.sock''"

definition reads_stdin :: "string \<Rightarrow> bool" where
  "reads_stdin cmd \<longleftrightarrow>
    trim cmd \<in> set [''bash -s'', ''sh -s'', ''zsh -s'', ''bash'', ''sh'', ''zsh'', ''bash -'', ''sh -'', ''cat'']"

definition SCRIPT_MAX :: nat where "SCRIPT_MAX = 64 * 1024"

text \<open>The file behind descriptor 0, read whole. Its length in the metadata is that of its text.\<close>

definition stdin_script :: "os \<Rightarrow> int \<Rightarrow> string option" where
  "stdin_script m pid =
    (case fd_path m pid 0 of
       None \<Rightarrow> None
     | Some path \<Rightarrow>
         (case os_read m path of
            None \<Rightarrow> None
          | Some text \<Rightarrow>
              if \<not> os_is_file m path \<or> length text = 0 \<or> SCRIPT_MAX < length text then None
              else if trim text = [] then None else Some (trim text)))"

definition piped_note :: string where
  "piped_note = ''   (script piped on stdin '' @ em_dash @ '' not readable)''"

definition raw_command :: "attribution \<Rightarrow> string option" where
  "raw_command who =
    or_else (pu_remote_command (at_purpose who)) (map_option commandline (at_process who))"

definition show_command :: "os \<Rightarrow> attribution \<Rightarrow> string option \<times> bool" where
  "show_command m who =
    (case raw_command who of
       Some c \<Rightarrow>
         if reads_stdin c then
           (case Option.bind (at_process who) (\<lambda>p. stdin_script m (pi_pid p)) of
              Some script \<Rightarrow> (Some script, True)
            | None \<Rightarrow> (Some (c @ piped_note), False))
         else (Some c, False)
     | None \<Rightarrow> (None, False))"

definition shown_remote :: "git_context \<Rightarrow> string option" where
  "shown_remote g =
    (case (gc_push_remote g, gc_push_remote_url g) of
       (Some n, Some url) \<Rightarrow> Some (n @ '' = '' @ url)
     | (Some n, None) \<Rightarrow> Some n
     | (None, _) \<Rightarrow> None)"

definition show_message ::
  "os \<Rightarrow> attribution \<Rightarrow> string \<Rightarrow> string option \<Rightarrow> string option \<Rightarrow> string option \<Rightarrow> show_msg" where
  "show_message m who headline key fp sign_in_text =
    (let git = cx_git (at_context who); (command, script) = show_command m who in
     \<lparr>sm_headline = headline,
      sm_app = map_option ai_name (at_app who),
      sm_app_bundle = map_option ai_bundle_path (at_app who),
      sm_process = Option.bind (at_process who) pi_name,
      sm_key = key, sm_fingerprint = fp,
      sm_host = pu_host (at_purpose who), sm_repo = pu_repo (at_purpose who),
      sm_branch = Option.bind git gc_branch, sm_subject = Option.bind git gc_subject,
      sm_command = command, sm_script = script,
      sm_chain = List.map_filter display_name (rev (at_ancestry who)),
      sm_session = or_else (cx_session_title (at_context who))
        (cx_env (at_context who) ''CLAUDE_CODE_HOST_SESSION_ID''),
      sm_directory = map_option (short_home (os_home m))
        (or_else (pu_repo_path (at_purpose who)) (Option.bind (at_process who) pi_cwd)),
      sm_remote = Option.bind git shown_remote,
      sm_commits = (case git of None \<Rightarrow> [] | Some g \<Rightarrow> gc_commits g),
      sm_commit_count = Option.bind git gc_commit_count,
      sm_stat = Option.bind git gc_stat, sm_upstream = Option.bind git gc_upstream,
      sm_sign_in = sign_in_text\<rparr>)"

section \<open>The exchange with the app\<close>

text \<open>How far the socket carries: a connection, the message's JSON, a write, a second handle.\<close>

record ui_io =
  ui_connects :: bool
  ui_json :: "show_msg \<Rightarrow> string option"
  ui_writes :: bool
  ui_clones :: bool

text \<open>The connection that is kept, the lines sent on it, and whether the app's line is awaited.\<close>

record card =
  cd_open :: bool
  cd_sent :: "string list"
  cd_waits :: bool

definition show_card :: "ui_io \<Rightarrow> show_msg \<Rightarrow> card" where
  "show_card io msg =
    (if \<not> ui_connects io then \<lparr>cd_open = False, cd_sent = [], cd_waits = False\<rparr>
     else
       (case ui_json io msg of
          None \<Rightarrow> \<lparr>cd_open = True, cd_sent = [], cd_waits = False\<rparr>
        | Some line \<Rightarrow>
            if \<not> ui_writes io then \<lparr>cd_open = False, cd_sent = [], cd_waits = False\<rparr>
            else \<lparr>cd_open = True, cd_sent = [line @ [CHR 0x0A]], cd_waits = ui_clones io\<rparr>))"

definition done_line :: string where
  "done_line = ''{\"type\":\"done\"}'' @ [CHR 0x0A]"

text \<open>\<open>Card::done\<close>: said on a connection still held, which is then dropped.\<close>

definition card_done :: "bool \<Rightarrow> card \<Rightarrow> card" where
  "card_done writes c =
    c\<lparr>cd_open := False, cd_sent := cd_sent c @ (if cd_open c \<and> writes then [done_line] else [])\<rparr>"

section \<open>The card of a signature\<close>

definition own_message ::
  "config \<Rightarrow> outside \<Rightarrow> enclave \<Rightarrow> attribution \<Rightarrow> plan \<Rightarrow> show_msg option" where
  "own_message cfg ou e who p =
    (if cf_require_approval cfg
     then Some (show_message (ou_os ou) who (prompt_action who) (Some (en_comment e))
       (Some (fingerprint ou (ssh_public_blob e))) (map_option ends_card (pl_signing_in p)))
     else None)"

text \<open>
  The card of a request that has to be approved says what approving it grants, in the
  same words the decision is made by: that it opens a sign-in, for how long and whether a
  lock ends it first, exactly when it does, and nothing of the kind for a request that one
  place answers for or that rides a live sign-in.
\<close>

lemma card_tells_the_grant:
  assumes "own_plan cfg e sc now st = (p, st')" and "cf_require_approval cfg"
  shows "map_option sm_sign_in (own_message cfg ou e who p) = Some
    (if 0 < cf_sign_in_secs cfg \<and> \<not> pl_live p
     then Some (''for '' @ span (cf_sign_in_secs cfg) @
       (if en_ends_at_lock e then '' or until the screen locks'' else []))
     else None)"
proof -
  note d = decide_parts [OF own_plan_parts(1) [OF assms(1)]]
  have g: "pl_reach p = Everywhere \<longleftrightarrow> 0 < cf_sign_in_secs cfg"
      "0 < cf_sign_in_secs cfg \<Longrightarrow> pl_window p = cf_sign_in_secs cfg"
    using d(1) assms(2) by (auto simp: grant_def split: if_splits)
  show ?thesis
    using assms(2) g d(5) by (auto simp: own_message_def show_message_def Let_def split: prod.splits)
qed

theorem card_tells_the_grant_witness:
  "map_option sm_sign_in (own_message test_config test_outside test_enclave nobody
      (fst (own_plan test_config test_enclave default_scope (Fin 100)
        (look_at_screen Unlocked (Fin 100) test_daemon)))) =
    Some (Some ''for 6 hours or until the screen locks'')"
proof -
  have s: "span (Fin 21600) = ''6 hours''"
    using whole_seconds [of 21600] by (simp add: span_def show_nat.simps digit_def)
  have "cf_require_approval test_config" "0 < cf_sign_in_secs test_config" "en_ends_at_lock test_enclave"
      "cf_sign_in_secs test_config = Fin 21600"
    by (simp_all add: test_config_def test_enclave_def zero_f64_def)
  with card_tells_the_grant [OF test_plan, of test_outside nobody] s
  show ?thesis by (simp add: test_plan)
qed

text \<open>
  Only the executable and the entry-point argument say what a process is: its name in
  the chain is the same whatever its later arguments hold, so an agent whose arguments
  mention the server is not mistaken for it.
\<close>

lemma display_name_ignores_later_args:
  "display_name (p\<lparr>pi_args := program # entry # rest\<rparr>) = display_name (p\<lparr>pi_args := [program, entry]\<rparr>)"
  by (cases "pi_name p"; cases "pi_path p"; simp add: display_name_def Let_def numeral_2_eq_2)

text \<open>
  The command on the card: a command that does not read its standard input is shown as
  it is; one that does is replaced by the script only when that was read, whole, from the
  file behind descriptor 0 of the process that asks, never empty and never more
  than 64 KiB; otherwise the card says that the script is not known.
\<close>

lemma card_shows_the_command:
  "case show_command m who of (command, script) \<Rightarrow>
     (script \<longrightarrow> (\<exists>c p path text.
        raw_command who = Some c \<and> reads_stdin c \<and> at_process who = Some p \<and>
        fd_path m (pi_pid p) 0 = Some path \<and> os_is_file m path \<and> os_read m path = Some text \<and>
        length text \<le> 64 * 1024 \<and> command = Some (trim text) \<and> trim text \<noteq> [])) \<and>
     (\<not> script \<longrightarrow> command = map_option (\<lambda>c. if reads_stdin c then c @ piped_note else c) (raw_command who))"
proof (cases "raw_command who")
  case None
  then show ?thesis by (simp add: show_command_def)
next
  case (Some c)
  show ?thesis
  proof (cases "reads_stdin c \<and> Option.bind (at_process who) (\<lambda>p. stdin_script m (pi_pid p)) \<noteq> None")
    case True
    then obtain p where p: "at_process who = Some p" "stdin_script m (pi_pid p) \<noteq> None"
      by (cases "at_process who") auto
    then obtain path body where "fd_path m (pi_pid p) 0 = Some path" "os_read m path = Some body"
        "os_is_file m path" "length body \<le> 64 * 1024" "trim body \<noteq> []"
        "stdin_script m (pi_pid p) = Some (trim body)"
      by (auto simp: stdin_script_def SCRIPT_MAX_def split: option.splits if_splits)
    with True Some p show ?thesis by (auto simp: show_command_def)
  next
    case False
    with Some show ?thesis by (auto simp: show_command_def)
  qed
qed

text \<open>A card that was raised is taken down on the same connection, and none is taken down twice.\<close>

lemma card_taken_down:
  "cd_sent (card_done True (show_card io msg)) =
    (if \<not> ui_connects io then []
     else case ui_json io msg of
       None \<Rightarrow> [done_line]
     | Some line \<Rightarrow> if ui_writes io then [line @ [CHR 0x0A], done_line] else [])"
  by (simp add: card_done_def show_card_def split: option.splits)

end
