(* ===== verification/Startup.thy ===== *)
theory Startup
  imports Card
begin

text \<open>
  \<open>daemon/src/main.rs\<close>: the configuration with its defaults, the command line, taking the
  socket, probing one (\<open>--health\<close> and the self-check), and \<open>main\<close> up to the accept loop. What
  is outside is a record: the environment, \<open>scutil\<close>, reading the file, \<open>serde_json\<close> with the
  defaults it fills in for absent fields, and \<open>to_lowercase\<close> beyond ASCII.
\<close>

section \<open>The configuration\<close>

record conf =
  co_listen :: string
  co_log :: string
  co_upstreams :: "upstream list"
  co_timeout_secs :: nat
  co_max_log_bytes :: nat
  co_log_lists :: bool
  co_sign_in_secs :: f64
  co_reuse_secs :: f64
  co_require_approval :: bool
  co_sheet_reason :: string
  co_enclave_key :: "string option"
  co_enclave_comment :: string

record setting =
  st_home :: "string option"
  st_scutil :: "bytes option"
  st_lower :: "string \<Rightarrow> string"
  st_read :: "string \<Rightarrow> string option"
  st_parse :: "conf \<Rightarrow> string \<Rightarrow> conf option"

definition default_enclave_comment :: "setting \<Rightarrow> string" where
  "default_enclave_comment s =
    (let host = map_option (\<lambda>h. st_lower s (trim h)) (Option.bind (st_scutil s) from_utf8)
     in (case host of None \<Rightarrow> ''mac'' | Some h \<Rightarrow> if h = [] then ''mac'' else h) @ ''@keyward'')"

definition home :: "setting \<Rightarrow> string" where
  "home s = unwrap_or (st_home s) ''/tmp''"

definition default_sign_in :: f64 where "default_sign_in = Fin 21600"
definition default_max_log :: nat where "default_max_log = 32 * 1024 * 1024"

definition default_conf :: "setting \<Rightarrow> conf" where
  "default_conf s =
    \<lparr>co_listen = home s @ ''/.ssh/keyward.sock'',
     co_log = home s @ ''/Library/Application Support/Keyward/events.jsonl'',
     co_upstreams =
       [\<lparr>up_name = ''Secretive'',
         up_path = home s @ ''/Library/Containers/com.maxgoedjen.Secretive.SecretAgent/Data/socket.ssh''\<rparr>,
        \<lparr>up_name = ''gpg-agent'', up_path = home s @ ''/.gnupg/S.gpg-agent.ssh''\<rparr>],
     co_timeout_secs = 10, co_max_log_bytes = default_max_log, co_log_lists = False,
     co_sign_in_secs = default_sign_in, co_reuse_secs = 0, co_require_approval = True,
     co_sheet_reason = [], co_enclave_key = None,
     co_enclave_comment = default_enclave_comment s\<rparr>"

definition expand_home :: "setting \<Rightarrow> string \<Rightarrow> string" where
  "expand_home s p =
    (case strip_prefix p ''~/'' of
       Some rest \<Rightarrow> home s @ ''/'' @ rest
     | None \<Rightarrow> if p = ''~'' then home s else p)"

definition expand_paths :: "setting \<Rightarrow> conf \<Rightarrow> conf" where
  "expand_paths s c =
    c\<lparr>co_listen := expand_home s (co_listen c), co_log := expand_home s (co_log c),
      co_upstreams := map (\<lambda>u. u\<lparr>up_path := expand_home s (up_path u)\<rparr>) (co_upstreams c),
      co_enclave_key := map_option (expand_home s) (co_enclave_key c)\<rparr>"

definition config_path :: "setting \<Rightarrow> string option \<Rightarrow> string" where
  "config_path s path = unwrap_or path (home s @ ''/.config/keyward/config.json'')"

definition load_config :: "setting \<Rightarrow> string option \<Rightarrow> conf" where
  "load_config s path =
    expand_paths s
      (case st_read s (config_path s path) of
         Some body \<Rightarrow>
           (case st_parse s (default_conf s) body of
              Some c \<Rightarrow> c
            | None \<Rightarrow> (default_conf s)\<lparr>co_sign_in_secs := 0\<rparr>)
       | None \<Rightarrow> default_conf s)"

section \<open>The command line\<close>

record opts =
  op_config :: "string option"
  op_health :: bool
  op_generate :: bool
  op_pubkey :: bool
  op_force :: bool
  op_policy :: policy

datatype parsed = Run opts | Usage | BadPolicy

definition no_opts :: opts where
  "no_opts =
    \<lparr>op_config = None, op_health = False, op_generate = False, op_pubkey = False,
     op_force = False, op_policy = UserPresence\<rparr>"

text \<open>The loop over \<open>args\<close>, from an index on; an option with an operand steps over it.\<close>

function parse_args :: "string list \<Rightarrow> opts \<Rightarrow> parsed" where
  "parse_args [] o' = Run o'"
| "parse_args (a # rest) o' =
    (if a = ''--config'' then parse_args (drop 1 rest) (o'\<lparr>op_config := nth_opt rest 0\<rparr>)
     else if a = ''--health'' then parse_args rest (o'\<lparr>op_health := True\<rparr>)
     else if a = ''--generate-key'' then parse_args rest (o'\<lparr>op_generate := True\<rparr>)
     else if a = ''--pubkey'' then parse_args rest (o'\<lparr>op_pubkey := True\<rparr>)
     else if a = ''--force'' then parse_args rest (o'\<lparr>op_force := True\<rparr>)
     else if a = ''--policy'' then
       (case policy_parse (unwrap_or (nth_opt rest 0) []) of
          Some p \<Rightarrow> parse_args (drop 1 rest) (o'\<lparr>op_policy := p\<rparr>)
        | None \<Rightarrow> BadPolicy)
     else if a = ''--help'' \<or> a = ''-h'' then Usage
     else parse_args rest o')"
  by pat_completeness auto
termination by (relation "measure (\<lambda>(args, _). length args)") auto

declare parse_args.simps(2) [simp del]

section \<open>The socket\<close>

text \<open>
  What is at each path: whether something exists there, and whether a connection to it is
  accepted. A name can be unremovable, and the system may refuse a bind for a reason of its
  own (a directory that is missing because \<open>create_dir_all\<close> failed, too); it refuses one to a
  name that is taken.
\<close>

record sockets =
  so_exists :: "string \<Rightarrow> bool"
  so_listening :: "string \<Rightarrow> bool"
  so_removable :: "string \<Rightarrow> bool"
  so_bind_error :: "string \<Rightarrow> string option"
  so_modes :: "string \<rightharpoonup> nat"
  so_mode_settable :: "string \<Rightarrow> bool"

definition remove_name :: "string \<Rightarrow> sockets \<Rightarrow> sockets" where
  "remove_name path d =
    (if so_removable d path then d\<lparr>so_exists := (so_exists d)(path := False)\<rparr> else d)"

definition os_bind :: "string \<Rightarrow> sockets \<Rightarrow> (string, unit) result \<times> sockets" where
  "os_bind path d =
    (case so_bind_error d path of
       Some e \<Rightarrow> (Inl e, d)
     | None \<Rightarrow>
         if so_exists d path then (Inl ''Address already in use (os error 48)'', d)
         else (Inr (), d\<lparr>so_exists := (so_exists d)(path := True),
                         so_listening := (so_listening d)(path := True)\<rparr>))"

definition bind :: "string \<Rightarrow> sockets \<Rightarrow> (string, unit) result \<times> sockets" where
  "bind path d =
    (if so_exists d path \<and> so_listening d path
     then (Inl ''another keywardd is already listening here'', d)
     else
       let d1 = (if so_exists d path then remove_name path d else d)
       in case os_bind path d1 of
            (Inl e, d2) \<Rightarrow> (Inl e, d2)
          | (Inr _, d2) \<Rightarrow>
              (Inr (), if so_mode_settable d2 path
                       then d2\<lparr>so_modes := (so_modes d2)(path \<mapsto> 384)\<rparr> else d2))"

section \<open>Probing\<close>

text \<open>
  How a probe's connection goes: the errors of its calls, the bytes that come back, and the
  error a read meets after them. The timeout, whole seconds, is worded in the error.
\<close>

record probe_io =
  pb_connect_error :: "string option"
  pb_timeouts_set :: bool
  pb_writes :: bool
  pb_answer :: bytes
  pb_end :: string

definition probe :: "probe_io \<Rightarrow> string \<Rightarrow> nat \<Rightarrow> (string, u32) result" where
  "probe io path secs =
    (case pb_connect_error io of
       Some e \<Rightarrow> Inl (''cannot connect to '' @ path @ '': '' @ e)
     | None \<Rightarrow>
         if \<not> pb_timeouts_set io then Inl ''cannot set a timeout on the socket''
         else if \<not> pb_writes io then Inl ''write failed''
         else if length (pb_answer io) < 4 then Inl (''no answer within '' @ show_nat secs @ ''s: '' @ pb_end io)
         else
           let n = be_length (pb_answer io); rest = drop 4 (pb_answer io)
           in if length rest < n then Inl ''truncated answer''
              else
                (case reader_u8 (reader_new (take n rest)) of
                   (t, r1) \<Rightarrow>
                     (case (t, fst (reader_u32 r1)) of
                        (Some tag, Some count) \<Rightarrow>
                          (if tag = IDENTITIES_ANSWER then Inr count else Inl ''unexpected reply'')
                      | _ \<Rightarrow> Inl ''unexpected reply'')))"

definition health :: "probe_io \<Rightarrow> string \<Rightarrow> nat \<Rightarrow> int" where
  "health io path secs = (case probe io path secs of Inr count \<Rightarrow> 0 | Inl e \<Rightarrow> 1)"

text \<open>One round of \<open>watch_self\<close>: whether the daemon exits.\<close>

definition watch_self_exits :: "probe_io \<Rightarrow> string \<Rightarrow> nat \<Rightarrow> bool" where
  "watch_self_exits io path secs = (case probe io path secs of Inr count \<Rightarrow> False | Inl e \<Rightarrow> True)"

section \<open>Main\<close>

definition config_of :: "conf \<Rightarrow> enclave option \<Rightarrow> config" where
  "config_of c e =
    \<lparr>cf_enclave = e, cf_upstreams = co_upstreams c, cf_log_lists = co_log_lists c,
     cf_sign_in_secs = co_sign_in_secs c, cf_reuse_secs = co_reuse_secs c,
     cf_require_approval = co_require_approval c, cf_sheet_reason = co_sheet_reason c\<rparr>"

text \<open>The daemon \<open>main\<close> builds; \<open>now\<close> is what the clock says to the first look.\<close>

definition first_daemon :: "conf \<Rightarrow> f64 \<Rightarrow> string option \<times> string option \<Rightarrow> la_cache \<Rightarrow> daemon" where
  "first_daemon c now logs cache =
    \<lparr>dm_gate = \<lparr>gs_approved = [], gs_sign_outs = 0\<rparr>,
     dm_looked = \<lparr>lk_at = now, lk_saw = Unlocked\<rparr>, dm_cache = cache,
     dm_routes = Map.empty, dm_comments = Map.empty,
     dm_log = log_new (fst logs) (snd logs) (co_max_log_bytes c), dm_conns = 0\<rparr>"

datatype started = Exits int | Listens conf config daemon

record machine =
  mc_apple :: apple
  mc_made :: "(sign_in_key \<times> bytes) option"
  mc_keys :: key_disk
  mc_sockets :: sockets
  mc_cache :: la_cache

text \<open>
  \<open>main\<close> until it serves: what it does with the machine, and whether it exits or listens.
  The log files it finds, the answer to a probe and the first clock reading are given.
\<close>

definition main ::
  "setting \<Rightarrow> probe_io \<Rightarrow> f64 \<Rightarrow> string option \<times> string option \<Rightarrow> string list \<Rightarrow> machine \<Rightarrow>
    started \<times> machine" where
  "main s io now logs args mc =
    (case parse_args args no_opts of
       BadPolicy \<Rightarrow> (Exits 2, mc)
     | Usage \<Rightarrow> (Exits 0, mc)
     | Run op \<Rightarrow>
         let cfg = load_config s (op_config op);
             st = key_store_from_config (st_home s) (co_enclave_key cfg)
         in if op_generate op then
              (case generate (mc_apple mc) (mc_made mc) st (op_policy op) (op_force op)
                      (mc_keys mc) (mc_cache mc) of
                 (r, keys, cache) \<Rightarrow>
                   (Exits (case r of Inr _ \<Rightarrow> 0 | Inl _ \<Rightarrow> 1), mc\<lparr>mc_keys := keys, mc_cache := cache\<rparr>))
            else
              let e = enclave_load (mc_apple mc) st (mc_keys mc) (co_enclave_comment cfg)
              in if op_pubkey op then (Exits (if e = None then 1 else 0), mc)
                 else if op_health op then (Exits (health io (co_listen cfg) (co_timeout_secs cfg)), mc)
                 else
                   (case bind (co_listen cfg) (mc_sockets mc) of
                      (Inl _, d) \<Rightarrow> (Exits 1, mc\<lparr>mc_sockets := d\<rparr>)
                    | (Inr _, d) \<Rightarrow>
                        (Listens cfg (config_of cfg e) (first_daemon cfg now logs (mc_cache mc)),
                         mc\<lparr>mc_sockets := d\<rparr>)))"

section \<open>A configuration that cannot be read\<close>

text \<open>A file whose contents are not a configuration.\<close>

definition broken :: "setting \<Rightarrow> string option \<Rightarrow> bool" where
  "broken s path \<longleftrightarrow>
    (case st_read s (config_path s path) of
       None \<Rightarrow> False | Some body \<Rightarrow> st_parse s (default_conf s) body = None)"

lemma broken_config:
  assumes "broken s path"
  shows "co_sign_in_secs (load_config s path) = 0" "co_reuse_secs (load_config s path) = 0"
    "co_require_approval (load_config s path)"
  using assms
  by (auto simp: broken_def load_config_def expand_paths_def default_conf_def split: option.splits)

text \<open>
  C24: A configuration file that cannot be parsed gets the strictest behaviour there is: no
  signature with our own key opens a sign-in or rides an approval, whatever was approved
  before and whatever the clock says, each reaches only its own place, and each is asked for.
\<close>

theorem broken_config_asks_every_time:
  assumes "broken s path" and "c = config_of (load_config s path) enc"
    and "own_plan c e sc now st = (p, st')"
  shows "\<not> pl_live p \<and> pl_reach p = Place sc \<and> pl_signing_in p = None \<and> \<not> 0 < pl_window p \<and>
    cf_require_approval c"
proof -
  have z: "\<not> (0 :: f64) < 0" by (simp add: zero_f64_def)
  have c: "cf_sign_in_secs c = 0" "cf_reuse_secs c = 0" "cf_require_approval c"
    using broken_config [OF assms(1)] by (simp_all add: assms(2) config_of_def)
  note d = decide_parts [OF own_plan_parts(1) [OF assms(3)]]
  have g: "pl_reach p = Place sc" "pl_window p = 0" using d(1) z by (simp_all add: c grant_def)
  then have "\<not> pl_live p" using d(4) z by (simp add: reuse_covers_def)
  with d(5) g c z show ?thesis by simp
qed

definition test_setting :: setting where
  "test_setting =
    \<lparr>st_home = Some ''/h'', st_scutil = None, st_lower = (\<lambda>h. h), st_read = (\<lambda>_. Some ''{''),
     st_parse = (\<lambda>_ _. None)\<rparr>"

lemma test_broken: "broken test_setting None"
  by (simp add: broken_def test_setting_def)

theorem broken_config_asks_every_time_witness:
  "\<not> pl_live (fst (own_plan (config_of (load_config test_setting None) (Some test_enclave)) test_enclave
    default_scope (Fin 100) signed_in_daemon))"
proof -
  obtain p st' where q: "own_plan (config_of (load_config test_setting None) (Some test_enclave)) test_enclave
    default_scope (Fin 100) signed_in_daemon = (p, st')"
    by (cases "own_plan (config_of (load_config test_setting None) (Some test_enclave)) test_enclave
      default_scope (Fin 100) signed_in_daemon")
  from broken_config_asks_every_time [OF test_broken refl q] q show ?thesis by simp
qed

section \<open>Taking the socket\<close>


lemma bind_taken:
  assumes "bind path d = (Inr (), d')"
  shows "so_listening d' path \<and> \<not> (so_exists d path \<and> so_listening d path)"
  using assms by (auto simp: bind_def os_bind_def remove_name_def Let_def split: if_splits option.splits)

definition empty_sockets :: sockets where
  "empty_sockets =
    \<lparr>so_exists = (\<lambda>p. p = ''/s'' \<or> p = ''/t''), so_listening = (\<lambda>p. p = ''/t''), so_removable = (\<lambda>_. True),
     so_bind_error = (\<lambda>_. None), so_modes = Map.empty, so_mode_settable = (\<lambda>_. True)\<rparr>"


section \<open>The self-check\<close>

text \<open>What a client that lists keys is offered.\<close>

definition listed :: "config \<Rightarrow> outside \<Rightarrow> daemon \<Rightarrow> (bytes \<times> string) list" where
  "listed cfg ou st =
    (case cf_enclave cfg of None \<Rightarrow> [] | Some e \<Rightarrow> [(ssh_public_blob e, en_comment e)]) @
      fst (refresh_identities cfg ou st)"

lemma listing_reply:
  "fst (handle_request_identities cfg ou rd who st) = identities_answer (listed cfg ou st)"
  by (simp add: handle_request_identities_def listed_def Let_def split: prod.splits option.splits)

lemma identities_answer_head:
  "identities_answer ids =
    IDENTITIES_ANSWER # u32_to_be (of_nat (length ids)) @ write_identities ids []"
  by (simp add: identities_answer_def write_identities_list string_field.put_list_append
      writer_u8_def writer_u32_def writer_new_def)

lemma probe_reads_count:
  assumes "pb_connect_error io = None" "pb_timeouts_set io" "pb_writes io"
    and "pb_answer io = frame (identities_answer ids)" and "length (identities_answer ids) < 2 ^ 32"
  shows "probe io path secs = Inr (of_nat (length ids))"
proof -
  let ?a = "identities_answer ids"
  have n: "unat (of_nat (length ?a) :: u32) = length ?a" using assms(5) by (rule unat_of_nat_length)
  have l: "be_length (frame ?a) = length ?a" "drop 4 (frame ?a) = ?a" "\<not> length (frame ?a) < 4"
    by (simp_all add: be_length_def frame_def nth_append u32_be_roundtrip [simplified] n)
  have "length ?a < 2 ^ 64" using assms(5) by simp
  from at_bytes_new [OF this] have a: "at_bytes (reader_new ?a)
      (IDENTITIES_ANSWER # u32_to_be (of_nat (length ids)) @ write_identities ids [])"
    by (simp add: identities_answer_head)
  obtain r1 where u8: "reader_u8 (reader_new ?a) = (Some IDENTITIES_ANSWER, r1)"
      "at_bytes r1 (u32_to_be (of_nat (length ids)) @ write_identities ids [])"
    using reader_u8_put [OF a] by blast
  obtain r2 where u32: "reader_u32 r1 = (Some (of_nat (length ids)), r2)"
    using reader_u32_put [OF u8(2)] by blast
  show ?thesis using assms(1-4) by (simp add: probe_def l u8(1) u32 Let_def)
qed

lemma served_listing:
  "fst (serve cfg ou rds who 0 (frame [REQUEST_IDENTITIES]) bound st) =
    [frame (identities_answer (listed cfg ou st))]"
proof -
  have "\<forall>m \<in> set [[REQUEST_IDENTITIES]]. 0 < length m \<and> length m \<le> MAX_MSG" by (simp add: MAX_MSG_def)
  moreover have "stream_ends []" by (simp add: stream_ends_def)
  ultimately show ?thesis
    using serve_messages [of "[[REQUEST_IDENTITIES]]" "[]" cfg ou rds who 0 bound st]
      listing_reply [of cfg ou "rds 0" who st]
    by (simp add: dispatch_def case_prod_beta)
qed

text \<open>
  A daemon that serves passes its own check: fed what the daemon answers to the message
  the probe sends, the probe reports exactly how many keys are offered, \<open>--health\<close> exits
  with 0 and the watchdog lets the daemon live.
\<close>

lemma serving_daemon_is_healthy:
  assumes "pb_connect_error io = None" "pb_timeouts_set io" "pb_writes io"
    and "pb_answer io = concat (fst (serve cfg ou rds who 0 (frame [REQUEST_IDENTITIES]) bound st))"
    and "length (identities_answer (listed cfg ou st)) < 2 ^ 32"
  shows "probe io path secs = Inr (of_nat (length (listed cfg ou st))) \<and> health io path secs = 0 \<and>
    \<not> watch_self_exits io path secs"
proof -
  have "pb_answer io = frame (identities_answer (listed cfg ou st))" using assms(4) served_listing by simp
  from probe_reads_count [OF assms(1-3) this assms(5)] show ?thesis
    by (simp add: health_def watch_self_exits_def)
qed

definition test_probe :: probe_io where
  "test_probe =
    \<lparr>pb_connect_error = None, pb_timeouts_set = True, pb_writes = True,
     pb_answer = concat (fst (serve test_merge test_routes (\<lambda>_. test_readings) nobody 0
       (frame [REQUEST_IDENTITIES]) None test_daemon)), pb_end = []\<rparr>"

theorem serving_daemon_is_healthy_witness: "probe test_probe ''/s'' 10 = Inr 2"
proof -
  have l: "listed test_merge test_routes test_daemon =
      [(ssh_public_blob test_enclave, ''mac@keyward''), ([1, 2], ''me'')]"
    unfolding listed_def test_refresh
    by (simp add: test_merge_def test_config_def test_enclave_def key_listing_def)
  have "length (identities_answer (listed test_merge test_routes test_daemon)) < 2 ^ 32"
    unfolding l by (simp add: test_enclave_def ssh_public_blob_def identities_answer_def
        writer_string_def writer_u32_def writer_u8_def writer_new_def as_bytes_def utf8_step_ascii
        KEY_TYPE_def CURVE_def)
  from serving_daemon_is_healthy [OF _ _ _ _ this, of test_probe "\<lambda>_. test_readings" nobody None "''/s''" 10]
  show ?thesis by (simp add: test_probe_def l)
qed

section \<open>What a start does\<close>

lemma drop_subset: "set (drop n xs) \<subseteq> set xs"
  by (auto dest: in_set_dropD)

text \<open>What an argument does to the options, when it is one of the flags.\<close>

definition set_flag :: "string \<Rightarrow> opts \<Rightarrow> opts option" where
  "set_flag a o' =
    (if a = ''--health'' then Some (o'\<lparr>op_health := True\<rparr>)
     else if a = ''--generate-key'' then Some (o'\<lparr>op_generate := True\<rparr>)
     else if a = ''--pubkey'' then Some (o'\<lparr>op_pubkey := True\<rparr>)
     else if a = ''--force'' then Some (o'\<lparr>op_force := True\<rparr>)
     else None)"

lemma set_flag_sets:
  assumes "set_flag a o' = Some o''"
  shows "op_force o'' \<longleftrightarrow> op_force o' \<or> a = ''--force''"
    and "op_generate o'' \<longleftrightarrow> op_generate o' \<or> a = ''--generate-key''"
  using assms by (auto simp: set_flag_def split: if_splits)

lemma parse_args_cons:
  "parse_args (a # rest) o' =
    (if a = ''--config'' then parse_args (drop 1 rest) (o'\<lparr>op_config := nth_opt rest 0\<rparr>)
     else case set_flag a o' of
       Some o'' \<Rightarrow> parse_args rest o''
     | None \<Rightarrow>
         if a = ''--policy'' then
           (case policy_parse (unwrap_or (nth_opt rest 0) []) of
              Some p \<Rightarrow> parse_args (drop 1 rest) (o'\<lparr>op_policy := p\<rparr>)
            | None \<Rightarrow> BadPolicy)
         else if a = ''--help'' \<or> a = ''-h'' then Usage
         else parse_args rest o')"
  unfolding parse_args.simps(2) set_flag_def by simp

text \<open>One step of the loop: it goes on with a shorter list, and only a flag sets its field.\<close>

lemma parse_args_step:
  assumes "parse_args (a # rest) o' = Run op"
  obtains rest' o'' where "parse_args rest' o'' = Run op" "set rest' \<subseteq> set rest"
    "length rest' \<le> length rest" "op_force o'' \<Longrightarrow> op_force o' \<or> a = ''--force''"
    "op_generate o'' \<Longrightarrow> op_generate o' \<or> a = ''--generate-key''"
proof (cases "set_flag a o'")
  case None
  consider "a = ''--config''" | (policy) p where "a = ''--policy''"
      "parse_args (drop 1 rest) (o'\<lparr>op_policy := p\<rparr>) = Run op" | "parse_args rest o' = Run op"
    using assms None by (auto simp: parse_args_cons split: if_splits option.splits)
  then show thesis
  proof cases
    case 1
    then have "parse_args (drop 1 rest) (o'\<lparr>op_config := nth_opt rest 0\<rparr>) = Run op"
      using assms by (simp add: parse_args_cons)
    from that [OF this] drop_subset [of 1 rest] show thesis by simp
  next
    case policy
    from that [OF policy(2)] drop_subset [of 1 rest] show thesis by simp
  next
    case 3
    from that [OF 3] show thesis by simp
  qed
next
  case (Some o'')
  then have "a \<noteq> ''--config''" by (auto simp: set_flag_def)
  with assms Some have "parse_args rest o'' = Run op" by (simp add: parse_args_cons)
  from that [OF this] set_flag_sets [OF Some] show thesis by simp
qed

lemma parse_args_flags:
  "parse_args args o' = Run op \<Longrightarrow>
    (op_force op \<longrightarrow> op_force o' \<or> ''--force'' \<in> set args) \<and>
    (op_generate op \<longrightarrow> op_generate o' \<or> ''--generate-key'' \<in> set args)"
proof (induction "length args" arbitrary: args o' rule: less_induct)
  case less
  show ?case
  proof (cases args)
    case Nil
    with less.prems show ?thesis by simp
  next
    case (Cons a rest)
    with less.prems have "parse_args (a # rest) o' = Run op" by simp
    then obtain rest' o'' where r: "parse_args rest' o'' = Run op" "set rest' \<subseteq> set rest"
        "length rest' \<le> length rest" "op_force o'' \<Longrightarrow> op_force o' \<or> a = ''--force''"
        "op_generate o'' \<Longrightarrow> op_generate o' \<or> a = ''--generate-key''"
      by (rule parse_args_step) blast
    have "length rest' < length args" using r(3) Cons by simp
    from less.hyps [OF this r(1)] r Cons show ?thesis by auto
  qed
qed

text \<open>The store a run with these arguments is configured with.\<close>

definition store_of :: "setting \<Rightarrow> string list \<Rightarrow> key_store" where
  "store_of s args =
    (case parse_args args no_opts of
       Run op \<Rightarrow> key_store_from_config (st_home s) (co_enclave_key (load_config s (op_config op)))
     | _ \<Rightarrow> Keychain)"

text \<open>
  C29: No run of the program loses a key by accident: the stored handles are as they were
  unless it was asked to generate a key, and a key that is already in the store it is
  configured with stays unless it was also told \<open>--force\<close>.
\<close>

theorem run_keeps_key:
  assumes "main s io now logs args mc = (r, mc')"
    and "''--generate-key'' \<notin> set args \<or>
      (''--force'' \<notin> set args \<and> key_at (store_of s args) (mc_keys mc) \<noteq> None)"
  shows "mc_keys mc' = mc_keys mc"
proof (cases "parse_args args no_opts")
  case (Run op)
  note f = parse_args_flags [OF Run]
  let ?st = "key_store_from_config (st_home s) (co_enclave_key (load_config s (op_config op)))"
  show ?thesis
  proof (cases "op_generate op")
    case True
    then have "''--generate-key'' \<in> set args" using f by (simp add: no_opts_def)
    moreover have "\<not> op_force no_opts" by (simp add: no_opts_def)
    moreover have "store_of s args = ?st" by (simp add: store_of_def Run)
    ultimately obtain old where k: "\<not> op_force op" "key_at ?st (mc_keys mc) = Some old"
      using assms(2) f by auto
    obtain res keys cache where g: "generate (mc_apple mc) (mc_made mc) ?st (op_policy op) (op_force op)
        (mc_keys mc) (mc_cache mc) = (res, keys, cache)"
      by (cases "generate (mc_apple mc) (mc_made mc) ?st (op_policy op) (op_force op) (mc_keys mc) (mc_cache mc)") auto
    from generate_refuses [OF k(2,1) g] have "keys = mc_keys mc" by simp
    with assms(1) Run True g show ?thesis by (auto simp: main_def Let_def)
  next
    case False
    with assms(1) Run show ?thesis
      by (auto simp: main_def Let_def split: if_splits prod.splits sum.splits)
  qed
qed (use assms(1) in \<open>auto simp: main_def\<close>)

definition test_machine :: machine where
  "test_machine =
    \<lparr>mc_apple = willing, mc_made = None,
     mc_keys = bare_disk\<lparr>kd_files := [default_key_path (Some ''/h'') \<mapsto> sign_in_key_data example_key]\<rparr>,
     mc_sockets = empty_sockets, mc_cache = empty_cache\<rparr>"

theorem run_keeps_key_witness:
  "kd_files (mc_keys (snd (main test_setting test_probe (Fin 100) (None, None) [''--generate-key''] test_machine)))
    (default_key_path (Some ''/h'')) = Some (sign_in_key_data example_key)"
proof -
  let ?m = "main test_setting test_probe (Fin 100) (None, None) [''--generate-key''] test_machine"
  obtain r mc' where m: "?m = (r, mc')" by (cases ?m)
  have "parse_args [''--generate-key''] no_opts = Run (no_opts\<lparr>op_generate := True\<rparr>)"
    by (simp add: parse_args.simps(2))
  then have "store_of test_setting [''--generate-key''] = KeyFile (default_key_path (Some ''/h''))"
    by (simp add: store_of_def load_config_def test_setting_def expand_paths_def default_conf_def
        key_store_from_config_def)
  then have "key_at (store_of test_setting [''--generate-key'']) (mc_keys test_machine) \<noteq> None"
    by (simp add: key_at_def test_machine_def)
  with run_keeps_key [OF m] have "mc_keys mc' = mc_keys test_machine" by simp
  then have "kd_files (mc_keys mc') (default_key_path (Some ''/h'')) = Some (sign_in_key_data example_key)"
    by (simp add: test_machine_def)
  then show ?thesis by (simp only: m snd_conv)
qed

end
