(* ===== verification/Schema.thy ===== *)
theory Schema
  imports Card "HOL-Library.List_Lexorder" "HOL-Library.Char_ord"
begin

text \<open>
  What the daemon writes for the app, as JSON values: the tree \<open>serde\<close> derives for an \<open>Event\<close>
  (\<open>event.rs\<close>, and the structs inside it of \<open>attrib.rs\<close>, \<open>purpose.rs\<close> and \<open>context.rs\<close>) and
  for the message of the card (\<open>Show\<close> in \<open>ui.rs\<close>): a struct is an object of its fields in
  their order under their own names, \<open>None\<close> is \<open>null\<close>, and a variant of an enum is its name
  in snake case. The text of a tree is \<open>serde_json\<close>'s and a parameter, and so is the text of
  a float.
\<close>

definition jopt :: "('a \<Rightarrow> json) \<Rightarrow> 'a option \<Rightarrow> json" where
  "jopt f a = (case a of None \<Rightarrow> JNull | Some x \<Rightarrow> f x)"

definition jint :: "int \<Rightarrow> json" where "jint i = JNumber (show_int i)"
definition jnat :: "nat \<Rightarrow> json" where "jnat n = JNumber (show_nat n)"
definition jlist :: "('a \<Rightarrow> json) \<Rightarrow> 'a list \<Rightarrow> json" where "jlist f xs = JArray (map f xs)"

section \<open>The event\<close>

fun purpose_kind_name :: "purpose_kind \<Rightarrow> string" where
  "purpose_kind_name SshLogin = ''ssh_login''"
| "purpose_kind_name RemoteCommand = ''remote_command''"
| "purpose_kind_name GitFetch = ''git_fetch''"
| "purpose_kind_name GitPush = ''git_push''"
| "purpose_kind_name GitOverSsh = ''git_over_ssh''"
| "purpose_kind_name CommitSigning = ''commit_signing''"
| "purpose_kind_name Signing = ''signing''"
| "purpose_kind_name FileTransfer = ''file_transfer''"
| "purpose_kind_name Unknown = ''unknown''"

fun event_kind_name :: "event_kind \<Rightarrow> string" where
  "event_kind_name ListIdentities = ''list_identities''"
| "event_kind_name Sign = ''sign''"
| "event_kind_name SessionBind = ''session_bind''"
| "event_kind_name Other = ''other''"

definition purpose_tree :: "purpose \<Rightarrow> json" where
  "purpose_tree p = JObject
    [(''kind'', JString (purpose_kind_name (pu_kind p))), (''summary'', JString (pu_summary p)),
     (''host'', jopt JString (pu_host p)), (''repo'', jopt JString (pu_repo p)),
     (''repo_path'', jopt JString (pu_repo_path p)), (''remote_repo'', jopt JString (pu_remote_repo p)),
     (''namespace'', jopt JString (pu_namespace p)),
     (''remote_command'', jopt JString (pu_remote_command p))]"

definition proc_tree :: "proc_info \<Rightarrow> json" where
  "proc_tree p = JObject
    [(''pid'', jint (pi_pid p)), (''name'', jopt JString (pi_name p)), (''path'', jopt JString (pi_path p)),
     (''cwd'', jopt JString (pi_cwd p)), (''args'', jlist JString (pi_args p))]"

definition app_tree :: "app_info \<Rightarrow> json" where
  "app_tree a = JObject
    [(''bundle_path'', JString (ai_bundle_path a)), (''name'', JString (ai_name a)),
     (''depth'', jnat (ai_depth a))]"

definition git_tree :: "git_context \<Rightarrow> json" where
  "git_tree g = JObject
    [(''branch'', jopt JString (gc_branch g)), (''remote'', jopt JString (gc_remote g)),
     (''subject'', jopt JString (gc_subject g)), (''push_remote'', jopt JString (gc_push_remote g)),
     (''push_remote_url'', jopt JString (gc_push_remote_url g)),
     (''commits'', jlist JString (gc_commits g)), (''commit_count'', jopt jnat (gc_commit_count g)),
     (''stat'', jopt JString (gc_stat g)), (''upstream'', jopt JString (gc_upstream g))]"

text \<open>A \<open>BTreeMap\<close> is written in the order of its keys, bytewise.\<close>

definition env_entries :: "(string \<rightharpoonup> string) \<Rightarrow> (string \<times> string) list" where
  "env_entries m = map (\<lambda>k. (k, the (m k))) (sorted_list_of_set (dom m))"

definition context_tree :: "req_context \<Rightarrow> json" where
  "context_tree c = JObject
    [(''env'', JObject (map (\<lambda>(k, v). (k, JString v)) (env_entries (cx_env c)))),
     (''env_from_pid'', jopt jint (cx_env_from_pid c)), (''env_from'', jopt JString (cx_env_from c)),
     (''declared'', jopt (\<lambda>v. v) (cx_declared c)),
     (''declared_from_pid'', jopt jint (cx_declared_from_pid c)),
     (''git'', jopt git_tree (cx_git c)), (''session_title'', jopt JString (cx_session_title c))]"

definition attribution_tree :: "attribution \<Rightarrow> json" where
  "attribution_tree w = JObject
    [(''pid'', jint (at_pid w)), (''process'', jopt proc_tree (at_process w)),
     (''ancestry'', jlist proc_tree (at_ancestry w)), (''app'', jopt app_tree (at_app w)),
     (''apps'', jlist app_tree (at_apps w)), (''destination'', jopt JString (at_destination w)),
     (''purpose'', purpose_tree (at_purpose w)), (''context'', context_tree (at_context w))]"

definition scope_tree :: "scope \<Rightarrow> json" where
  "scope_tree s = JObject
    [(''directory'', jopt JString (sc_directory s)), (''host'', jopt JString (sc_host s)),
     (''repo'', jopt JString (sc_repo s))]"

definition event_tree :: "(f64 \<Rightarrow> string) \<Rightarrow> event \<Rightarrow> json" where
  "event_tree fmt ev = JObject
    [(''ts'', JNumber (fmt (ev_ts ev))), (''kind'', JString (event_kind_name (ev_kind ev))),
     (''who'', attribution_tree (ev_who ev)), (''key_fp'', jopt JString (ev_key_fp ev)),
     (''key_comment'', jopt JString (ev_key_comment ev)), (''upstream'', jopt JString (ev_upstream ev)),
     (''bound_host_fp'', jopt JString (ev_bound_host_fp ev)), (''scope'', jopt scope_tree (ev_scope ev)),
     (''reused'', JBool (ev_reused ev)), (''sign_in'', JBool (ev_sign_in ev)),
     (''outcome'', JString (ev_outcome ev)), (''duration_ms'', jnat (ev_duration_ms ev))]"

section \<open>The message of the card\<close>

definition show_tree :: "show_msg \<Rightarrow> json" where
  "show_tree m = JObject
    [(''type'', JString ''show''), (''headline'', JString (sm_headline m)),
     (''app'', jopt JString (sm_app m)), (''app_bundle'', jopt JString (sm_app_bundle m)),
     (''process'', jopt JString (sm_process m)), (''key'', jopt JString (sm_key m)),
     (''fingerprint'', jopt JString (sm_fingerprint m)), (''host'', jopt JString (sm_host m)),
     (''repo'', jopt JString (sm_repo m)), (''branch'', jopt JString (sm_branch m)),
     (''subject'', jopt JString (sm_subject m)), (''command'', jopt JString (sm_command m)),
     (''script'', JBool (sm_script m)), (''chain'', jlist JString (sm_chain m)),
     (''session'', jopt JString (sm_session m)), (''directory'', jopt JString (sm_directory m)),
     (''remote'', jopt JString (sm_remote m)), (''commits'', jlist JString (sm_commits m)),
     (''commit_count'', jopt jnat (sm_commit_count m)), (''stat'', jopt JString (sm_stat m)),
     (''upstream'', jopt JString (sm_upstream m)), (''sign_in'', jopt JString (sm_sign_in m))]"

section \<open>What the entries of an environment are\<close>

lemma env_entries_distinct: "distinct (map fst (env_entries m))"
  by (simp add: env_entries_def comp_def)

lemma env_entries_map:
  assumes "finite (dom m)"
  shows "map_of (env_entries m) = m"
proof
  fix k
  show "map_of (env_entries m) k = m k"
    using assms by (auto simp: env_entries_def map_of_map_restrict [where f = "\<lambda>k. the (m k)"] restrict_map_def domIff)
qed

end
