(* ===== verification/App_Model.thy ===== *)
theory App_Model
  imports Schema "HOL-Library.Monad_Syntax"
begin

text \<open>
  \<open>app/Sources/KeywardApp/Model.swift\<close> and \<open>PendingSignature\<close> of \<open>Approval.swift\<close>: the
  app's side of the log and of the card. Swift's synthesised \<open>Decodable\<close> with
  \<open>convertFromSnakeCase\<close>: an object's keys are turned to camel case, those of a dictionary are
  not; a value of the wrong type, or a missing one that is not optional, fails the whole
  value, and \<open>null\<close> or a missing key is \<open>nil\<close>. Reading JSON text, and a number's text as a
  number, is Foundation's and a parameter.
\<close>

record foundation =
  fo_parse :: "string \<Rightarrow> json option"
  fo_int :: "string \<Rightarrow> int option"
  fo_double :: "string \<Rightarrow> f64 option"

section \<open>Keys\<close>

definition capitalized :: "string \<Rightarrow> string" where
  "capitalized w = (case w of [] \<Rightarrow> [] | c # cs \<Rightarrow> ascii_upper c # map ascii_lower cs)"

definition from_snake_case :: "string \<Rightarrow> string" where
  "from_snake_case key =
    (let bar = (\<lambda>c. c = CHR ''_'');
         leading = takeWhile bar key;
         trailing = takeWhile bar (rev key);
         middle = take (length key - length leading - length trailing) (drop (length leading) key)
     in if list_all bar key then key
        else
          leading @
          (case filter (\<lambda>w. w \<noteq> []) (split_on (CHR ''_'') middle) of
             [] \<Rightarrow> middle
           | [w] \<Rightarrow> middle
           | w # ws \<Rightarrow> map ascii_lower w @ concat (map capitalized ws)) @
          trailing)"

text \<open>The value under a key of a keyed container.\<close>

definition json_at :: "string \<Rightarrow> json \<Rightarrow> json option" where
  "json_at k j =
    (case j of JObject kvs \<Rightarrow> map_of (map (\<lambda>(k, v). (from_snake_case k, v)) kvs) k | _ \<Rightarrow> None)"

section \<open>Decoding\<close>

definition decode_string :: "json \<Rightarrow> string option" where
  "decode_string j = (case j of JString s \<Rightarrow> Some s | _ \<Rightarrow> None)"

definition decode_bool :: "json \<Rightarrow> bool option" where
  "decode_bool j = (case j of JBool b \<Rightarrow> Some b | _ \<Rightarrow> None)"

definition decode_double :: "foundation \<Rightarrow> json \<Rightarrow> f64 option" where
  "decode_double fo j = (case j of JNumber t \<Rightarrow> fo_double fo t | _ \<Rightarrow> None)"

text \<open>An integer of a type whose values run from one bound up to the other, excluded.\<close>

definition decode_int :: "foundation \<Rightarrow> int \<Rightarrow> int \<Rightarrow> json \<Rightarrow> int option" where
  "decode_int fo lo hi j =
    (case j of
       JNumber t \<Rightarrow> Option.bind (fo_int fo t) (\<lambda>i. if lo \<le> i \<and> i < hi then Some i else None)
     | _ \<Rightarrow> None)"

definition decode_int32 :: "foundation \<Rightarrow> json \<Rightarrow> int option" where
  "decode_int32 fo = decode_int fo (- (2 ^ 31)) (2 ^ 31)"

definition decode_int64 :: "foundation \<Rightarrow> json \<Rightarrow> int option" where
  "decode_int64 fo = decode_int fo (- (2 ^ 63)) (2 ^ 63)"

definition decode_uint64 :: "foundation \<Rightarrow> json \<Rightarrow> int option" where
  "decode_uint64 fo = decode_int fo 0 (2 ^ 64)"

definition decode_array :: "(json \<Rightarrow> 'a option) \<Rightarrow> json \<Rightarrow> 'a list option" where
  "decode_array d j = (case j of JArray xs \<Rightarrow> those (map d xs) | _ \<Rightarrow> None)"

definition decode_dict :: "(json \<Rightarrow> 'a option) \<Rightarrow> json \<Rightarrow> (string \<rightharpoonup> 'a) option" where
  "decode_dict d j =
    (case j of
       JObject kvs \<Rightarrow> map_option map_of (those (map (\<lambda>(k, v). map_option (\<lambda>x. (k, x)) (d v)) kvs))
     | _ \<Rightarrow> None)"

definition required :: "(json \<Rightarrow> 'a option) \<Rightarrow> string \<Rightarrow> json \<Rightarrow> 'a option" where
  "required d k j = Option.bind (json_at k j) d"

definition nullable :: "(json \<Rightarrow> 'a option) \<Rightarrow> json \<Rightarrow> 'a option option" where
  "nullable d v = (case v of JNull \<Rightarrow> Some None | _ \<Rightarrow> map_option Some (d v))"

definition if_present :: "(json \<Rightarrow> 'a option) \<Rightarrow> string \<Rightarrow> json \<Rightarrow> 'a option option" where
  "if_present d k j =
    (case json_at k j of None \<Rightarrow> Some None | Some v \<Rightarrow> nullable d v)"

text \<open>\<open>JSONValue\<close> takes whatever is there, and what it cannot take as \<open>null\<close>.\<close>

datatype json_value =
  JvString string | JvNumber f64 | JvBool bool | JvNull
  | JvArray "json_value list" | JvObject "(string \<times> json_value) list"

fun value_of_json :: "foundation \<Rightarrow> json \<Rightarrow> json_value" where
  "value_of_json fo JNull = JvNull"
| "value_of_json fo (JBool b) = JvBool b"
| "value_of_json fo (JNumber t) = (case fo_double fo t of Some x \<Rightarrow> JvNumber x | None \<Rightarrow> JvNull)"
| "value_of_json fo (JString s) = JvString s"
| "value_of_json fo (JArray xs) = JvArray (map (value_of_json fo) xs)"
| "value_of_json fo (JObject kvs) = JvObject (map (\<lambda>(k, v). (k, value_of_json fo v)) kvs)"

section \<open>The app's types\<close>

definition event_kind_of :: "string \<Rightarrow> event_kind" where
  "event_kind_of raw =
    (if raw = ''list_identities'' then ListIdentities else if raw = ''sign'' then Sign
     else if raw = ''session_bind'' then SessionBind else Other)"

definition purpose_kind_of :: "string \<Rightarrow> purpose_kind" where
  "purpose_kind_of raw =
    (if raw = ''ssh_login'' then SshLogin else if raw = ''remote_command'' then RemoteCommand
     else if raw = ''git_fetch'' then GitFetch else if raw = ''git_push'' then GitPush
     else if raw = ''git_over_ssh'' then GitOverSsh else if raw = ''commit_signing'' then CommitSigning
     else if raw = ''signing'' then Signing else if raw = ''file_transfer'' then FileTransfer
     else Unknown)"

record app_git =
  ag_branch :: "string option"
  ag_remote :: "string option"
  ag_subject :: "string option"

record app_context =
  ac_env :: "string \<rightharpoonup> string"
  ac_env_from_pid :: "int option"
  ac_env_from :: "string option"
  ac_declared :: "(string \<rightharpoonup> json_value) option"
  ac_declared_from_pid :: "int option"
  ac_git :: "app_git option"

record app_attribution =
  aa_pid :: int
  aa_process :: "proc_info option"
  aa_ancestry :: "proc_info list"
  aa_app :: "app_info option"
  aa_apps :: "app_info list"
  aa_destination :: "string option"
  aa_purpose :: purpose
  aa_context :: app_context

record agent_event =
  ae_ts :: f64
  ae_kind :: event_kind
  ae_who :: app_attribution
  ae_key_fp :: "string option"
  ae_key_comment :: "string option"
  ae_upstream :: "string option"
  ae_bound_host_fp :: "string option"
  ae_outcome :: string
  ae_duration_ms :: nat

section \<open>The decoders\<close>

definition decode_purpose :: "json \<Rightarrow> purpose option" where
  "decode_purpose j =
    do {
      kind \<leftarrow> required decode_string ''kind'' j;
      summary \<leftarrow> required decode_string ''summary'' j;
      host \<leftarrow> if_present decode_string ''host'' j;
      repo \<leftarrow> if_present decode_string ''repo'' j;
      repo_path \<leftarrow> if_present decode_string ''repoPath'' j;
      remote_repo \<leftarrow> if_present decode_string ''remoteRepo'' j;
      namespace \<leftarrow> if_present decode_string ''namespace'' j;
      remote_command \<leftarrow> if_present decode_string ''remoteCommand'' j;
      Some \<lparr>pu_kind = purpose_kind_of kind, pu_summary = summary, pu_host = host, pu_repo = repo,
        pu_repo_path = repo_path, pu_remote_repo = remote_repo, pu_namespace = namespace,
        pu_remote_command = remote_command\<rparr>
    }"

definition decode_proc :: "foundation \<Rightarrow> json \<Rightarrow> proc_info option" where
  "decode_proc fo j =
    do {
      pid \<leftarrow> required (decode_int32 fo) ''pid'' j;
      name \<leftarrow> if_present decode_string ''name'' j;
      path \<leftarrow> if_present decode_string ''path'' j;
      cwd \<leftarrow> if_present decode_string ''cwd'' j;
      args \<leftarrow> required (decode_array decode_string) ''args'' j;
      Some \<lparr>pi_pid = pid, pi_name = name, pi_path = path, pi_cwd = cwd, pi_args = args\<rparr>
    }"

definition decode_app :: "foundation \<Rightarrow> json \<Rightarrow> app_info option" where
  "decode_app fo j =
    do {
      bundle_path \<leftarrow> required decode_string ''bundlePath'' j;
      name \<leftarrow> required decode_string ''name'' j;
      depth \<leftarrow> required (decode_int64 fo) ''depth'' j;
      Some \<lparr>ai_bundle_path = bundle_path, ai_name = name, ai_depth = nat depth\<rparr>
    }"

definition decode_git :: "json \<Rightarrow> app_git option" where
  "decode_git j =
    do {
      branch \<leftarrow> if_present decode_string ''branch'' j;
      remote \<leftarrow> if_present decode_string ''remote'' j;
      subject \<leftarrow> if_present decode_string ''subject'' j;
      (case j of JObject _ \<Rightarrow> Some \<lparr>ag_branch = branch, ag_remote = remote, ag_subject = subject\<rparr>
       | _ \<Rightarrow> None)
    }"

definition decode_context :: "foundation \<Rightarrow> json \<Rightarrow> app_context option" where
  "decode_context fo j =
    do {
      env \<leftarrow> required (decode_dict decode_string) ''env'' j;
      env_from_pid \<leftarrow> if_present (decode_int32 fo) ''envFromPid'' j;
      env_from \<leftarrow> if_present decode_string ''envFrom'' j;
      declared \<leftarrow> if_present (decode_dict (\<lambda>v. Some (value_of_json fo v))) ''declared'' j;
      declared_from_pid \<leftarrow> if_present (decode_int32 fo) ''declaredFromPid'' j;
      git \<leftarrow> if_present decode_git ''git'' j;
      Some \<lparr>ac_env = env, ac_env_from_pid = env_from_pid, ac_env_from = env_from,
        ac_declared = declared, ac_declared_from_pid = declared_from_pid, ac_git = git\<rparr>
    }"

definition decode_attribution :: "foundation \<Rightarrow> json \<Rightarrow> app_attribution option" where
  "decode_attribution fo j =
    do {
      pid \<leftarrow> required (decode_int32 fo) ''pid'' j;
      process \<leftarrow> if_present (decode_proc fo) ''process'' j;
      ancestry \<leftarrow> required (decode_array (decode_proc fo)) ''ancestry'' j;
      app \<leftarrow> if_present (decode_app fo) ''app'' j;
      apps \<leftarrow> required (decode_array (decode_app fo)) ''apps'' j;
      destination \<leftarrow> if_present decode_string ''destination'' j;
      purpose \<leftarrow> required decode_purpose ''purpose'' j;
      context' \<leftarrow> required (decode_context fo) ''context'' j;
      Some \<lparr>aa_pid = pid, aa_process = process, aa_ancestry = ancestry, aa_app = app, aa_apps = apps,
        aa_destination = destination, aa_purpose = purpose, aa_context = context'\<rparr>
    }"

definition decode_event :: "foundation \<Rightarrow> json \<Rightarrow> agent_event option" where
  "decode_event fo j =
    do {
      ts \<leftarrow> required (decode_double fo) ''ts'' j;
      kind \<leftarrow> required decode_string ''kind'' j;
      who \<leftarrow> required (decode_attribution fo) ''who'' j;
      key_fp \<leftarrow> if_present decode_string ''keyFp'' j;
      key_comment \<leftarrow> if_present decode_string ''keyComment'' j;
      upstream \<leftarrow> if_present decode_string ''upstream'' j;
      bound_host_fp \<leftarrow> if_present decode_string ''boundHostFp'' j;
      outcome \<leftarrow> required decode_string ''outcome'' j;
      duration_ms \<leftarrow> required (decode_uint64 fo) ''durationMs'' j;
      Some \<lparr>ae_ts = ts, ae_kind = event_kind_of kind, ae_who = who, ae_key_fp = key_fp,
        ae_key_comment = key_comment, ae_upstream = upstream, ae_bound_host_fp = bound_host_fp,
        ae_outcome = outcome, ae_duration_ms = nat duration_ms\<rparr>
    }"

section \<open>What comes back\<close>

lemma json_at_object [simp]:
  "json_at k (JObject kvs) = map_of (map (\<lambda>(k, v). (from_snake_case k, v)) kvs) k"
  by (simp add: json_at_def)

lemma schema_keys [simp]:
  "from_snake_case ''kind'' = ''kind''" "from_snake_case ''summary'' = ''summary''"
  "from_snake_case ''host'' = ''host''" "from_snake_case ''repo'' = ''repo''"
  "from_snake_case ''repo_path'' = ''repoPath''" "from_snake_case ''remote_repo'' = ''remoteRepo''"
  "from_snake_case ''namespace'' = ''namespace''" "from_snake_case ''remote_command'' = ''remoteCommand''"
  "from_snake_case ''pid'' = ''pid''" "from_snake_case ''name'' = ''name''"
  "from_snake_case ''path'' = ''path''" "from_snake_case ''cwd'' = ''cwd''"
  "from_snake_case ''args'' = ''args''" "from_snake_case ''bundle_path'' = ''bundlePath''"
  "from_snake_case ''depth'' = ''depth''" "from_snake_case ''branch'' = ''branch''"
  "from_snake_case ''remote'' = ''remote''" "from_snake_case ''subject'' = ''subject''"
  "from_snake_case ''push_remote'' = ''pushRemote''"
  "from_snake_case ''push_remote_url'' = ''pushRemoteUrl''"
  "from_snake_case ''commits'' = ''commits''" "from_snake_case ''commit_count'' = ''commitCount''"
  "from_snake_case ''stat'' = ''stat''" "from_snake_case ''upstream'' = ''upstream''"
  "from_snake_case ''env'' = ''env''" "from_snake_case ''env_from_pid'' = ''envFromPid''"
  "from_snake_case ''env_from'' = ''envFrom''" "from_snake_case ''declared'' = ''declared''"
  "from_snake_case ''declared_from_pid'' = ''declaredFromPid''" "from_snake_case ''git'' = ''git''"
  "from_snake_case ''session_title'' = ''sessionTitle''" "from_snake_case ''process'' = ''process''"
  "from_snake_case ''ancestry'' = ''ancestry''" "from_snake_case ''app'' = ''app''"
  "from_snake_case ''apps'' = ''apps''" "from_snake_case ''destination'' = ''destination''"
  "from_snake_case ''purpose'' = ''purpose''" "from_snake_case ''context'' = ''context''"
  "from_snake_case ''ts'' = ''ts''" "from_snake_case ''who'' = ''who''"
  "from_snake_case ''key_fp'' = ''keyFp''" "from_snake_case ''key_comment'' = ''keyComment''"
  "from_snake_case ''bound_host_fp'' = ''boundHostFp''" "from_snake_case ''scope'' = ''scope''"
  "from_snake_case ''reused'' = ''reused''" "from_snake_case ''sign_in'' = ''signIn''"
  "from_snake_case ''outcome'' = ''outcome''" "from_snake_case ''duration_ms'' = ''durationMs''"
  by code_simp+

lemma decode_jstring [simp]: "decode_string (JString s) = Some s"
  by (simp add: decode_string_def)

lemma nullable_jopt:
  assumes "\<And>x. f x \<noteq> JNull" and "\<And>x. a = Some x \<Longrightarrow> d (f x) = Some (g x)"
  shows "nullable d (jopt f a) = Some (map_option g a)"
  using assms by (cases a) (auto simp: nullable_def jopt_def split: json.splits)

lemma nullable_string [simp]: "nullable decode_string (jopt JString a) = Some a"
  using nullable_jopt [of JString a decode_string "\<lambda>x. x"] by (simp add: option.map_ident)

lemma those_map: "(\<And>x. x \<in> set xs \<Longrightarrow> d (f x) = Some (g x)) \<Longrightarrow> those (map d (map f xs)) = Some (map g xs)"
  by (induction xs) auto

lemma decode_jlist:
  "(\<And>x. x \<in> set xs \<Longrightarrow> d (f x) = Some (g x)) \<Longrightarrow> decode_array d (jlist f xs) = Some (map g xs)"
  using those_map [of xs d f g] by (simp add: decode_array_def jlist_def)

lemma decode_strings [simp]: "decode_array decode_string (jlist JString xs) = Some xs"
  using decode_jlist [of xs decode_string JString "\<lambda>x. x"] by simp

text \<open>The names of the two enums come back as the variants they are.\<close>

lemma kinds_back [simp]:
  "event_kind_of (event_kind_name k) = k" "purpose_kind_of (purpose_kind_name q) = q"
  by (cases k; simp add: event_kind_of_def) (cases q; simp add: purpose_kind_of_def)

lemma purpose_back [simp]: "decode_purpose (purpose_tree p) = Some p"
  by (simp add: decode_purpose_def purpose_tree_def required_def if_present_def)

text \<open>Foundation reads an integer of the daemon's text as that integer.\<close>

definition reads_ints :: "foundation \<Rightarrow> bool" where
  "reads_ints fo \<longleftrightarrow> (\<forall>i. fo_int fo (show_int i) = Some i)"

lemma decode_jint:
  "reads_ints fo \<Longrightarrow> lo \<le> i \<Longrightarrow> i < hi \<Longrightarrow> decode_int fo lo hi (jint i) = Some i"
  by (simp add: reads_ints_def decode_int_def jint_def)

lemma decode_jnat:
  "reads_ints fo \<Longrightarrow> lo \<le> 0 \<Longrightarrow> int n < hi \<Longrightarrow> decode_int fo lo hi (jnat n) = Some (int n)"
  using decode_jint [of fo lo "int n" hi] by (simp add: jint_def jnat_def show_int_def)

definition is_i32 :: "int \<Rightarrow> bool" where
  "is_i32 i \<longleftrightarrow> - (2 ^ 31) \<le> i \<and> i < 2 ^ 31"

lemma decode_numbers:
  assumes "reads_ints fo"
  shows "is_i32 i \<Longrightarrow> decode_int32 fo (jint i) = Some i"
    and "n < 2 ^ 63 \<Longrightarrow> decode_int64 fo (jnat n) = Some (int n)"
    and "n < 2 ^ 64 \<Longrightarrow> decode_uint64 fo (jnat n) = Some (int n)"
  using decode_jint [OF assms] decode_jnat [OF assms]
  by (simp_all add: decode_int32_def decode_int64_def decode_uint64_def is_i32_def)

text \<open>The integers of an event are of the widths the daemon's types give them.\<close>

definition who_typed :: "attribution \<Rightarrow> bool" where
  "who_typed w \<longleftrightarrow>
    (let c = at_context w in
      list_all is_i32 (at_pid w # map pi_pid (at_ancestry w)) \<and>
      list_all (\<lambda>a. ai_depth a < 2 ^ 63) (at_apps w) \<and>
      (case at_process w of None \<Rightarrow> True | Some p \<Rightarrow> is_i32 (pi_pid p)) \<and>
      (case at_app w of None \<Rightarrow> True | Some a \<Rightarrow> ai_depth a < 2 ^ 63) \<and>
      (case cx_env_from_pid c of None \<Rightarrow> True | Some i \<Rightarrow> is_i32 i) \<and>
      (case cx_declared_from_pid c of None \<Rightarrow> True | Some i \<Rightarrow> is_i32 i) \<and>
      finite (dom (cx_env c)))"

definition event_typed :: "event \<Rightarrow> bool" where
  "event_typed ev \<longleftrightarrow> who_typed (ev_who ev) \<and> ev_duration_ms ev < 2 ^ 64"

lemma proc_back:
  "reads_ints fo \<Longrightarrow> is_i32 (pi_pid p) \<Longrightarrow> decode_proc fo (proc_tree p) = Some p"
  by (simp add: decode_proc_def proc_tree_def required_def if_present_def decode_numbers)

lemma app_back:
  "reads_ints fo \<Longrightarrow> ai_depth a < 2 ^ 63 \<Longrightarrow> decode_app fo (app_tree a) = Some a"
  by (simp add: decode_app_def app_tree_def required_def if_present_def decode_numbers)

definition app_git_of :: "git_context \<Rightarrow> app_git" where
  "app_git_of g = \<lparr>ag_branch = gc_branch g, ag_remote = gc_remote g, ag_subject = gc_subject g\<rparr>"

lemma git_back: "decode_git (git_tree g) = Some (app_git_of g)"
  by (simp add: decode_git_def git_tree_def if_present_def app_git_of_def)

lemma env_back:
  assumes "finite (dom m)"
  shows "decode_dict decode_string (JObject (map (\<lambda>(k, v). (k, JString v)) (env_entries m))) = Some m"
proof -
  have "those (map ((\<lambda>(k, v). map_option (\<lambda>x. (k, x)) (decode_string v)) \<circ> (\<lambda>(k, v). (k, JString v))) kvs) =
      Some kvs" for kvs :: "(string \<times> string) list"
    by (induction kvs) auto
  then show ?thesis by (simp add: decode_dict_def env_entries_map [OF assms])
qed

text \<open>A declaration is any JSON; the app takes an object, or none.\<close>

definition readable_declaration :: "json option \<Rightarrow> bool" where
  "readable_declaration d \<longleftrightarrow>
    (case d of None \<Rightarrow> True | Some JNull \<Rightarrow> True | Some (JObject kvs) \<Rightarrow> True | _ \<Rightarrow> False)"

definition app_declaration :: "foundation \<Rightarrow> json option \<Rightarrow> (string \<rightharpoonup> json_value) option" where
  "app_declaration fo d =
    (case d of
       Some (JObject kvs) \<Rightarrow> Some (map_of (map (\<lambda>(k, v). (k, value_of_json fo v)) kvs))
     | _ \<Rightarrow> None)"

lemma declaration_back:
  "nullable (decode_dict (\<lambda>v. Some (value_of_json fo v))) (jopt (\<lambda>v. v) d) =
    (if readable_declaration d then Some (app_declaration fo d) else None)"
proof -
  have "those (map (\<lambda>(k, v). map_option (\<lambda>x. (k, x)) (Some (value_of_json fo v))) kvs) =
      Some (map (\<lambda>(k, v). (k, value_of_json fo v)) kvs)" for kvs :: "(string \<times> json) list"
    by (induction kvs) auto
  then show ?thesis
    by (auto simp: readable_declaration_def app_declaration_def nullable_def jopt_def decode_dict_def
        split: option.splits json.splits)
qed

definition app_context_of :: "foundation \<Rightarrow> req_context \<Rightarrow> app_context" where
  "app_context_of fo c =
    \<lparr>ac_env = cx_env c, ac_env_from_pid = cx_env_from_pid c, ac_env_from = cx_env_from c,
     ac_declared = app_declaration fo (cx_declared c), ac_declared_from_pid = cx_declared_from_pid c,
     ac_git = map_option app_git_of (cx_git c)\<rparr>"

definition app_view :: "foundation \<Rightarrow> event \<Rightarrow> agent_event" where
  "app_view fo ev =
    (let w = ev_who ev in
     \<lparr>ae_ts = ev_ts ev, ae_kind = ev_kind ev,
      ae_who =
        \<lparr>aa_pid = at_pid w, aa_process = at_process w, aa_ancestry = at_ancestry w, aa_app = at_app w,
         aa_apps = at_apps w, aa_destination = at_destination w, aa_purpose = at_purpose w,
         aa_context = app_context_of fo (at_context w)\<rparr>,
      ae_key_fp = ev_key_fp ev, ae_key_comment = ev_key_comment ev, ae_upstream = ev_upstream ev,
      ae_bound_host_fp = ev_bound_host_fp ev, ae_outcome = ev_outcome ev,
      ae_duration_ms = ev_duration_ms ev\<rparr>)"

lemma trees_not_null [simp]: "proc_tree p \<noteq> JNull" "app_tree a \<noteq> JNull" "git_tree g \<noteq> JNull" "jint i \<noteq> JNull"
  by (simp_all add: proc_tree_def app_tree_def git_tree_def jint_def)

lemma context_back:
  assumes "reads_ints fo" and "finite (dom (cx_env c))"
    and "\<And>i. cx_env_from_pid c = Some i \<Longrightarrow> is_i32 i" and "\<And>i. cx_declared_from_pid c = Some i \<Longrightarrow> is_i32 i"
  shows "decode_context fo (context_tree c) =
    (if readable_declaration (cx_declared c) then Some (app_context_of fo c) else None)"
proof -
  have i: "nullable (decode_int32 fo) (jopt jint a) = Some a" if "\<And>i. a = Some i \<Longrightarrow> is_i32 i" for a
    using nullable_jopt [of jint a "decode_int32 fo" "\<lambda>i. i"] that decode_numbers(1) [OF assms(1)]
    by (simp add: option.map_ident)
  have g: "nullable decode_git (jopt git_tree a) = Some (map_option app_git_of a)" for a
    by (rule nullable_jopt) (simp_all add: git_back)
  show ?thesis
    by (simp add: decode_context_def context_tree_def required_def if_present_def i [OF assms(3)]
        i [OF assms(4)] g env_back [OF assms(2)] declaration_back app_context_of_def)
qed

lemma attribution_back:
  assumes "reads_ints fo" and "event_typed ev" and "w = ev_who ev"
  shows "decode_attribution fo (attribution_tree w) =
    (if readable_declaration (cx_declared (at_context w)) then Some (ae_who (app_view fo ev)) else None)"
proof -
  have t: "is_i32 (at_pid w)" "\<And>p. p \<in> set (at_ancestry w) \<Longrightarrow> is_i32 (pi_pid p)"
    "\<And>a. a \<in> set (at_apps w) \<Longrightarrow> ai_depth a < 2 ^ 63"
    "\<And>p. at_process w = Some p \<Longrightarrow> is_i32 (pi_pid p)" "\<And>a. at_app w = Some a \<Longrightarrow> ai_depth a < 2 ^ 63"
    using assms(2,3) by (auto simp: event_typed_def who_typed_def Let_def list_all_iff)
  have c: "decode_context fo (context_tree (at_context w)) =
      (if readable_declaration (cx_declared (at_context w)) then Some (app_context_of fo (at_context w)) else None)"
    by (rule context_back [OF assms(1)]) (use assms(2,3) in \<open>auto simp: event_typed_def who_typed_def Let_def\<close>)
  have p: "nullable (decode_proc fo) (jopt proc_tree (at_process w)) = Some (at_process w)"
    using nullable_jopt [of proc_tree "at_process w" "decode_proc fo" "\<lambda>p. p"] proc_back [OF assms(1)] t(4)
    by (simp add: option.map_ident)
  have a: "nullable (decode_app fo) (jopt app_tree (at_app w)) = Some (at_app w)"
    using nullable_jopt [of app_tree "at_app w" "decode_app fo" "\<lambda>p. p"] app_back [OF assms(1)] t(5)
    by (simp add: option.map_ident)
  have ps: "decode_array (decode_proc fo) (jlist proc_tree (at_ancestry w)) = Some (at_ancestry w)"
    using decode_jlist [of "at_ancestry w" "decode_proc fo" proc_tree "\<lambda>p. p"] proc_back [OF assms(1)] t(2)
    by simp
  have "as": "decode_array (decode_app fo) (jlist app_tree (at_apps w)) = Some (at_apps w)"
    using decode_jlist [of "at_apps w" "decode_app fo" app_tree "\<lambda>p. p"] app_back [OF assms(1)] t(3)
    by simp
  show ?thesis
    by (simp add: decode_attribution_def attribution_tree_def required_def if_present_def c p a ps "as"
        decode_numbers(1) [OF assms(1) t(1)] app_view_def assms(3) [symmetric] Let_def)
qed

text \<open>
  C19: The app reads every event the daemon writes as the event it is, field for field, unless
  the declaration filed for the request is neither an object nor \<open>null\<close>: then the app cannot
  read the line at all, and the signature it records is missing from the app's list.
\<close>

theorem app_reads_events:
  assumes "reads_ints fo" and "fo_double fo (fmt (ev_ts ev)) = Some (ev_ts ev)" and "event_typed ev"
  shows "decode_event fo (event_tree fmt ev) =
    (if readable_declaration (cx_declared (at_context (ev_who ev))) then Some (app_view fo ev) else None)"
proof -
  have d: "ev_duration_ms ev < 2 ^ 64" using assms(3) by (simp add: event_typed_def)
  from decode_numbers(3) [OF assms(1) this] show ?thesis
    using assms(2) attribution_back [OF assms(1,3) refl]
    by (simp add: decode_event_def event_tree_def required_def if_present_def decode_double_def app_view_def Let_def)
qed

text \<open>A reader of decimal integers, to show that there is one.\<close>

definition int_of_text :: "string \<Rightarrow> int option" where
  "int_of_text t =
    (let (neg, ds) = (case t of [] \<Rightarrow> (False, []) | c # cs \<Rightarrow> if c = CHR ''-'' then (True, cs) else (False, t))
     in if ds = [] \<or> \<not> list_all is_ascii_digit ds then None
        else Some (if neg then - int (digits_value ds) else int (digits_value ds)))"

lemma digit_of: "d < 10 \<Longrightarrow> code (digit d) = 48 + d"
proof -
  assume "d < 10"
  then have "d \<in> {0, 1, 2, 3, 4, 5, 6, 7, 8, 9}" by auto
  then show ?thesis by (auto simp: digit_def)
qed

lemma show_nat_digits: "show_nat n \<noteq> [] \<and> list_all is_ascii_digit (show_nat n) \<and> digits_value (show_nat n) = n"
proof (induction n rule: show_nat.induct)
  case (1 n)
  have d: "is_ascii_digit (digit d)" if "d < 10" for d using digit_of [OF that] that by (simp add: is_ascii_digit_def)
  show ?case
  proof (cases "n < 10")
    case True
    then show ?thesis using d [of n] by (simp add: show_nat.simps [of n] digits_value_def digit_of)
  next
    case False
    with 1 d [of "n mod 10"] show ?thesis
      by (simp add: show_nat.simps [of n] digits_value_def digit_of)
  qed
qed

lemma int_of_shown: "int_of_text (show_int i) = Some i"
proof (cases "i < 0")
  case True
  then show ?thesis using show_nat_digits [of "nat (- i)"] by (simp add: show_int_def int_of_text_def)
next
  case False
  obtain c cs where c: "show_nat (nat i) = c # cs" using show_nat_digits [of "nat i"] by (cases "show_nat (nat i)") auto
  with show_nat_digits [of "nat i"] have "is_ascii_digit c" by simp
  then have "c \<noteq> CHR ''-''" by (auto simp: is_ascii_digit_def)
  with False c show_nat_digits [of "nat i"] show ?thesis
    by (simp add: show_int_def int_of_text_def Let_def)
qed

definition test_foundation :: foundation where
  "test_foundation = \<lparr>fo_parse = (\<lambda>_. None), fo_int = int_of_text, fo_double = (\<lambda>_. Some 0)\<rparr>"

lemma test_reads_ints: "reads_ints test_foundation"
  by (simp add: reads_ints_def test_foundation_def int_of_shown)

text \<open>An event with a declaration filed for its caller.\<close>

definition declared_event :: "json \<Rightarrow> event" where
  "declared_event d = blank_event
    \<lparr>ev_kind := Sign, ev_who := (ev_who blank_event)\<lparr>at_context := empty_context\<lparr>cx_declared := Some d\<rparr>\<rparr>\<rparr>"

lemma declared_event_typed: "event_typed (declared_event d)"
  by (simp add: event_typed_def who_typed_def declared_event_def blank_event_def empty_context_def is_i32_def)

theorem app_reads_events_witness:
  "decode_event test_foundation (event_tree (\<lambda>_. ''0'') (declared_event (JObject [(''task'', JString ''x'')]))) =
    Some (app_view test_foundation (declared_event (JObject [(''task'', JString ''x'')]))) \<and>
   decode_event test_foundation (event_tree (\<lambda>_. ''0'') (declared_event (JString ''x''))) = None"
proof -
  have d: "fo_double test_foundation ((\<lambda>_. ''0'') (ev_ts (declared_event d))) = Some (ev_ts (declared_event d))" for d
    by (simp add: test_foundation_def declared_event_def blank_event_def)
  from app_reads_events [OF test_reads_ints d declared_event_typed, of "JObject [(''task'', JString ''x'')]"]
    app_reads_events [OF test_reads_ints d declared_event_typed, of "JString ''x''"]
  show ?thesis by (simp add: readable_declaration_def declared_event_def)
qed

section \<open>The daemon's integers\<close>

text \<open>
  What the daemon knows of a caller is of its types' widths when the kernel's answer is: a
  process identifier, of the peer or read as the parent's, is 32 bits wide.
\<close>

lemma parent_is_i32: "parent_pid m pid = Some p \<Longrightarrow> is_i32 p"
  using sint_lt [where 'a = 32] sint_ge [where 'a = 32]
  by (auto simp: parent_pid_def is_i32_def Let_def split: option.splits if_splits)

lemma walk_chain_i32:
  "(\<And>c. cur = Some c \<Longrightarrow> is_i32 c) \<Longrightarrow> p \<in> set (walk_chain m n cur) \<Longrightarrow> is_i32 (pi_pid p)"
proof (induction m n cur rule: walk_chain.induct)
  case (2 m hops cur)
  then show ?case
    by (auto simp: proc_info_def parent_is_i32 split: option.splits if_splits)
qed simp

lemma apps_loop_depth:
  "a \<in> set (apps_loop depth out chain) \<Longrightarrow> a \<in> set out \<or> ai_depth a < depth + length chain"
proof (induction depth out chain rule: apps_loop.induct)
  case (2 depth out p ps)
  show ?case
  proof (cases "pi_path p")
    case None
    with "2.IH"(1) "2.prems" show ?thesis by auto
  next
    case (Some path)
    show ?thesis
    proof (cases "bundle_of path")
      case None
      with "2.IH"(2) [OF Some] "2.prems" Some show ?thesis by auto
    next
      case b: (Some bd)
      show ?thesis
      proof (cases "list_ex (\<lambda>a. ai_bundle_path a = bd) out")
        case True
        with "2.IH"(3) [OF Some b] "2.prems" Some b show ?thesis by auto
      next
        case False
        with "2.IH"(4) [OF Some b] "2.prems" Some b show ?thesis by auto
      qed
    qed
  qed
qed simp

lemma env_from_chain_i32:
  "(\<And>p. p \<in> set chain \<Longrightarrow> is_i32 (pi_pid p)) \<Longrightarrow> env_from_chain m chain = (env, from_pid, nm) \<Longrightarrow>
    finite (dom env) \<and> (\<forall>i. from_pid = Some i \<longrightarrow> is_i32 i)"
  by (induction m chain rule: env_from_chain.induct)
     (auto simp: Let_def finite_dom_map_of split: if_splits)

lemma declared_for_i32:
  "(\<And>p. p \<in> set chain \<Longrightarrow> is_i32 (pi_pid p)) \<Longrightarrow> declared_for m chain = (d, Some i) \<Longrightarrow> is_i32 i"
  by (induction m chain rule: declared_for.induct) (auto split: option.splits)

lemma gather_typed:
  assumes "\<And>p. p \<in> set chain \<Longrightarrow> is_i32 (pi_pid p)" and "c = gather_bounded m chain r b"
  shows "finite (dom (cx_env c)) \<and> (\<forall>i. cx_env_from_pid c = Some i \<longrightarrow> is_i32 i) \<and>
    (\<forall>i. cx_declared_from_pid c = Some i \<longrightarrow> is_i32 i)"
  using env_from_chain_i32 [where m = m, OF assms(1)] declared_for_i32 [where m = m, OF assms(1)]
  by (cases "env_from_chain m chain"; cases "declared_for m chain")
     (auto simp: assms(2) gather_bounded_def gather_def empty_context_def Let_def)

text \<open>Sixteen processes bound every depth, so what \<open>attribute\<close> finds fits the log's and the app's integers.\<close>

lemma attribute_typed:
  assumes "is_i32 (snd (os_peerpid m fd))"
  shows "who_typed (attribute m fd)"
proof (cases "peer_pid m fd")
  case None
  then show ?thesis by (simp add: attribute_def who_typed_def empty_context_def is_i32_def)
next
  case (Some pid)
  define ch where "ch = walk_chain m 16 (Some pid)"
  have "is_i32 pid" using Some assms by (auto simp: peer_pid_def Let_def split: prod.splits if_splits)
  then have c: "is_i32 (pi_pid p)" if "p \<in> set ch" for p
    using walk_chain_i32 [of "Some pid" p m 16] that by (simp add: ch_def)
  have d: "ai_depth a < 2 ^ 63" if "a \<in> set (apps_for ch)" for a
    using apps_loop_depth [of a 0 "[]" ch] walk_chain_length [of m 16 "Some pid"] that
    by (simp add: apps_for_def ch_def)
  have p: "ch = p # ps \<Longrightarrow> is_i32 (pi_pid p)" for p ps using c by simp
  show ?thesis
    using \<open>is_i32 pid\<close> c d p gather_typed [where m = m, OF c refl]
    by (auto simp: attribute_def Some Let_def who_typed_def list_all_iff ch_def [symmetric]
        split: option.splits list.splits)
qed

end
