(* ===== verification/App_Events.thy ===== *)
theory App_Events
  imports App_Model
begin

text \<open>
  \<open>app/Sources/KeywardApp/EventStore.swift\<close>: the app's tail of the daemon's log. A tick stats
  the file, starts over when it is another file or a shorter one, and reads from where it
  stopped; stat and read are two looks at a file the daemon goes on writing. What the app
  says of an event (\<open>Model.swift\<close>) and the notifications it posts are here too.
\<close>

section \<open>What the app says of an event\<close>

text \<open>\<open>NSString.lastPathComponent\<close>.\<close>

definition last_path_component :: "string \<Rightarrow> string" where
  "last_path_component p =
    (case filter (\<lambda>w. w \<noteq> []) (split_on (CHR ''/'') p) of
       [] \<Rightarrow> (if p = [] then [] else ''/'') | ws \<Rightarrow> last ws)"

definition proc_display :: "proc_info \<Rightarrow> string" where
  "proc_display p =
    (case or_else (pi_name p) (map_option last_path_component (pi_path p)) of
       Some n \<Rightarrow> n | None \<Rightarrow> ''pid '' @ show_int (pi_pid p))"

definition app_name :: "agent_event \<Rightarrow> string" where
  "app_name ae =
    unwrap_or (or_else (map_option ai_name (aa_app (ae_who ae)))
      (map_option proc_display (aa_process (ae_who ae)))) ''Unknown''"

definition succeeded :: "agent_event \<Rightarrow> bool" where
  "succeeded ae \<longleftrightarrow>
    \<not> starts_with (ae_outcome ae) ''error'' \<and> ae_outcome ae \<noteq> ''timeout'' \<and> ae_outcome ae \<noteq> ''denied''"

section \<open>The store\<close>

record event_store =
  es_events :: "agent_event list"
  es_offset :: nat
  es_inode :: nat
  es_primed :: bool
  es_notify :: bool

record notification =
  nt_title :: string
  nt_body :: string

definition MAX_EVENTS :: nat where "MAX_EVENTS = 5000"

definition notify :: "agent_event \<Rightarrow> notification" where
  "notify ae =
    \<lparr>nt_title = app_name ae @ '' signed with your key'',
     nt_body = join middle_dot
       (List.map_filter (\<lambda>part. part)
         [aa_destination (ae_who ae), ae_key_comment ae, map_option (\<lambda>u. ''via '' @ u) (ae_upstream ae)])\<rparr>"

definition decode_line :: "foundation \<Rightarrow> string \<Rightarrow> agent_event option" where
  "decode_line fo line = Option.bind (fo_parse fo line) (decode_event fo)"

definition fresh_events :: "foundation \<Rightarrow> string \<Rightarrow> agent_event list" where
  "fresh_events fo text =
    List.map_filter (decode_line fo) (filter (\<lambda>line. line \<noteq> []) (split_on (CHR 0x0A) text))"

definition keep_last :: "nat \<Rightarrow> 'a list \<Rightarrow> 'a list" where
  "keep_last n xs = drop (length xs - n) xs"

text \<open>
  One tick: the file's size and number as the stat says, and the bytes it holds when it is
  read a moment later.
\<close>

definition tick ::
  "foundation \<Rightarrow> (nat \<times> nat) option \<Rightarrow> string option \<Rightarrow> event_store \<Rightarrow> event_store \<times> notification list" where
  "tick fo attrs contents es =
    (case attrs of
       None \<Rightarrow> (es, [])
     | Some (file_size, ino) \<Rightarrow>
         let es1 = (if ino \<noteq> es_inode es \<or> file_size < es_offset es
                    then es\<lparr>es_inode := ino, es_offset := 0, es_events := []\<rparr> else es)
         in if file_size \<le> es_offset es1 then (es1, [])
            else
              (case contents of
                 None \<Rightarrow> (es1, [])
               | Some bytes \<Rightarrow>
                   let data = drop (es_offset es1) bytes
                   in if data = [] then (es1, [])
                      else
                        let es2 = es1\<lparr>es_offset := file_size\<rparr>; fresh = fresh_events fo data
                        in if fresh = [] then (es2, [])
                           else
                             (es2\<lparr>es_events := keep_last MAX_EVENTS (es_events es2 @ fresh)\<rparr>,
                              if es_primed es2 \<and> es_notify es2
                              then map notify (filter (\<lambda>ae. ae_kind ae = Sign) fresh) else [])))"

text \<open>\<open>start\<close>: the first tick comes before \<open>primed\<close>, so it notifies of nothing.\<close>

definition start_store ::
  "foundation \<Rightarrow> (nat \<times> nat) option \<Rightarrow> string option \<Rightarrow> event_store \<Rightarrow> event_store \<times> notification list" where
  "start_store fo attrs contents es =
    (case tick fo attrs contents es of (es', notes) \<Rightarrow> (es'\<lparr>es_primed := True\<rparr>, notes))"

definition new_store :: "bool \<Rightarrow> event_store" where
  "new_store notifies =
    \<lparr>es_events = [], es_offset = 0, es_inode = 0, es_primed = False, es_notify = notifies\<rparr>"

section \<open>Lines\<close>

lemma keep_last_append: "keep_last n (keep_last n xs @ ys) = keep_last n (xs @ ys)"
  by (cases "n \<le> length xs") (auto simp: keep_last_def add.commute)

text \<open>A file of whole lines, and what the app makes of each.\<close>

definition whole_lines :: "string list \<Rightarrow> string" where
  "whole_lines ls = concat (map (\<lambda>l. l @ [CHR 0x0A]) ls)"

lemma whole_lines_append: "whole_lines (ls @ ms) = whole_lines ls @ whole_lines ms"
  by (simp add: whole_lines_def)

lemma split_whole_lines:
  "\<forall>l \<in> set ls. CHR 0x0A \<notin> set l \<Longrightarrow> split_on (CHR 0x0A) (whole_lines ls @ t) = ls @ split_on (CHR 0x0A) t"
  by (induction ls) (auto simp: whole_lines_def split_on_line)

definition one_line :: "string \<Rightarrow> bool" where
  "one_line l \<longleftrightarrow> l \<noteq> [] \<and> CHR 0x0A \<notin> set l"

lemma fresh_whole_lines:
  assumes "\<forall>l \<in> set ls. one_line l"
  shows "fresh_events fo (whole_lines ls) = List.map_filter (decode_line fo) ls"
proof -
  have "split_on (CHR 0x0A) (whole_lines ls) = ls @ [[]]"
    using split_whole_lines [of ls "[]"] assms by (simp add: one_line_def)
  moreover have "filter (\<lambda>l. l \<noteq> []) ls = ls"
    using assms by (auto simp: one_line_def filter_id_conv)
  ultimately show ?thesis by (simp add: fresh_events_def)
qed

section \<open>The daemon writes, the app ticks\<close>

text \<open>
  The log as the daemon has it, the number of the file at its path, which is another one
  whenever the log is created or rotated, and the app's store. In one step the daemon
  appends an event, or the app ticks with nothing written between its stat and its read.
\<close>

record tail_world =
  tw_log :: log
  tw_inode :: nat
  tw_store :: event_store

datatype tail_op = Logged event | Ticked

definition file_replaced :: "log \<Rightarrow> string \<Rightarrow> bool" where
  "file_replaced l line \<longleftrightarrow>
    lg_current l = None \<or> lg_max_bytes l < length (current_bytes l @ line @ [CHR 0x0A])"

definition stat_of :: "tail_world \<Rightarrow> (nat \<times> nat) option" where
  "stat_of w = map_option (\<lambda>b. (length b, tw_inode w)) (lg_current (tw_log w))"

definition tail_step :: "foundation \<Rightarrow> (event \<Rightarrow> string option) \<Rightarrow> tail_op \<Rightarrow> tail_world \<Rightarrow> tail_world" where
  "tail_step fo to_json op w =
    (case op of
       Logged ev \<Rightarrow>
         w\<lparr>tw_log := log_append to_json io_fine ev (tw_log w),
           tw_inode :=
             (case to_json ev of
                None \<Rightarrow> tw_inode w
              | Some line \<Rightarrow> if file_replaced (tw_log w) line then Suc (tw_inode w) else tw_inode w)\<rparr>
     | Ticked \<Rightarrow> w\<lparr>tw_store := fst (tick fo (stat_of w) (lg_current (tw_log w)) (tw_store w))\<rparr>)"

text \<open>The app has read some of the whole lines of the file, and shows what they are.\<close>

definition has_read :: "foundation \<Rightarrow> string list \<Rightarrow> nat \<Rightarrow> event_store \<Rightarrow> bool" where
  "has_read fo ls k es \<longleftrightarrow>
    k \<le> length ls \<and> es_offset es = length (whole_lines (take k ls)) \<and>
    es_events es = keep_last MAX_EVENTS (List.map_filter (decode_line fo) (take k ls))"

definition tail_ok :: "foundation \<Rightarrow> string list \<Rightarrow> tail_world \<Rightarrow> bool" where
  "tail_ok fo ls w \<longleftrightarrow>
    (\<forall>l \<in> set ls. one_line l) \<and> current_bytes (tw_log w) = whole_lines ls \<and>
    (lg_current (tw_log w) = None \<longrightarrow> \<not> lg_open (tw_log w) \<and> es_events (tw_store w) = []) \<and>
    es_inode (tw_store w) \<le> tw_inode w \<and>
    (es_inode (tw_store w) = tw_inode w \<and> lg_current (tw_log w) \<noteq> None \<longrightarrow> (\<exists>k. has_read fo ls k (tw_store w)))"

lemma length_whole_lines: "length ls \<le> length (whole_lines ls)"
  by (induction ls) (auto simp: whole_lines_def)

lemma whole_lines_take_drop: "whole_lines (take k ls) @ whole_lines (drop k ls) = whole_lines ls"
  by (simp flip: whole_lines_append)

lemma map_filter_append: "List.map_filter f (xs @ ys) = List.map_filter f xs @ List.map_filter f ys"
  by (simp add: List.map_filter_def)

lemma has_read_all:
  assumes "has_read fo ls k es" and "es_offset es = length (whole_lines ls)"
  shows "has_read fo ls (length ls) es"
proof -
  have "length (whole_lines (drop k ls)) = 0"
    using assms whole_lines_take_drop [of k ls] unfolding has_read_def by (metis add_cancel_right_right length_append)
  then have "drop k ls = []" using length_whole_lines [of "drop k ls"] by simp
  then have "k = length ls" using assms(1) by (simp add: has_read_def)
  with assms(1) show ?thesis by simp
qed

text \<open>A tick that finds the file it knows, or a new one, has read it to the end.\<close>

lemma tick_reads:
  assumes l: "\<forall>l \<in> set ls. one_line l" and k: "ino = es_inode es \<longrightarrow> (\<exists>k. has_read fo ls k es)"
    and t: "es' = fst (tick fo (Some (length (whole_lines ls), ino)) (Some (whole_lines ls)) es)"
  shows "has_read fo ls (length ls) es' \<and> es_inode es' = ino"
proof -
  define es1 where "es1 = (if ino \<noteq> es_inode es \<or> length (whole_lines ls) < es_offset es
    then es\<lparr>es_inode := ino, es_offset := 0, es_events := []\<rparr> else es)"
  have i: "es_inode es1 = ino" by (auto simp: es1_def)
  note t' = t [unfolded tick_def option.case prod.case, folded es1_def, unfolded Let_def]
  obtain k where r: "has_read fo ls k es1"
  proof (cases "ino = es_inode es")
    case True
    with k obtain k where r: "has_read fo ls k es" by blast
    then have "es_offset es \<le> length (whole_lines ls)"
      using whole_lines_take_drop [of k ls] by (metis has_read_def le_add1 length_append)
    with True r that show thesis by (simp add: es1_def)
  next
    case False
    then have "has_read fo ls 0 es1" by (simp add: es1_def has_read_def whole_lines_def keep_last_def)
    with that show thesis .
  qed
  have d: "drop (es_offset es1) (whole_lines ls) = whole_lines (drop k ls)"
    using r whole_lines_take_drop [of k ls] by (metis append_eq_conv_conj has_read_def)
  have f: "fresh_events fo (whole_lines (drop k ls)) = List.map_filter (decode_line fo) (drop k ls)"
    by (rule fresh_whole_lines) (use l in \<open>auto dest: in_set_dropD\<close>)
  have e: "keep_last MAX_EVENTS (es_events es1 @ List.map_filter (decode_line fo) (drop k ls)) =
      keep_last MAX_EVENTS (List.map_filter (decode_line fo) ls)"
    using r by (simp add: has_read_def keep_last_append flip: map_filter_append)
  show ?thesis
  proof (cases "length (whole_lines ls) \<le> es_offset es1")
    case True
    moreover have "es_offset es1 \<le> length (whole_lines ls)"
      using r whole_lines_take_drop [of k ls] by (metis has_read_def le_add1 length_append)
    ultimately have "has_read fo ls (length ls) es1" using has_read_all [OF r] by simp
    with True i t' show ?thesis by simp
  next
    case False
    then have "whole_lines (drop k ls) \<noteq> []" using d by (metis drop_eq_Nil)
    with False i have n: "es_inode es' = ino" "es_offset es' = length (whole_lines ls)"
      by (simp_all add: t' d)
    have "List.map_filter (decode_line fo) ls =
        List.map_filter (decode_line fo) (take k ls) @ List.map_filter (decode_line fo) (drop k ls)"
      by (simp flip: map_filter_append)
    then have "es_events es1 = keep_last MAX_EVENTS (List.map_filter (decode_line fo) ls)"
      if "List.map_filter (decode_line fo) (drop k ls) = []"
      using r that by (simp add: has_read_def)
    with False \<open>whole_lines (drop k ls) \<noteq> []\<close> e
    have "es_events es' = keep_last MAX_EVENTS (List.map_filter (decode_line fo) ls)"
      by (simp add: t' d f)
    with n show ?thesis by (simp add: has_read_def)
  qed
qed

lemma has_read_more: "has_read fo ls k es \<Longrightarrow> has_read fo (ls @ ms) k es"
  by (simp add: has_read_def)

lemma tail_logs:
  assumes "tail_ok fo ls w" and "to_json ev = Some line" and "one_line line"
  shows "tail_ok fo (ls @ [line]) (tail_step fo to_json (Logged ev) w) \<or>
    tail_ok fo [] (tail_step fo to_json (Logged ev) w)"
proof -
  let ?l = "tw_log w" and ?w' = "tail_step fo to_json (Logged ev) w"
  let ?bytes = "current_bytes ?l @ line @ [CHR 0x0A]"
  have b: "?bytes = whole_lines (ls @ [line])"
    using assms(1) by (simp add: tail_ok_def whole_lines_append) (simp add: whole_lines_def)
  have c: "current_bytes (open_append True ?l) = current_bytes ?l"
    "lg_max_bytes (open_append True ?l) = lg_max_bytes ?l"
    by (simp_all add: open_append_def current_bytes_def)
  show ?thesis
  proof (cases "lg_max_bytes ?l < length ?bytes")
    case True
    then have "tail_ok fo [] ?w'"
      using assms(1,2) c
      by (auto simp: tail_ok_def tail_step_def log_append_def append_line_fine Let_def file_replaced_def
          current_bytes_def whole_lines_def)
    then show ?thesis by blast
  next
    case False
    then have l': "lg_current (tw_log ?w') = Some (whole_lines (ls @ [line]))"
      using assms(2) b c
      by (simp add: tail_step_def log_append_def append_line_fine Let_def)
    have "es_inode (tw_store w) \<le> tw_inode w" using assms(1) by (simp add: tail_ok_def)
    moreover have "\<exists>k. has_read fo (ls @ [line]) k (tw_store w)"
      if "lg_current ?l \<noteq> None" "es_inode (tw_store w) = tw_inode w"
      using assms(1) that by (auto simp: tail_ok_def intro: has_read_more)
    ultimately have "tail_ok fo (ls @ [line]) ?w'"
      using assms False l'
      by (auto simp: tail_ok_def tail_step_def file_replaced_def current_bytes_def [of "log_append to_json io_fine ev ?l"])
    then show ?thesis by blast
  qed
qed

lemma tail_ticks:
  assumes "tail_ok fo ls w" and "w' = tail_step fo to_json Ticked w"
  shows "tail_ok fo ls w' \<and> es_events (tw_store w') = keep_last MAX_EVENTS (List.map_filter (decode_line fo) ls)"
proof (cases "lg_current (tw_log w)")
  case None
  then have "w' = w" using assms(2) by (simp add: tail_step_def stat_of_def tick_def)
  moreover have "ls = []"
    using None assms(1) length_whole_lines [of ls] by (simp add: tail_ok_def current_bytes_def)
  ultimately show ?thesis using None assms(1) by (simp add: tail_ok_def keep_last_def)
next
  case (Some b)
  with assms(1) have b: "b = whole_lines ls" by (simp add: tail_ok_def current_bytes_def)
  have "has_read fo ls (length ls) (tw_store w') \<and> es_inode (tw_store w') = tw_inode w"
    using assms(1) Some b
    by (intro tick_reads [of ls "tw_inode w" "tw_store w" fo])
       (auto simp: assms(2) tail_step_def stat_of_def tail_ok_def)
  then show ?thesis
    using assms Some b by (auto simp: tail_ok_def tail_step_def has_read_def)
qed

definition tail_run :: "foundation \<Rightarrow> (event \<Rightarrow> string option) \<Rightarrow> tail_op list \<Rightarrow> tail_world \<Rightarrow> tail_world" where
  "tail_run fo to_json ops w = fold (tail_step fo to_json) ops w"

definition tail_start :: "nat \<Rightarrow> bool \<Rightarrow> tail_world" where
  "tail_start max_bytes notifies =
    \<lparr>tw_log = log_new None None max_bytes, tw_inode = 0, tw_store = new_store notifies\<rparr>"

definition logged_events :: "tail_op list \<Rightarrow> event list" where
  "logged_events ops = List.map_filter (\<lambda>op. case op of Logged ev \<Rightarrow> Some ev | Ticked \<Rightarrow> None) ops"

text \<open>The text of an event is one line that Foundation parses as the tree it is.\<close>

definition carried :: "foundation \<Rightarrow> (f64 \<Rightarrow> string) \<Rightarrow> (event \<Rightarrow> string option) \<Rightarrow> event \<Rightarrow> bool" where
  "carried fo fmt to_json ev \<longleftrightarrow>
    (case to_json ev of
       None \<Rightarrow> False
     | Some line \<Rightarrow> one_line line \<and> fo_parse fo line = Some (event_tree fmt ev)) \<and>
    event_typed ev \<and> fo_double fo (fmt (ev_ts ev)) = Some (ev_ts ev)"

lemma tail_run_ok:
  assumes "\<forall>ev \<in> set (logged_events ops). carried fo fmt to_json ev"
  shows "\<exists>pre evs. logged_events ops = pre @ evs \<and>
    tail_ok fo (map (\<lambda>ev. the (to_json ev)) evs) (tail_run fo to_json ops (tail_start mx n))"
  using assms
proof (induction ops rule: rev_induct)
  case Nil
  have "tail_ok fo [] (tail_start mx n)"
    by (auto simp: tail_ok_def tail_start_def log_new_def new_store_def current_bytes_def whole_lines_def)
  then show ?case by (simp add: logged_events_def tail_run_def)
next
  case (snoc op ops)
  have "\<forall>ev \<in> set (logged_events ops). carried fo fmt to_json ev"
    using snoc.prems by (simp add: logged_events_def map_filter_append)
  from snoc.IH [OF this] obtain pre evs where p: "logged_events ops = pre @ evs"
    and t: "tail_ok fo (map (\<lambda>ev. the (to_json ev)) evs) (tail_run fo to_json ops (tail_start mx n))" by blast
  let ?w = "tail_run fo to_json ops (tail_start mx n)"
  have r: "tail_run fo to_json (ops @ [op]) (tail_start mx n) = tail_step fo to_json op ?w"
    by (simp add: tail_run_def)
  show ?case
  proof (cases op)
    case Ticked
    with p tail_ticks [OF t refl, of to_json] show ?thesis
      unfolding r by (auto simp: logged_events_def map_filter_append)
  next
    case (Logged ev)
    then have "carried fo fmt to_json ev"
      using snoc.prems by (simp add: logged_events_def map_filter_append)
    then obtain line where j: "to_json ev = Some line" "one_line line"
      by (auto simp: carried_def split: option.splits)
    have l: "logged_events (ops @ [op]) = pre @ evs @ [ev]"
      using p Logged by (simp add: logged_events_def map_filter_append)
    from tail_logs [where to_json = to_json and ev = ev, OF t j] show ?thesis
    proof
      assume "tail_ok fo (map (\<lambda>ev. the (to_json ev)) evs @ [line]) (tail_step fo to_json (Logged ev) ?w)"
      with j(1) have "tail_ok fo (map (\<lambda>ev. the (to_json ev)) (evs @ [ev]))
          (tail_run fo to_json (ops @ [op]) (tail_start mx n))"
        by (simp add: r) (simp add: Logged)
      with l show ?thesis by blast
    next
      assume "tail_ok fo [] (tail_step fo to_json (Logged ev) ?w)"
      then have "tail_ok fo (map (\<lambda>ev. the (to_json ev)) []) (tail_run fo to_json (ops @ [op]) (tail_start mx n))"
        by (simp add: r) (simp add: Logged)
      moreover have "logged_events (ops @ [op]) = (pre @ evs @ [ev]) @ []" using l by simp
      ultimately show ?thesis by blast
    qed
  qed
qed

lemma decode_carried:
  assumes "reads_ints fo" and "carried fo fmt to_json ev"
  shows "decode_line fo (the (to_json ev)) =
    (if readable_declaration (cx_declared (at_context (ev_who ev))) then Some (app_view fo ev) else None)"
  using assms app_reads_events [of fo fmt ev]
  by (auto simp: carried_def decode_line_def split: option.splits)


text \<open>One event and the text that stands for it.\<close>

definition sample_event :: event where
  "sample_event = declared_event JNull"

definition sample_json :: "event \<Rightarrow> string option" where
  "sample_json ev = Some ''e''"

definition sample_foundation :: foundation where
  "sample_foundation = test_foundation
    \<lparr>fo_parse := (\<lambda>t. if t = ''e'' then Some (event_tree (\<lambda>_. ''0'') sample_event) else None)\<rparr>"

lemma sample_reads: "reads_ints sample_foundation"
  using test_reads_ints by (simp add: reads_ints_def sample_foundation_def)

lemma sample_carried: "carried sample_foundation (\<lambda>_. ''0'') sample_json sample_event"
  by (simp add: carried_def sample_json_def sample_foundation_def one_line_def declared_event_typed
      sample_event_def) (simp add: test_foundation_def declared_event_def blank_event_def)

lemma sample_readable: "readable_declaration (cx_declared (at_context (ev_who sample_event)))"
  by (simp add: sample_event_def declared_event_def readable_declaration_def)


section \<open>What a tick can get wrong\<close>

text \<open>
  The daemon appends an event between the stat and the read of a tick that has something to
  read: the tick shows both and moves on by the size it had stat'd, so the next tick shows
  the second event again.
\<close>

lemma append_inside_tick_shown_twice:
  assumes "\<forall>l \<in> set (ls @ [a, b]). one_line l" and "has_read fo ls (length ls) es"
    and "decode_line fo a = Some x" and "decode_line fo b = Some y"
    and "es1 = fst (tick fo (Some (length (whole_lines (ls @ [a])), es_inode es)) (Some (whole_lines (ls @ [a, b]))) es)"
    and "es2 = fst (tick fo (Some (length (whole_lines (ls @ [a, b])), es_inode es)) (Some (whole_lines (ls @ [a, b]))) es1)"
  shows "es_events es2 = keep_last MAX_EVENTS (es_events es @ [x, y, y])"
proof -
  have o: "es_offset es = length (whole_lines ls)" using assms(2) by (simp add: has_read_def)
  have ab: "fresh_events fo (whole_lines [a, b]) = [x, y]" "fresh_events fo (whole_lines [b]) = [y]"
    using assms(1,3,4) by (simp_all add: fresh_whole_lines)
  have ne: "whole_lines [a, b] \<noteq> []" "whole_lines [b] \<noteq> []" "whole_lines [a] \<noteq> []"
    by (simp_all add: whole_lines_def)
  have w: "whole_lines (ls @ [a, b]) = whole_lines ls @ whole_lines [a, b]"
    "whole_lines (ls @ [a, b]) = (whole_lines ls @ whole_lines [a]) @ whole_lines [b]"
    "whole_lines (ls @ [a]) = whole_lines ls @ whole_lines [a]"
    by (simp_all flip: whole_lines_append)
  have 1: "es1 = es\<lparr>es_offset := length (whole_lines ls) + length (whole_lines [a]),
      es_events := keep_last MAX_EVENTS (es_events es @ [x, y])\<rparr>"
    using ne by (simp add: assms(5) tick_def o w(1,3) ab Let_def)
  have d: "drop (length (whole_lines ls) + length (whole_lines [a])) (whole_lines (ls @ [a, b])) = whole_lines [b]"
    by (simp add: w(2))
  have l: "length (whole_lines (ls @ [a, b])) = length (whole_lines ls) + length (whole_lines [a]) + length (whole_lines [b])"
    by (simp add: w(2))
  show ?thesis
    using ne keep_last_append [of MAX_EVENTS "es_events es @ [x, y]" "[y]"]
    by (simp add: assms(6) tick_def 1 d l ab Let_def)
qed

text \<open>
  A request that was refused, declined or could not be routed is shown as one that was
  signed, and notified as one: whatever becomes of a signature with the daemon's own key,
  the outcome it logs is none of those the app knows as a failure.
\<close>

lemma own_outcomes:
  assumes "own_turn cfg ou e rd who data st = (reply, outcome, p, ev, st')"
  shows "\<not> starts_with outcome ''error'' \<and> outcome \<noteq> ''timeout'' \<and> outcome \<noteq> ''denied''"
proof -
  have r: "\<not> starts_with why ''error'' \<and> why \<noteq> ''timeout'' \<and> why \<noteq> ''denied''"
    if "refusal scr = Some why" for scr why
    using that by (cases scr) auto
  have b: "\<not> starts_with why ''error'' \<and> why \<noteq> ''timeout'' \<and> why \<noteq> ''denied''"
    if "barred e scr now s = (Some why, s')" for scr now s why s'
    using that r by (auto simp: barred_def split: if_splits)
  have s: "\<not> starts_with err ''error'' \<and> err \<noteq> ''timeout'' \<and> err \<noteq> ''denied''"
    if "own_sign cfg ou e ap who data q s = (Inl err, evs, s')" for ap q s err evs s'
    using that
    by (auto simp: own_sign_def enclave_sign_def sign_result_def Let_def
        split: prod.splits if_splits)
  show ?thesis
    using assms b s
    by (auto simp: own_turn_def own_finish_def Let_def
        split: prod.splits option.splits sum.splits bool.splits)
qed

text \<open>
  C35: What the app makes of a refusal. Every request for the daemon's own key is shown as a
  signature that was made, whatever became of it: refused on a locked screen, declined at
  the sheet, signed out meanwhile or failed in the enclave, its outcome is none of those the
  app knows as a failure. Of the requests passed on, those an upstream denied and those that
  timed out or broke off are shown as failures, and one for a key that no upstream holds is
  shown as made.
\<close>

theorem app_shows_refusals_as_signed:
  assumes "own_turn cfg ou e rd who data st = (reply, outcome, p, ev, st')"
    and "forward_sign ou up payload = (reply', up_nm, outcome')"
  shows "succeeded (app_view fo (own_event cfg ou e rd who bound p outcome)) \<and>
    (succeeded (app_view fo (upstream_event ou rd who bound blob comment up_nm outcome')) \<longleftrightarrow>
      up = None \<or> nth_opt reply' 0 \<noteq> Some FAILURE)"
proof
  show "succeeded (app_view fo (own_event cfg ou e rd who bound p outcome))"
    using own_outcomes [OF assms(1)] by (simp add: succeeded_def app_view_def own_event_def Let_def)
  have t: "io_error_text err = ''timeout'' \<or> starts_with (io_error_text err) ''error''" for err
    by (cases err) simp_all
  show "succeeded (app_view fo (upstream_event ou rd who bound blob comment up_nm outcome')) \<longleftrightarrow>
      up = None \<or> nth_opt reply' 0 \<noteq> Some FAILURE"
    using assms(2) t
    by (auto simp: succeeded_def app_view_def upstream_event_def forward_sign_def nth_opt_def Let_def
        split: option.splits sum.splits if_splits)
qed

theorem app_shows_refusals_as_signed_witness:
  "\<exists>outcome p ev st'. own_turn test_config test_outside test_enclave (test_readings\<lparr>rd_screen1 := Locked\<rparr>)
      nobody [9] test_daemon = ([FAILURE], outcome, p, ev, st') \<and>
    succeeded (app_view test_foundation (own_event test_config test_outside test_enclave test_readings nobody None p outcome))"
proof -
  let ?rd = "test_readings\<lparr>rd_screen1 := Locked\<rparr>"
  obtain reply outcome p ev st' where
    t: "own_turn test_config test_outside test_enclave ?rd nobody [9] test_daemon = (reply, outcome, p, ev, st')"
    by (cases "own_turn test_config test_outside test_enclave ?rd nobody [9] test_daemon") auto
  then have "reply = [FAILURE]"
    by (auto simp: own_turn_def barred_def test_enclave_def own_finish_def Let_def split: prod.splits)
  moreover have "forward_sign test_outside None [] = ([FAILURE], None, ''no upstream holds this key'')"
    by (simp add: forward_sign_def)
  from app_shows_refusals_as_signed [OF t this]
  have "succeeded (app_view test_foundation (own_event test_config test_outside test_enclave ?rd nobody None p outcome))"
    by blast
  ultimately show ?thesis
    using t by (auto simp: succeeded_def app_view_def own_event_def Let_def)
qed

end
