(* ===== verification/App_Card.thy ===== *)
theory App_Card
  imports App_Model
begin

text \<open>
  The app's end of the approval card: \<open>PendingSignature\<close> of \<open>Approval.swift\<close>, the connection
  loop of \<open>ApprovalServer.swift\<close>, which cuts what it reads into lines however the bytes
  arrive, and \<open>show\<close> and \<open>hide\<close> of \<open>ApprovalPanel.swift\<close>, which the threads of the
  connections post to the main actor. A card waits 0.12 s before it appears: that it does is
  a step of its own. Where the panel stands on the screen is in \<open>App_Panel\<close>.
\<close>

section \<open>The message\<close>

record pending_signature =
  ps_headline :: string
  ps_app :: "string option"
  ps_app_bundle :: "string option"
  ps_process :: "string option"
  ps_key :: "string option"
  ps_fingerprint :: "string option"
  ps_host :: "string option"
  ps_repo :: "string option"
  ps_branch :: "string option"
  ps_subject :: "string option"
  ps_command :: "string option"
  ps_script :: "bool option"
  ps_chain :: "string list"
  ps_session :: "string option"
  ps_directory :: "string option"
  ps_remote :: "string option"
  ps_commits :: "string list option"
  ps_commit_count :: "int option"
  ps_stat :: "string option"
  ps_upstream :: "string option"
  ps_sign_in :: "string option"

definition decode_pending :: "foundation \<Rightarrow> json \<Rightarrow> pending_signature option" where
  "decode_pending fo j =
    do {
      headline \<leftarrow> required decode_string ''headline'' j;
      app \<leftarrow> if_present decode_string ''app'' j;
      app_bundle \<leftarrow> if_present decode_string ''appBundle'' j;
      process \<leftarrow> if_present decode_string ''process'' j;
      key \<leftarrow> if_present decode_string ''key'' j;
      fingerprint \<leftarrow> if_present decode_string ''fingerprint'' j;
      host \<leftarrow> if_present decode_string ''host'' j;
      repo \<leftarrow> if_present decode_string ''repo'' j;
      branch \<leftarrow> if_present decode_string ''branch'' j;
      subject \<leftarrow> if_present decode_string ''subject'' j;
      command \<leftarrow> if_present decode_string ''command'' j;
      script \<leftarrow> if_present decode_bool ''script'' j;
      chain \<leftarrow> required (decode_array decode_string) ''chain'' j;
      session \<leftarrow> if_present decode_string ''session'' j;
      directory \<leftarrow> if_present decode_string ''directory'' j;
      remote \<leftarrow> if_present decode_string ''remote'' j;
      commits \<leftarrow> if_present (decode_array decode_string) ''commits'' j;
      commit_count \<leftarrow> if_present (decode_int64 fo) ''commitCount'' j;
      stat \<leftarrow> if_present decode_string ''stat'' j;
      upstream \<leftarrow> if_present decode_string ''upstream'' j;
      sign_in \<leftarrow> if_present decode_string ''signIn'' j;
      Some \<lparr>ps_headline = headline, ps_app = app, ps_app_bundle = app_bundle, ps_process = process,
        ps_key = key, ps_fingerprint = fingerprint, ps_host = host, ps_repo = repo,
        ps_branch = branch, ps_subject = subject, ps_command = command, ps_script = script,
        ps_chain = chain, ps_session = session, ps_directory = directory, ps_remote = remote,
        ps_commits = commits, ps_commit_count = commit_count, ps_stat = stat,
        ps_upstream = upstream, ps_sign_in = sign_in\<rparr>
    }"

definition is_push :: "pending_signature \<Rightarrow> bool" where
  "is_push ps \<longleftrightarrow> ps_commit_count ps \<noteq> None \<or> unwrap_or (ps_commits ps) [] \<noteq> []"

definition decode_envelope :: "json \<Rightarrow> string option" where
  "decode_envelope j = required decode_string ''type'' j"

section \<open>A connection\<close>

datatype ui_task = ShowCard pending_signature | HideCard

text \<open>What a connection's thread does: post to the main actor, or answer the daemon.\<close>

datatype server_act = Post ui_task | Ack

definition handle_line :: "foundation \<Rightarrow> string \<Rightarrow> server_act list" where
  "handle_line fo line =
    (case fo_parse fo line of
       None \<Rightarrow> []
     | Some j \<Rightarrow>
         (case decode_envelope j of
            None \<Rightarrow> []
          | Some ty \<Rightarrow>
              if ty = ''show'' then
                (case decode_pending fo j of Some ctx \<Rightarrow> [Post (ShowCard ctx)] | None \<Rightarrow> []) @ [Ack]
              else if ty = ''done'' then [Post HideCard] else []))"

text \<open>The loop that takes the lines off what has been read, and what is left over.\<close>

function drain :: "foundation \<Rightarrow> string \<Rightarrow> server_act list \<times> string" where
  "drain fo acc =
    (case position (\<lambda>c. c = CHR 0x0A) acc of
       None \<Rightarrow> ([], acc)
     | Some i \<Rightarrow>
         (case drain fo (drop (Suc i) acc) of
            (acts, rest) \<Rightarrow> (handle_line fo (take i acc) @ acts, rest)))"
  by pat_completeness auto
termination by (relation "measure (\<lambda>(fo, acc). length acc)") (auto dest: position_Some)

declare drain.simps [simp del]

text \<open>\<open>serve\<close> over the chunks it reads, until the daemon is gone.\<close>

fun serve_ui :: "foundation \<Rightarrow> string \<Rightarrow> string list \<Rightarrow> server_act list" where
  "serve_ui fo acc [] = [Post HideCard]"
| "serve_ui fo acc (chunk # chunks) =
    (case drain fo (acc @ chunk) of (acts, acc') \<Rightarrow> acts @ serve_ui fo acc' chunks)"

section \<open>The panel\<close>

record panel =
  pn_waiting :: "pending_signature option"
  pn_shown :: "pending_signature option"

definition no_panel :: panel where
  "no_panel = \<lparr>pn_waiting = None, pn_shown = None\<rparr>"

fun panel_task :: "ui_task \<Rightarrow> panel \<Rightarrow> panel" where
  "panel_task (ShowCard c) p = p\<lparr>pn_waiting := Some c\<rparr>"
| "panel_task HideCard p = p\<lparr>pn_waiting := None, pn_shown := None\<rparr>"

text \<open>The delay of a waiting card is over.\<close>

definition panel_fires :: "panel \<Rightarrow> panel" where
  "panel_fires p =
    (case pn_waiting p of None \<Rightarrow> p | Some c \<Rightarrow> p\<lparr>pn_waiting := None, pn_shown := Some c\<rparr>)"

section \<open>The message comes through\<close>

definition pending_of :: "show_msg \<Rightarrow> pending_signature" where
  "pending_of m =
    \<lparr>ps_headline = sm_headline m, ps_app = sm_app m, ps_app_bundle = sm_app_bundle m,
     ps_process = sm_process m, ps_key = sm_key m, ps_fingerprint = sm_fingerprint m,
     ps_host = sm_host m, ps_repo = sm_repo m, ps_branch = sm_branch m, ps_subject = sm_subject m,
     ps_command = sm_command m, ps_script = Some (sm_script m), ps_chain = sm_chain m,
     ps_session = sm_session m, ps_directory = sm_directory m, ps_remote = sm_remote m,
     ps_commits = Some (sm_commits m), ps_commit_count = map_option int (sm_commit_count m),
     ps_stat = sm_stat m, ps_upstream = sm_upstream m, ps_sign_in = sm_sign_in m\<rparr>"

lemma show_keys [simp]:
  "from_snake_case ''type'' = ''type''" "from_snake_case ''headline'' = ''headline''"
  "from_snake_case ''app_bundle'' = ''appBundle''" "from_snake_case ''key'' = ''key''"
  "from_snake_case ''fingerprint'' = ''fingerprint''" "from_snake_case ''command'' = ''command''"
  "from_snake_case ''script'' = ''script''" "from_snake_case ''chain'' = ''chain''"
  "from_snake_case ''session'' = ''session''" "from_snake_case ''directory'' = ''directory''"
  by code_simp+

lemma show_envelope: "decode_envelope (show_tree m) = Some ''show''"
  by (simp add: decode_envelope_def required_def show_tree_def)

lemma pending_back:
  assumes "reads_ints fo" and "\<And>n. sm_commit_count m = Some n \<Longrightarrow> n < 2 ^ 32"
  shows "decode_pending fo (show_tree m) = Some (pending_of m)"
proof -
  have n: "nullable (decode_int64 fo) (jopt jnat (sm_commit_count m)) = Some (map_option int (sm_commit_count m))"
  proof (rule nullable_jopt)
    fix n assume "sm_commit_count m = Some n"
    then have "n < 2 ^ 63" using assms(2) by fastforce
    then show "decode_int64 fo (jnat n) = Some (int n)" by (rule decode_numbers(2) [OF assms(1)])
  qed (simp add: jnat_def)
  have b: "nullable decode_bool (JBool b) = Some (Some b)" for b by (simp add: nullable_def decode_bool_def)
  have l: "nullable (decode_array decode_string) (jlist JString xs) = Some (Some xs)" for xs
    using decode_strings [of xs] by (simp add: nullable_def jlist_def)
  show ?thesis
    by (simp add: decode_pending_def show_tree_def pending_of_def required_def if_present_def n b l)
qed

section \<open>Lines, however they arrive\<close>

declare split_on_not_Nil [simp]

lemma split_on_position:
  "split_on c s = (case position (\<lambda>x. x = c) s of
     None \<Rightarrow> [s] | Some i \<Rightarrow> take i s # split_on c (drop (Suc i) s))"
  by (induction s) (auto split: option.splits list.splits)

lemma drain_lines:
  "drain fo acc = (concat (map (handle_line fo) (butlast (split_on (CHR 0x0A) acc))), last (split_on (CHR 0x0A) acc))"
proof (induction fo acc rule: drain.induct)
  case (1 fo acc)
  then show ?case
    by (subst drain.simps) (auto simp: split_on_position [of _ acc] split: option.splits)
qed

lemma split_on_append:
  "split_on c (a @ b) = butlast (split_on c a) @ split_on c (last (split_on c a) @ b)"
proof (induction a)
  case Nil
  then show ?case by simp
next
  case (Cons x a)
  show ?case
  proof (cases "x = c")
    case True
    with Cons show ?thesis by simp
  next
    case False
    show ?thesis
    proof (cases "butlast (split_on c a)")
      case Nil
      then obtain y where "split_on c a = [y]" by (metis append_butlast_last_id append_Nil split_on_not_Nil)
      with Cons False show ?thesis by (simp split: list.splits)
    next
      case (Cons y ys)
      then have "split_on c a = y # ys @ [last (split_on c a)]"
        by (metis append_Cons append_butlast_last_id split_on_not_Nil)
      then show ?thesis using \<open>split_on c (a @ b) = _\<close> False Cons
        by (auto split: list.splits)
    qed
  qed
qed

text \<open>
  C33: What the app does on a connection of the daemon depends on the bytes alone and not on
  how its reads cut them: it handles every line that ends, in order and once, lets go of a
  line that never does, and takes the card down when the connection ends.
\<close>

theorem serve_ui_of_bytes:
  "serve_ui fo [] chunks =
    concat (map (handle_line fo) (butlast (split_on (CHR 0x0A) (concat chunks)))) @ [Post HideCard]"
proof -
  have "serve_ui fo acc chunks =
      concat (map (handle_line fo) (butlast (split_on (CHR 0x0A) (acc @ concat chunks)))) @ [Post HideCard]"
    if "CHR 0x0A \<notin> set acc" for acc
    using that
  proof (induction chunks arbitrary: acc)
    case Nil
    then show ?case by (simp add: split_on_no)
  next
    case (Cons ch chunks)
    let ?l = "last (split_on (CHR 0x0A) (acc @ ch))"
    have "CHR 0x0A \<notin> set (last (split_on (CHR 0x0A) s))" for s
      by (induction s) (auto split: list.splits)
    from Cons.IH [OF this] show ?case
      using split_on_append [of "CHR 0x0A" "acc @ ch" "concat chunks"]
      by (simp add: drain_lines butlast_append)
  qed
  from this [of "[]"] show ?thesis by simp
qed

section \<open>The exchange\<close>

text \<open>
  What the daemon's two lines are to Foundation: the text \<open>serde_json\<close> makes of the message is
  one line that parses as its tree, and the line that ends the card as an object with its type.
\<close>

definition lines_parse :: "foundation \<Rightarrow> ui_io \<Rightarrow> show_msg \<Rightarrow> bool" where
  "lines_parse fo io m \<longleftrightarrow>
    (case ui_json io m of
       None \<Rightarrow> True
     | Some l \<Rightarrow> CHR 0x0A \<notin> set l \<and> fo_parse fo l = Some (show_tree m)) \<and>
    fo_parse fo (butlast done_line) = Some (JObject [(''type'', JString ''done'')])"

lemma done_handled:
  "lines_parse fo io m \<Longrightarrow> handle_line fo (butlast done_line) = [Post HideCard]"
  by (simp add: lines_parse_def handle_line_def decode_envelope_def required_def)

lemma show_handled:
  assumes "lines_parse fo io m" and "ui_json io m = Some l" and "reads_ints fo"
    and "\<And>n. sm_commit_count m = Some n \<Longrightarrow> n < 2 ^ 32"
  shows "handle_line fo l = [Post (ShowCard (pending_of m)), Ack]"
  using assms pending_back [OF assms(3,4)] by (simp add: lines_parse_def handle_line_def show_envelope)

text \<open>
  C21: The exchange of a card, from the daemon's end to the app's: whatever becomes of the
  connection and however its bytes are cut, the app shows the card at most once and then it
  shows the message the daemon built, field for field, so what approving it grants reaches
  the person; it answers the one line the daemon waits for with one line and no more; and the last
  thing it does is to take the card down.
\<close>

theorem card_reaches_the_app:
  assumes "lines_parse fo io m" and "reads_ints fo"
    and "\<forall>n. sm_commit_count m = Some n \<longrightarrow> n < 2 ^ 32"
    and "c = card_done writes (show_card io m)" and "concat chunks = concat (cd_sent c)"
  shows "serve_ui fo [] chunks =
    (if ui_connects io \<and> ui_writes io \<and> ui_json io m \<noteq> None
     then [Post (ShowCard (pending_of m)), Ack] else []) @
    (if cd_open (show_card io m) \<and> writes then [Post HideCard] else []) @ [Post HideCard]"
proof -
  have d: "done_line = butlast done_line @ [CHR 0x0A]" by (simp add: done_line_def)
  have n: "CHR 0x0A \<notin> set (butlast done_line)" by (simp add: done_line_def)
  have dl: "split_on (CHR 0x0A) done_line = [butlast done_line, []]"
    using split_on_line [OF n, of "[]"] d by simp
  have ll: "split_on (CHR 0x0A) (l @ CHR 0x0A # s) = l # split_on (CHR 0x0A) s"
    if "ui_json io m = Some l" for l s
    using assms(1) that by (intro split_on_line) (simp add: lines_parse_def)
  note hd = done_handled [OF assms(1)]
  show ?thesis
    using show_handled [OF assms(1) _ assms(2)] assms(3) hd ll dl
    by (auto simp: serve_ui_of_bytes assms(4,5) card_done_def show_card_def split: option.splits)
qed

section \<open>What is left on the screen\<close>

text \<open>
  The main actor's day: tasks of the connections, named by their number, in some order that
  keeps each connection's own, and delays that end in between.
\<close>

datatype actor_step = FromConn nat ui_task | DelayEnds

fun actor_does :: "actor_step \<Rightarrow> panel \<Rightarrow> panel" where
  "actor_does (FromConn k t) p = panel_task t p"
| "actor_does DelayEnds p = panel_fires p"

definition posts :: "server_act list \<Rightarrow> ui_task list" where
  "posts acts = List.map_filter (\<lambda>a. case a of Post t \<Rightarrow> Some t | Ack \<Rightarrow> None) acts"

definition tasks_of :: "nat \<Rightarrow> actor_step list \<Rightarrow> ui_task list" where
  "tasks_of k steps =
    List.map_filter (\<lambda>s. case s of FromConn j t \<Rightarrow> if j = k then Some t else None | DelayEnds \<Rightarrow> None) steps"

lemma tasks_of_append: "tasks_of k (xs @ ys) = tasks_of k xs @ tasks_of k ys"
  by (simp add: tasks_of_def List.map_filter_def)

lemma posts_append: "posts (xs @ ys) = posts xs @ posts ys"
  by (simp add: posts_def List.map_filter_def)

lemma posts_serve: "\<exists>ts. posts (serve_ui fo acc chunks) = ts @ [HideCard]"
proof (induction chunks arbitrary: acc)
  case Nil
  then show ?case by (simp add: posts_def)
next
  case (Cons ch chunks)
  obtain acts acc' where d: "drain fo (acc @ ch) = (acts, acc')" by (cases "drain fo (acc @ ch)")
  obtain ts where "posts (serve_ui fo acc' chunks) = ts @ [HideCard]" using Cons.IH by blast
  then have "posts (serve_ui fo acc (ch # chunks)) = (posts acts @ ts) @ [HideCard]"
    by (simp add: d posts_append)
  then show ?case by blast
qed

lemma delays_show_nothing: "list_all (\<lambda>s. s = DelayEnds) steps \<Longrightarrow> fold actor_does steps no_panel = no_panel"
  by (induction steps) (auto simp: panel_fires_def no_panel_def)

text \<open>
  C34: A card never outlives its connections: in any interleaving of any number of connections,
  once each has ended nothing is on the screen and nothing is waiting to appear, whatever
  they sent and however the delays fell.
\<close>

theorem no_card_left:
  assumes "\<forall>k. tasks_of k steps = [] \<or> tasks_of k steps = posts (serve_ui fo [] (chunks k))"
  shows "fold actor_does steps no_panel = no_panel"
proof -
  have "\<exists>pre k t post. steps = pre @ FromConn k t # post \<and> list_all (\<lambda>s. s = DelayEnds) post"
    if "\<not> list_all (\<lambda>s. s = DelayEnds) steps" for steps :: "actor_step list"
    using that
  proof (induction steps rule: rev_induct)
    case (snoc s steps)
    show ?case
    proof (cases s)
      case (FromConn k t)
      then show ?thesis by (intro exI [of _ steps] exI [of _ k] exI [of _ t] exI [of _ "[]"]) simp
    next
      case DelayEnds
      with snoc obtain pre k t post where "steps = pre @ FromConn k t # post" "list_all (\<lambda>s. s = DelayEnds) post" by auto
      with DelayEnds show ?thesis by (intro exI [of _ pre] exI [of _ k] exI [of _ t] exI [of _ "post @ [s]"]) simp
    qed
  qed simp
  then consider "list_all (\<lambda>s. s = DelayEnds) steps"
    | pre k t post where "steps = pre @ FromConn k t # post" "list_all (\<lambda>s. s = DelayEnds) post" by blast
  then show ?thesis
  proof cases
    case 1
    then show ?thesis by (rule delays_show_nothing)
  next
    case 2
    have "tasks_of k post = []"
      using 2(2) by (induction post) (auto simp: tasks_of_def)
    then have e: "tasks_of k steps = tasks_of k pre @ [t]"
      using 2(1) by (simp add: tasks_of_append) (simp add: tasks_of_def)
    obtain ts where "posts (serve_ui fo [] (chunks k)) = ts @ [HideCard]" using posts_serve by blast
    with assms e have "t = HideCard" by (metis append_is_Nil_conv last_snoc not_Cons_self2)
    then have "panel_task t p = no_panel" for p by (simp add: no_panel_def)
    with 2 show ?thesis by (simp add: delays_show_nothing)
  qed
qed

text \<open>The two messages of two requests, the first of which has ended.\<close>

definition plain_message :: "string \<Rightarrow> show_msg" where
  "plain_message headline =
    \<lparr>sm_headline = headline, sm_app = None, sm_app_bundle = None, sm_process = None, sm_key = None,
     sm_fingerprint = None, sm_host = None, sm_repo = None, sm_branch = None, sm_subject = None,
     sm_command = None, sm_script = False, sm_chain = [], sm_session = None, sm_directory = None,
     sm_remote = None, sm_commits = [], sm_commit_count = None, sm_stat = None, sm_upstream = None,
     sm_sign_in = Some ''for 6 hours''\<rparr>"

text \<open>
  A connection takes the card down twice, at the line that ends it and when it closes, and
  the second can come after the next request's card is up: then that card is gone while its
  sheet is still there.
\<close>

lemma late_hide_takes_the_next_card:
  "fold actor_does
    [FromConn 1 (ShowCard a), DelayEnds, FromConn 1 HideCard, FromConn 2 (ShowCard b), DelayEnds]
      no_panel = no_panel\<lparr>pn_shown := Some b\<rparr> \<and>
   fold actor_does
    [FromConn 1 (ShowCard a), DelayEnds, FromConn 1 HideCard, FromConn 2 (ShowCard b), DelayEnds,
     FromConn 1 HideCard] no_panel = no_panel"
  by (simp add: panel_fires_def no_panel_def)

definition card_foundation :: foundation where
  "card_foundation = test_foundation
    \<lparr>fo_parse := (\<lambda>t. if t = ''m'' then Some (show_tree (plain_message ''git push''))
       else if t = butlast done_line then Some (JObject [(''type'', JString ''done'')]) else None)\<rparr>"

definition card_io :: ui_io where
  "card_io = \<lparr>ui_connects = True, ui_json = (\<lambda>_. Some ''m''), ui_writes = True, ui_clones = True\<rparr>"

lemma card_parses: "lines_parse card_foundation card_io (plain_message ''git push'')"
  by (simp add: lines_parse_def card_foundation_def card_io_def) (simp add: done_line_def)

theorem card_reaches_the_app_witness:
  "serve_ui card_foundation [] [''m'', [CHR 0x0A] @ done_line] =
    [Post (ShowCard (pending_of (plain_message ''git push''))), Ack, Post HideCard, Post HideCard]"
proof -
  have r: "reads_ints card_foundation"
    using test_reads_ints by (simp add: reads_ints_def card_foundation_def)
  have n: "\<forall>n. sm_commit_count (plain_message ''git push'') = Some n \<longrightarrow> n < 2 ^ 32"
    by (simp add: plain_message_def)
  have s: "show_card card_io (plain_message ''git push'') =
      \<lparr>cd_open = True, cd_sent = [''m'' @ [CHR 0x0A]], cd_waits = True\<rparr>"
    by (simp add: show_card_def card_io_def)
  have c: "concat [''m'', [CHR 0x0A] @ done_line] =
      concat (cd_sent (card_done True (show_card card_io (plain_message ''git push''))))"
    by (simp add: s card_done_def)
  from card_reaches_the_app [OF card_parses r n refl c] show ?thesis
    by (simp add: s) (simp add: card_io_def)
qed

theorem no_card_left_witness:
  "fold actor_does [FromConn 0 HideCard, FromConn 1 HideCard, DelayEnds] no_panel = no_panel"
proof (rule no_card_left)
  show "\<forall>k. tasks_of k [FromConn 0 HideCard, FromConn 1 HideCard, DelayEnds] = [] \<or>
    tasks_of k [FromConn 0 HideCard, FromConn 1 HideCard, DelayEnds] = posts (serve_ui test_foundation [] [])"
    by (auto simp: tasks_of_def posts_def)
qed

end
