(* ===== verification/App_Panel.thy ===== *)
theory App_Panel
  imports App_Script
begin

text \<open>
  Where the card stands: \<open>app/Sources/KeywardApp/ApprovalPanel.swift\<close> and, in \<open>Approval.swift\<close>, the
  numbers \<open>CardMetrics\<close>, \<open>preferredHeight\<close> and the two columns of \<open>ApprovalView\<close>. The card is laid
  around the system's sheet, which it cannot move: it is put where the sheet was last seen, and
  again where the sheet is found. \<open>CGFloat\<close> is a double. The main display, what the window
  server lists, and how a rectangle is written to and read from the user's defaults are
  parameters.
\<close>

section \<open>Numbers\<close>

text \<open>Division; a zero here has no sign, so a divisor of zero is the positive one.\<close>

fun f64_over :: "f64 \<Rightarrow> f64 \<Rightarrow> f64" where
  "f64_over (Fin a) (Fin b) =
    (if b \<noteq> 0 then mk_f64 (a / b) else if a = 0 then NaN else if 0 < a then PInf else NInf)"
| "f64_over (Fin a) PInf = Fin 0"
| "f64_over (Fin a) NInf = Fin 0"
| "f64_over PInf (Fin b) = (if 0 \<le> b then PInf else NInf)"
| "f64_over NInf (Fin b) = (if 0 \<le> b then NInf else PInf)"
| "f64_over _ _ = NaN"

text \<open>Swift's \<open>max\<close> of two \<open>Comparable\<close>s, and \<open>abs\<close>.\<close>

definition swift_max :: "f64 \<Rightarrow> f64 \<Rightarrow> f64" where
  "swift_max a b = (if a \<le> b then b else a)"

definition swift_abs :: "f64 \<Rightarrow> f64" where
  "swift_abs a = (if a < 0 then 0 - a else a)"

text \<open>Doubles that differ: NaN differs from itself.\<close>

definition f64_ne :: "f64 \<Rightarrow> f64 \<Rightarrow> bool" where
  "f64_ne a b \<longleftrightarrow> \<not> (a \<le> b \<and> b \<le> a)"

text \<open>\<open>Int(ceil(a))\<close>, which traps (\<open>None\<close>) out of the range of \<open>Int\<close>.\<close>

definition int_ceil :: "f64 \<Rightarrow> int option" where
  "int_ceil a =
    (case a of Fin r \<Rightarrow> if - (2 ^ 63) \<le> \<lceil>r\<rceil> \<and> \<lceil>r\<rceil> < 2 ^ 63 then Some \<lceil>r\<rceil> else None | _ \<Rightarrow> None)"

section \<open>Rectangles\<close>

text \<open>A \<open>CGRect\<close>; a negative size counts back from the origin.\<close>

record rect =
  rc_x :: f64
  rc_y :: f64
  rc_w :: f64
  rc_h :: f64

definition rect_width :: "rect \<Rightarrow> f64" where "rect_width r = swift_abs (rc_w r)"

definition rect_height :: "rect \<Rightarrow> f64" where "rect_height r = swift_abs (rc_h r)"

definition min_x :: "rect \<Rightarrow> f64" where "min_x r = (if rc_w r < 0 then rc_x r + rc_w r else rc_x r)"

definition min_y :: "rect \<Rightarrow> f64" where "min_y r = (if rc_h r < 0 then rc_y r + rc_h r else rc_y r)"

definition max_y :: "rect \<Rightarrow> f64" where "max_y r = (if rc_h r < 0 then rc_y r else rc_y r + rc_h r)"

definition mid_x :: "rect \<Rightarrow> f64" where "mid_x r = rc_x r + f64_over (rc_w r) (Fin 2)"

section \<open>What the card measures\<close>

definition card_pad :: f64 where "card_pad = Fin 24"

definition card_gap :: f64 where "card_gap = Fin 20"

definition base_detail :: f64 where "base_detail = Fin 470"

definition wide_detail :: f64 where "wide_detail = Fin 660"

definition detail_width :: "swift \<Rightarrow> pending_signature \<Rightarrow> f64" where
  "detail_width sw ctx =
    (if (case ps_command ctx of None \<Rightarrow> False | Some c \<Rightarrow> is_multiline_command sw c) then wide_detail
     else if is_push ctx then Fin 560 else base_detail)"

text \<open>The lines a line of the script takes, at most three; counts are below \<open>2 ^ 63\<close>.\<close>

definition line_rows :: "swift \<Rightarrow> f64 \<Rightarrow> code_line \<Rightarrow> f64" where
  "line_rows sw per_line l =
    (case int_ceil (f64_over (mk_f64 (of_nat (length (sw_chars sw (cl_text l))))) per_line) of
       None \<Rightarrow> NaN | Some n \<Rightarrow> mk_f64 (of_int (min 3 (max 1 n))))"

definition script_height :: "swift \<Rightarrow> pending_signature \<Rightarrow> string \<Rightarrow> f64" where
  "script_height sw ctx c =
    (let width = detail_width sw ctx - Fin 22;
         per_line = swift_max (Fin 20) (f64_over width (mk_f64 (69 / 10)));
         all_lines = code_lines sw c;
         shown = take SCRIPT_MAX_LINES all_lines;
         visual = foldl (\<lambda>acc l. acc + line_rows sw per_line l) 0 shown
     in Fin 13 + Fin 5 + Fin 22 + visual * Fin 17 +
        (if length shown < length all_lines then Fin 18 else 0) + Fin 11)"

definition commits_height :: "pending_signature \<Rightarrow> string list \<Rightarrow> f64" where
  "commits_height ctx commits =
    (let shown = min (length commits) COMMIT_MAX_LINES
     in Fin 6 + Fin 18 + mk_f64 (of_nat shown) * Fin 17 +
        (if int shown < unwrap_or (ps_commit_count ctx) 0 then Fin 16 else 0))"

definition preferred_height :: "swift \<Rightarrow> pending_signature \<Rightarrow> f64 \<Rightarrow> bool \<Rightarrow> f64" where
  "preferred_height sw ctx sheet_height expanded =
    (let h = Fin 44;
         h = (case ps_command ctx of
                None \<Rightarrow> h | Some c \<Rightarrow> if is_multiline_command sw c then h + script_height sw ctx c else h);
         rows = rows_counted sw ctx;
         h = h + (mk_f64 (of_nat rows) * Fin 34 + mk_f64 (of_nat (rows - 1)) * Fin 19);
         h = (case ps_commits ctx of
                None \<Rightarrow> h | Some commits \<Rightarrow> if expanded \<and> commits \<noteq> [] then h + commits_height ctx commits else h)
     in swift_max sheet_height h)"

section \<open>The panel\<close>

text \<open>The display and the user's defaults.\<close>

record desk =
  dk_screen :: rect
  dk_write :: "rect \<Rightarrow> string"
  dk_read :: "string \<Rightarrow> rect"

definition remembered :: "desk \<Rightarrow> string option \<Rightarrow> rect" where
  "remembered dk saved =
    (let first = \<lparr>rc_x = mid_x (dk_screen dk) - f64_over (Fin 260) (Fin 2), rc_y = Fin 240,
                  rc_w = Fin 260, rc_h = Fin 306\<rparr>
     in case saved of
          None \<Rightarrow> first
        | Some s \<Rightarrow>
            let r = dk_read dk s in if Fin 100 < rect_width r \<and> Fin 100 < rect_height r then r else first)"

definition card_rect :: "swift \<Rightarrow> pending_signature option \<Rightarrow> bool \<Rightarrow> rect \<Rightarrow> rect" where
  "card_rect sw ctx expanded s =
    (let detail = (case ctx of None \<Rightarrow> base_detail | Some c \<Rightarrow> detail_width sw c);
         w = card_pad + detail + card_gap + rect_width s + card_pad;
         content = (case ctx of None \<Rightarrow> rect_height s
                    | Some c \<Rightarrow> preferred_height sw c (rect_height s) expanded);
         h = card_pad * Fin 2 + content;
         x = swift_max (Fin 8) (min_x s - (card_pad + detail + card_gap))
     in \<lparr>rc_x = x, rc_y = min_y s - card_pad, rc_w = w, rc_h = h\<rparr>)"

text \<open>The panel's frame counts up from the bottom of the main display.\<close>

definition panel_frame :: "desk \<Rightarrow> rect \<Rightarrow> rect" where
  "panel_frame dk c = c\<lparr>rc_x := min_x c, rc_y := rect_height (dk_screen dk) - max_y c\<rparr>"

text \<open>
  \<open>ApprovalPanel\<close>'s state: its timers, each with the time it has run and whether it still
  fires, and which of them is \<open>poll\<close>; \<open>cp_frame\<close> is the frame of the \<open>NSPanel\<close>, when there is one.
\<close>

record card_panel =
  cp_ctx :: "pending_signature option"
  cp_sheet :: rect
  cp_expanded :: bool
  cp_frame :: "rect option"
  cp_timers :: "(f64 \<times> bool) list"
  cp_poll :: "nat option"
  cp_saved :: "string option"

definition new_panel :: "desk \<Rightarrow> string option \<Rightarrow> card_panel" where
  "new_panel dk saved =
    \<lparr>cp_ctx = None, cp_sheet = remembered dk saved, cp_expanded = False, cp_frame = None,
     cp_timers = [], cp_poll = None, cp_saved = saved\<rparr>"

definition rebuild :: "desk \<Rightarrow> swift \<Rightarrow> card_panel \<Rightarrow> card_panel" where
  "rebuild dk sw p =
    (case cp_ctx p of
       None \<Rightarrow> p
     | Some c \<Rightarrow> p\<lparr>cp_frame := Some (panel_frame dk (card_rect sw (cp_ctx p) (cp_expanded p) (cp_sheet p)))\<rparr>)"

definition invalidate :: "nat option \<Rightarrow> card_panel \<Rightarrow> card_panel" where
  "invalidate timer p =
    (case timer of
       None \<Rightarrow> p
     | Some k \<Rightarrow>
         if k < length (cp_timers p)
         then p\<lparr>cp_timers := (cp_timers p)[k := (fst (cp_timers p ! k), False)]\<rparr> else p)"

definition start_polling :: "card_panel \<Rightarrow> card_panel" where
  "start_polling p =
    (let p = invalidate (cp_poll p) p
     in p\<lparr>cp_timers := cp_timers p @ [(0, True)], cp_poll := Some (length (cp_timers p))\<rparr>)"

text \<open>The delay of \<open>show\<close> is over (\<open>panel_fires\<close>): the card comes up.\<close>

definition show_fires :: "desk \<Rightarrow> swift \<Rightarrow> pending_signature \<Rightarrow> card_panel \<Rightarrow> card_panel" where
  "show_fires dk sw c p =
    start_polling (rebuild dk sw
      (p\<lparr>cp_ctx := Some c, cp_expanded := False, cp_sheet := remembered dk (cp_saved p)\<rparr>))"

definition hide_panel :: "card_panel \<Rightarrow> card_panel" where
  "hide_panel p = (invalidate (cp_poll p) p)\<lparr>cp_poll := None, cp_frame := None, cp_ctx := None\<rparr>"

text \<open>A window as the window server lists it; what is not there or not of its type is \<open>None\<close>.\<close>

record window =
  wn_owner :: "string option"
  wn_bounds :: "(f64 option \<times> f64 option \<times> f64 option \<times> f64 option) option"

definition sheet_owner :: "swift \<Rightarrow> window \<Rightarrow> bool" where
  "sheet_owner sw w \<longleftrightarrow>
    (let owner = sw_lower sw (unwrap_or (wn_owner w) [])
     in contains owner ''coreauth'' \<or> contains owner ''securityagent'' \<or> contains owner ''localauthentication'')"

fun first_sheet :: "swift \<Rightarrow> window list \<Rightarrow> rect option" where
  "first_sheet sw [] = None"
| "first_sheet sw (w # ws) =
    (if \<not> sheet_owner sw w then first_sheet sw ws
     else case wn_bounds w of
            None \<Rightarrow> first_sheet sw ws
          | Some (x, y, wd, ht) \<Rightarrow>
              let r = \<lparr>rc_x = unwrap_or x 0, rc_y = unwrap_or y 0, rc_w = unwrap_or wd 0, rc_h = unwrap_or ht 0\<rparr>
              in if Fin 150 < rect_width r \<and> Fin 150 < rect_height r then Some r else first_sheet sw ws)"

definition auth_sheet_rect :: "swift \<Rightarrow> window list option \<Rightarrow> rect option" where
  "auth_sheet_rect sw ws = (case ws of None \<Rightarrow> None | Some ws \<Rightarrow> first_sheet sw ws)"

text \<open>The sheet is where the panel does not have it: further than a point off, or of another size.\<close>

definition sheet_moved :: "rect \<Rightarrow> rect \<Rightarrow> bool" where
  "sheet_moved found s \<longleftrightarrow>
    Fin 1 < swift_abs (min_x found - min_x s) \<or> Fin 1 < swift_abs (min_y found - min_y s) \<or>
    f64_ne (rc_w found) (rc_w s) \<or> f64_ne (rc_h found) (rc_h s)"

definition sees :: "desk \<Rightarrow> swift \<Rightarrow> rect \<Rightarrow> card_panel \<Rightarrow> card_panel" where
  "sees dk sw found p =
    (if sheet_moved found (cp_sheet p)
     then rebuild dk sw (p\<lparr>cp_sheet := found, cp_saved := Some (dk_write dk found)\<rparr>) else p)"

text \<open>A timer's task; one that was queued before its timer was stopped still runs.\<close>

definition poll_tick :: "desk \<Rightarrow> swift \<Rightarrow> nat \<Rightarrow> window list option \<Rightarrow> card_panel \<Rightarrow> card_panel" where
  "poll_tick dk sw k ws p =
    (if cp_frame p = None then invalidate (Some k) p
     else
       let elapsed = fst (cp_timers p ! k) + mk_f64 (1 / 20);
           p = p\<lparr>cp_timers := (cp_timers p)[k := (elapsed, snd (cp_timers p ! k))]\<rparr>
       in case auth_sheet_rect sw ws of
            Some found \<Rightarrow> invalidate (Some k) (sees dk sw found p)
          | None \<Rightarrow> if Fin 3 < elapsed then invalidate (Some k) p else p)"

datatype panel_op = Fires pending_signature | Hides | Toggles | Ticks nat "window list option"

fun panel_does :: "desk \<Rightarrow> swift \<Rightarrow> panel_op \<Rightarrow> card_panel \<Rightarrow> card_panel" where
  "panel_does dk sw (Fires c) p = show_fires dk sw c p"
| "panel_does dk sw Hides p = hide_panel p"
| "panel_does dk sw Toggles p = rebuild dk sw (p\<lparr>cp_expanded := \<not> cp_expanded p\<rparr>)"
| "panel_does dk sw (Ticks k ws) p = (if k < length (cp_timers p) then poll_tick dk sw k ws p else p)"

section \<open>The slot\<close>

text \<open>
  Where \<open>ApprovalView\<close> leaves room, counted from the top of the display: past the padding, the
  details and the gap, at the top of the card, with the size of the sheet.
\<close>

definition slot :: "desk \<Rightarrow> swift \<Rightarrow> pending_signature \<Rightarrow> rect \<Rightarrow> rect \<Rightarrow> rect" where
  "slot dk sw ctx sheet fr =
    \<lparr>rc_x = rc_x fr + (card_pad + detail_width sw ctx + card_gap),
     rc_y = rect_height (dk_screen dk) - (rc_y fr + rc_h fr) + card_pad,
     rc_w = rect_width sheet, rc_h = rect_height sheet\<rparr>"

text \<open>The panel is where its card, its sheet and its fold say, whatever comes in whatever order.\<close>

definition panel_ok :: "desk \<Rightarrow> swift \<Rightarrow> card_panel \<Rightarrow> bool" where
  "panel_ok dk sw p \<longleftrightarrow>
    (cp_frame p \<noteq> None \<longrightarrow> cp_ctx p \<noteq> None \<and>
      cp_frame p = Some (panel_frame dk (card_rect sw (cp_ctx p) (cp_expanded p) (cp_sheet p))))"

lemma invalidate_keeps [simp]:
  "cp_ctx (invalidate k p) = cp_ctx p" "cp_sheet (invalidate k p) = cp_sheet p"
  "cp_expanded (invalidate k p) = cp_expanded p" "cp_frame (invalidate k p) = cp_frame p"
  "cp_saved (invalidate k p) = cp_saved p"
  by (simp_all add: invalidate_def split: option.split)

lemma panel_ok_rebuild: "cp_frame p = None \<or> cp_ctx p \<noteq> None \<Longrightarrow> panel_ok dk sw (rebuild dk sw p)"
  by (auto simp: rebuild_def panel_ok_def split: option.splits)

lemma panel_ok_invalidate [simp]: "panel_ok dk sw (invalidate k p) = panel_ok dk sw p"
  by (simp add: panel_ok_def)

lemma panel_ok_sees: "panel_ok dk sw p \<Longrightarrow> panel_ok dk sw (sees dk sw found p)"
proof -
  assume ok: "panel_ok dk sw p"
  then have "cp_frame p = None \<or> cp_ctx p \<noteq> None" by (auto simp: panel_ok_def)
  with ok show ?thesis by (simp add: sees_def panel_ok_rebuild)
qed

lemma panel_does_ok:
  assumes "panel_ok dk sw p"
  shows "panel_ok dk sw (panel_does dk sw a p)"
proof (cases a)
  case (Fires c)
  have "panel_ok dk sw (start_polling q) = panel_ok dk sw q" for q
    by (simp add: start_polling_def Let_def panel_ok_def)
  then show ?thesis by (simp add: Fires show_fires_def panel_ok_rebuild)
next
  case Hides
  then show ?thesis by (simp add: hide_panel_def panel_ok_def)
next
  case Toggles
  have "cp_frame p = None \<or> cp_ctx p \<noteq> None" using assms by (auto simp: panel_ok_def)
  then show ?thesis by (simp add: Toggles panel_ok_rebuild)
next
  case (Ticks k ws)
  define q where "q = p\<lparr>cp_timers := (cp_timers p)[k := (fst (cp_timers p ! k) + mk_f64 (1 / 20), snd (cp_timers p ! k))]\<rparr>"
  have "panel_ok dk sw q" using assms by (simp add: q_def panel_ok_def)
  then show ?thesis using assms
    by (simp add: Ticks poll_tick_def Let_def q_def [symmetric] panel_ok_sees split: option.split)
qed

lemma panel_run_ok: "panel_ok dk sw p \<Longrightarrow> panel_ok dk sw (fold (panel_does dk sw) ops p)"
  by (induction ops arbitrary: p) (simp_all add: panel_does_ok)

section \<open>Whole points\<close>

text \<open>A whole number of points, of at most \<open>b\<close>: sums and products of these are exact.\<close>

definition whole :: "int \<Rightarrow> f64 \<Rightarrow> bool" where
  "whole b a \<longleftrightarrow> (\<exists>m. a = Fin (of_int m) \<and> \<bar>m\<bar> \<le> b)"

lemma whole_numeral: "(numeral n :: int) \<le> b \<Longrightarrow> whole b (Fin (numeral n))"
  unfolding whole_def by (rule exI [of _ "numeral n"]) simp

lemma whole_zero: "0 \<le> b \<Longrightarrow> whole b 0"
  unfolding whole_def zero_f64_def by (rule exI [of _ 0]) simp

lemma whole_of_int: "\<bar>m\<bar> \<le> b \<Longrightarrow> b \<le> 2 ^ 53 \<Longrightarrow> whole b (mk_f64 (of_int m))"
  unfolding whole_def by (rule exI [of _ m]) simp

lemma whole_of_nat: "int n \<le> b \<Longrightarrow> b \<le> 2 ^ 53 \<Longrightarrow> whole b (mk_f64 (of_nat n))"
  using whole_of_int [of "int n" b] by simp

lemma whole_mono: "whole b a \<Longrightarrow> b \<le> c \<Longrightarrow> whole c a"
  unfolding whole_def by (blast intro: order_trans)

lemma whole_plus:
  assumes "whole b x" "whole c y" "b + c \<le> d" "d \<le> 2 ^ 53"
  shows "whole d (x + y)"
proof -
  from assms obtain m n where "x = Fin (of_int m)" "y = Fin (of_int n)" "\<bar>m\<bar> \<le> b" "\<bar>n\<bar> \<le> c"
    by (auto simp: whole_def)
  then show ?thesis using whole_of_int [of "m + n" d] assms(3,4) by simp
qed

lemma whole_times:
  assumes "whole b x" "whole c y" "b * c \<le> d" "d \<le> 2 ^ 53"
  shows "whole d (x * y)"
proof -
  from assms obtain m n where m: "x = Fin (of_int m)" "y = Fin (of_int n)" "\<bar>m\<bar> \<le> b" "\<bar>n\<bar> \<le> c"
    by (auto simp: whole_def)
  then have "\<bar>m * n\<bar> \<le> b * c" by (simp add: abs_mult mult_mono)
  then show ?thesis using whole_of_int [of "m * n" d] assms(3,4) m by simp
qed

lemma whole_max: "whole b x \<Longrightarrow> whole b y \<Longrightarrow> whole b (swift_max x y)"
  by (simp add: swift_max_def)

section \<open>The height of the card\<close>

text \<open>What fits in the message of a card by far: lines of fewer than \<open>2 ^ 53\<close> \<open>Character\<close>s.\<close>

definition lines_fit :: "swift \<Rightarrow> pending_signature \<Rightarrow> bool" where
  "lines_fit sw ctx \<longleftrightarrow>
    (\<forall>c. ps_command ctx = Some c \<longrightarrow>
      list_all (\<lambda>l. length (sw_chars sw (cl_text l)) < 2 ^ 53) (code_lines sw c))"

lemma mk_f64_between:
  assumes "of_int v \<le> q" "q \<le> of_int w" "\<bar>v\<bar> \<le> 2 ^ 53" "\<bar>w\<bar> \<le> 2 ^ 53"
  obtains r where "mk_f64 q = Fin r" "of_int v \<le> r" "r \<le> of_int w"
proof -
  have "Fin (of_int v) \<le> mk_f64 q" "mk_f64 q \<le> Fin (of_int w)"
    using mk_f64_mono [OF assms(1)] mk_f64_mono [OF assms(2)] mk_f64_of_int [OF assms(3)] mk_f64_of_int [OF assms(4)]
    by simp_all
  then show thesis using that by (cases "mk_f64 q") simp_all
qed

lemma over_bounded:
  assumes "0 \<le> a" "a \<le> of_int w" "1 \<le> b" "\<bar>w\<bar> \<le> 2 ^ 53"
  obtains r where "f64_over (Fin a) (Fin b) = Fin r" "0 \<le> r" "r \<le> of_int w"
proof -
  have "a / b \<le> a / 1" using assms by (intro divide_left_mono) simp_all
  with assms have "of_int 0 \<le> a / b" "a / b \<le> of_int w" by simp_all
  from mk_f64_between [OF this] assms that show thesis by auto
qed

lemma detail_widths: "detail_width sw ctx \<in> {Fin 470, Fin 560, Fin 660}"
  by (simp add: detail_width_def wide_detail_def base_detail_def)

text \<open>At least twenty \<open>Character\<close>s to a line.\<close>

lemma per_line_bounded:
  obtains r where
    "swift_max (Fin 20) (f64_over (detail_width sw ctx - Fin 22) (mk_f64 (69 / 10))) = Fin r" "20 \<le> r"
proof -
  obtain d where d: "mk_f64 (69 / 10) = Fin d" "6 \<le> d"
    using mk_f64_between [of 6 "69 / 10" 7] by auto
  obtain w where w: "detail_width sw ctx - Fin 22 = Fin w" "0 \<le> w" "w \<le> of_int 638"
    using detail_widths [of sw ctx] by auto
  obtain x where x: "f64_over (Fin w) (Fin d) = Fin x" using over_bounded [of w 638 d] w d by auto
  have "swift_max (Fin 20) (f64_over (detail_width sw ctx - Fin 22) (mk_f64 (69 / 10))) = Fin (max 20 x)"
    unfolding w(1) d(1) x by (simp add: swift_max_def)
  with that show thesis by simp
qed

lemma line_rows_whole:
  assumes "20 \<le> d" "length (sw_chars sw (cl_text l)) < 2 ^ 53"
  shows "whole 3 (line_rows sw (Fin d) l)"
proof -
  let ?n = "length (sw_chars sw (cl_text l))"
  have "int ?n < int (2 ^ 53)" using assms(2) by (simp only: of_nat_less_iff)
  then have n: "int ?n \<le> 2 ^ 53" by simp
  then have f: "mk_f64 (of_nat ?n) = Fin (of_int (int ?n))" using mk_f64_of_int [of "int ?n"] by simp
  obtain r where r: "f64_over (Fin (of_int (int ?n))) (Fin d) = Fin r" "0 \<le> r" "r \<le> of_int (2 ^ 53)"
    by (rule over_bounded [of "of_int (int ?n)" "2 ^ 53" d]) (use n assms(1) in \<open>simp_all\<close>)
  have "- 9223372036854775809 < r" "r \<le> 9223372036854775807" using r(2,3) by simp_all
  then have "int_ceil (Fin r) = Some \<lceil>r\<rceil>" by (simp add: int_ceil_def)
  then show ?thesis
    unfolding line_rows_def f r(1) using whole_of_int [of "min 3 (max 1 \<lceil>r\<rceil>)" 3] by (simp del: of_int_min of_int_max)
qed

lemma visual_whole:
  assumes "20 \<le> d" "list_all (\<lambda>l. length (sw_chars sw (cl_text l)) < 2 ^ 53) ls" "whole b acc"
    and "b + 3 * int (length ls) \<le> 2 ^ 53"
  shows "whole (b + 3 * int (length ls)) (foldl (\<lambda>acc l. acc + line_rows sw (Fin d) l) acc ls)"
  using assms(2-4)
proof (induction ls arbitrary: b acc)
  case (Cons l ls)
  have "whole (b + 3) (acc + line_rows sw (Fin d) l)"
    by (rule whole_plus [OF Cons.prems(2) line_rows_whole [OF assms(1)]]) (use Cons.prems in simp_all)
  from Cons.IH [OF _ this] Cons.prems show ?case by (simp add: algebra_simps)
qed simp

lemma script_height_whole:
  assumes "list_all (\<lambda>l. length (sw_chars sw (cl_text l)) < 2 ^ 53) (code_lines sw c)"
  shows "whole 579 (script_height sw ctx c)"
proof -
  obtain d where d: "swift_max (Fin 20) (f64_over (detail_width sw ctx - Fin 22) (mk_f64 (69 / 10))) = Fin d"
    "20 \<le> d" by (rule per_line_bounded)
  let ?shown = "take SCRIPT_MAX_LINES (code_lines sw c)"
  have n: "int (length ?shown) \<le> 10" by (simp add: SCRIPT_MAX_LINES_def)
  have "list_all (\<lambda>l. length (sw_chars sw (cl_text l)) < 2 ^ 53) ?shown"
    using assms by (auto simp: list_all_iff dest: in_set_takeD)
  from visual_whole [OF d(2) this, of 0 0] n
  have "whole 30 (foldl (\<lambda>acc l. acc + line_rows sw (Fin d) l) 0 ?shown)"
    by (auto intro: whole_mono simp: whole_zero)
  then have v: "whole 510 (foldl (\<lambda>acc l. acc + line_rows sw (Fin d) l) 0 ?shown * Fin 17)"
    by (rule whole_times [where c = 17]) (simp_all add: whole_numeral)
  have "whole 40 (Fin 13 + Fin 5 + Fin 22)" using whole_numeral [of "num.Bit0 (num.Bit0 (num.Bit0 (num.Bit1 (num.Bit0 num.One))))" 40] by simp
  from whole_plus [OF this v, of 550] have a: "whole 550 (Fin 13 + Fin 5 + Fin 22 +
      foldl (\<lambda>acc l. acc + line_rows sw (Fin d) l) 0 ?shown * Fin 17)" by simp
  have "whole 18 (if length ?shown < length (code_lines sw c) then Fin 18 else 0)"
    by (simp add: whole_numeral whole_zero)
  from whole_plus [OF a this, of 568] have "whole 568 (Fin 13 + Fin 5 + Fin 22 +
      foldl (\<lambda>acc l. acc + line_rows sw (Fin d) l) 0 ?shown * Fin 17 +
      (if length ?shown < length (code_lines sw c) then Fin 18 else 0))" by simp
  from whole_plus [OF this whole_numeral [of "num.Bit1 (num.Bit1 (num.Bit0 num.One))" 11], of 579]
  show ?thesis unfolding script_height_def Let_def d(1) by simp
qed

lemma commits_height_whole: "whole 244 (commits_height ctx commits)"
proof -
  let ?n = "min (length commits) COMMIT_MAX_LINES"
  have "whole 12 (mk_f64 (of_nat ?n))" by (rule whole_of_nat) (simp_all add: COMMIT_MAX_LINES_def)
  then have n: "whole 204 (mk_f64 (of_nat ?n) * Fin 17)"
    by (rule whole_times [where c = 17]) (simp_all add: whole_numeral)
  have "whole 24 (Fin 6 + Fin 18)" by (rule whole_plus [OF whole_numeral whole_numeral, of _ 6 _ 18]) simp_all
  from whole_plus [OF this n, of 228] have "whole 228 (Fin 6 + Fin 18 + mk_f64 (of_nat ?n) * Fin 17)" by simp
  moreover have "whole 16 (if int ?n < unwrap_or (ps_commit_count ctx) 0 then Fin 16 else 0)"
    by (simp add: whole_numeral whole_zero)
  ultimately show ?thesis unfolding commits_height_def Let_def by (rule whole_plus) simp_all
qed

lemma rows_height_whole: "whole 405 (mk_f64 (of_nat (rows_counted sw ctx)) * Fin 34 +
    mk_f64 (of_nat (rows_counted sw ctx - 1)) * Fin 19)"
proof -
  have n: "rows_counted sw ctx \<le> 8" by (simp add: rows_counted_def split: option.split)
  have "whole 272 (mk_f64 (of_nat (rows_counted sw ctx)) * Fin 34)"
    by (rule whole_times [OF whole_of_nat [of _ 8] whole_numeral [of _ 34]]) (use n in simp_all)
  moreover have "whole 133 (mk_f64 (of_nat (rows_counted sw ctx - 1)) * Fin 19)"
    by (rule whole_times [OF whole_of_nat [of _ 7] whole_numeral [of _ 19]]) (use n in simp_all)
  ultimately show ?thesis by (rule whole_plus) simp_all
qed

lemma preferred_height_whole:
  assumes "lines_fit sw ctx" "whole b sheet_height" "1272 \<le> b"
  shows "whole b (preferred_height sw ctx sheet_height expanded)"
proof -
  define h1 where "h1 = (case ps_command ctx of
    None \<Rightarrow> Fin 44 | Some c \<Rightarrow> if is_multiline_command sw c then Fin 44 + script_height sw ctx c else Fin 44)"
  have s: "whole 623 (Fin 44 + script_height sw ctx c)" if "ps_command ctx = Some c" for c
    by (rule whole_plus [OF whole_numeral script_height_whole, of _ 44]) (use assms(1) that in \<open>simp_all add: lines_fit_def\<close>)
  have h1: "whole 623 h1"
    using s by (auto simp: h1_def whole_numeral split: option.split)
  let ?h2 = "h1 + (mk_f64 (of_nat (rows_counted sw ctx)) * Fin 34 + mk_f64 (of_nat (rows_counted sw ctx - 1)) * Fin 19)"
  have h2: "whole 1028 ?h2" by (rule whole_plus [OF h1 rows_height_whole]) simp_all
  have h3: "whole 1272 (?h2 + commits_height ctx commits)" for commits
    by (rule whole_plus [OF h2 commits_height_whole]) simp_all
  define h4 where "h4 = (case ps_commits ctx of
    None \<Rightarrow> ?h2 | Some commits \<Rightarrow> if expanded \<and> commits \<noteq> [] then ?h2 + commits_height ctx commits else ?h2)"
  have "whole b h4"
    unfolding h4_def using h2 h3 assms(3) by (auto intro: whole_mono split: option.split)
  moreover have "preferred_height sw ctx sheet_height expanded = swift_max sheet_height h4"
    unfolding preferred_height_def h4_def h1_def Let_def ..
  ultimately show ?thesis using whole_max [OF assms(2)] by simp
qed

section \<open>The sheet and its slot\<close>

definition points :: "int \<Rightarrow> f64" where "points m = Fin (of_int m)"

lemma points_arith:
  "\<bar>m + n\<bar> \<le> 2 ^ 53 \<Longrightarrow> points m + points n = points (m + n)"
  "\<bar>m - n\<bar> \<le> 2 ^ 53 \<Longrightarrow> points m - points n = points (m - n)"
  "\<bar>m * n\<bar> \<le> 2 ^ 53 \<Longrightarrow> points m * points n = points (m * n)"
  using mk_f64_of_int [of "m + n"] mk_f64_of_int [of "m - n"] mk_f64_of_int [of "m * n"]
  by (simp_all add: points_def)

lemma points_order [simp]:
  "points m \<le> points n \<longleftrightarrow> m \<le> n" "points m < points n \<longleftrightarrow> m < n" "points m = points n \<longleftrightarrow> m = n"
  "points m < 0 \<longleftrightarrow> m < 0"
  by (simp_all add: points_def zero_f64_def)

lemma swift_max_points [simp]: "swift_max (points m) (points n) = points (max m n)"
  by (simp add: swift_max_def max_def)

lemma swift_abs_points: "\<bar>m\<bar> \<le> 2 ^ 53 \<Longrightarrow> swift_abs (points m) = points \<bar>m\<bar>"
  using points_arith(2) [of 0 m] by (auto simp: swift_abs_def zero_f64_def points_def)

lemma card_points:
  "card_pad = points 24" "card_gap = points 20" "Fin 8 = points 8" "Fin 2 = points 2" "Fin 1 = points 1"
  by (simp_all add: card_pad_def card_gap_def points_def)

text \<open>A rectangle of whole points on a display of any size there is.\<close>

definition on_points :: "rect \<Rightarrow> int \<Rightarrow> int \<Rightarrow> int \<Rightarrow> int \<Rightarrow> bool" where
  "on_points r x y w h \<longleftrightarrow>
    r = \<lparr>rc_x = points x, rc_y = points y, rc_w = points w, rc_h = points h\<rparr> \<and>
    \<bar>x\<bar> \<le> 2 ^ 40 \<and> \<bar>y\<bar> \<le> 2 ^ 40 \<and> 0 < w \<and> w \<le> 2 ^ 40 \<and> 0 < h \<and> h \<le> 2 ^ 40"

lemma on_points_parts:
  assumes "on_points r x y w h"
  shows "min_x r = points x" "min_y r = points y" "rect_width r = points w" "rect_height r = points h"
  using assms by (simp_all add: on_points_def min_x_def min_y_def rect_width_def rect_height_def swift_abs_def)

lemma detail_points: obtains d where "detail_width sw ctx = points d" "d \<in> {470, 560, 660}"
  using detail_widths [of sw ctx] that [of 470] that [of 560] that [of 660] by (auto simp: points_def)

lemma preferred_height_max: "preferred_height sw c (points h) expanded = points ph \<Longrightarrow> h \<le> ph"
proof -
  have "swift_max (points h) a = points ph \<Longrightarrow> h \<le> ph" for a
    by (auto simp: swift_max_def split: if_splits)
  moreover assume "preferred_height sw c (points h) expanded = points ph"
  ultimately show ?thesis unfolding preferred_height_def Let_def by blast
qed

text \<open>The slot is at the sheet's height and, where the card has the room, on the sheet.\<close>

lemma slot_on_sheet:
  assumes s: "on_points s x y w h" and "lines_fit sw c" and screen: "rect_height (dk_screen dk) = points tall" "\<bar>tall\<bar> \<le> 2 ^ 40"
    and d: "detail_width sw c = points d" "d \<in> {470, 560, 660}"
  shows "slot dk sw c s (panel_frame dk (card_rect sw (Some c) expanded s)) =
    \<lparr>rc_x = points (max x (d + 52)), rc_y = points y, rc_w = points w, rc_h = points h\<rparr>"
proof -
  note parts = on_points_parts [OF s]
  have b: "- 1099511627776 \<le> x" "x \<le> 1099511627776" "- 1099511627776 \<le> y" "y \<le> 1099511627776"
      "0 < w" "w \<le> 1099511627776" "0 < h" "h \<le> 1099511627776" "470 \<le> d" "d \<le> 660"
      "- 1099511627776 \<le> tall" "tall \<le> 1099511627776"
    using s d(2) screen(2) by (auto simp: on_points_def)
  have "whole (2 ^ 40) (rect_height s)" using b by (auto simp: parts whole_def points_def)
  from preferred_height_whole [OF assms(2) this] obtain ph where
    ph: "preferred_height sw c (rect_height s) expanded = points ph" "\<bar>ph\<bar> \<le> 2 ^ 40"
    by (auto simp: whole_def points_def)
  then have "h \<le> ph" using preferred_height_max [of sw c h expanded ph] by (simp add: parts)
  then have "0 < ph" using b by simp
  have r: "card_rect sw (Some c) expanded s = \<lparr>rc_x = points (max 8 (x - (44 + d))), rc_y = points (y - 24),
      rc_w = points (68 + d + w), rc_h = points (48 + ph)\<rparr>"
    using b ph by (simp add: card_rect_def Let_def d(1) card_points parts points_arith algebra_simps)
  have "panel_frame dk (card_rect sw (Some c) expanded s) =
      \<lparr>rc_x = points (max 8 (x - (44 + d))), rc_y = points (tall - (y + 24 + ph)),
       rc_w = points (68 + d + w), rc_h = points (48 + ph)\<rparr>"
    using b ph \<open>0 < ph\<close> unfolding r by (simp add: panel_frame_def min_x_def max_y_def screen(1) points_arith algebra_simps)
  then show ?thesis
    using b ph \<open>0 < ph\<close>
    by (simp add: slot_def parts screen(1) d(1) card_points points_arith algebra_simps)
qed

text \<open>What a tick that sees the sheet makes of the panel.\<close>

lemma tick_sees:
  assumes "cp_frame p \<noteq> None" "k < length (cp_timers p)" "auth_sheet_rect sw ws = Some found"
  shows "cp_sheet (panel_does dk sw (Ticks k ws) p) = (if sheet_moved found (cp_sheet p) then found else cp_sheet p)"
    "cp_ctx (panel_does dk sw (Ticks k ws) p) = cp_ctx p"
    "cp_frame (panel_does dk sw (Ticks k ws) p) \<noteq> None"
  using assms by (auto simp: poll_tick_def sees_def rebuild_def Let_def split: option.split)

lemma not_moved:
  assumes "on_points found x y w h" "on_points s x0 y0 w0 h0" "\<not> sheet_moved found s"
  shows "\<bar>x - x0\<bar> \<le> 1" "\<bar>y - y0\<bar> \<le> 1" "w0 = w" "h0 = h"
proof -
  have b: "\<bar>x - x0\<bar> \<le> 2 ^ 53" "\<bar>y - y0\<bar> \<le> 2 ^ 53" using assms(1,2) by (auto simp: on_points_def)
  note parts = on_points_parts [OF assms(1)] on_points_parts [OF assms(2)]
  have sz: "rc_w found = points w" "rc_h found = points h" "rc_w s = points w0" "rc_h s = points h0"
    using assms(1,2) by (simp_all add: on_points_def)
  show "\<bar>x - x0\<bar> \<le> 1" "\<bar>y - y0\<bar> \<le> 1" "w0 = w" "h0 = h"
    using assms(3) b
    by (simp_all add: sheet_moved_def parts sz card_points points_arith(2) swift_abs_points f64_ne_def)
qed

text \<open>
  Whatever cards came and went, were folded and unfolded before, once a tick of a timer has
  found the system's sheet the card that is up leaves its slot for it: of the sheet's size, within
  a point of its top, and within a point of its left edge where the display leaves the card's
  details room to the left of it, 522, 612 or 712 points; with less room the slot is that far
  from the display's edge, to the right of the sheet.
\<close>

lemma sheet_lands_in_slot:
  assumes "p = fold (panel_does dk sw) ops (new_panel dk saved)" and "cp_frame p \<noteq> None"
    and "k < length (cp_timers p)" and "auth_sheet_rect sw ws = Some found"
    and "on_points found x y w h" and "on_points (cp_sheet p) x0 y0 w0 h0"
    and "rect_height (dk_screen dk) = points tall" and "\<bar>tall\<bar> \<le> 2 ^ 40"
    and "\<forall>c. cp_ctx p = Some c \<longrightarrow> lines_fit sw c"
  shows "\<exists>c fr d sx sy. cp_ctx (panel_does dk sw (Ticks k ws) p) = Some c \<and>
    cp_frame (panel_does dk sw (Ticks k ws) p) = Some fr \<and>
    detail_width sw c = points d \<and> d \<in> {470, 560, 660} \<and>
    slot dk sw c (cp_sheet (panel_does dk sw (Ticks k ws) p)) fr =
      \<lparr>rc_x = points sx, rc_y = points sy, rc_w = rc_w found, rc_h = rc_h found\<rparr> \<and>
    \<bar>sx - max x (d + 52)\<bar> \<le> 1 \<and> \<bar>sy - y\<bar> \<le> 1"
proof -
  let ?q = "panel_does dk sw (Ticks k ws) p"
  have "panel_ok dk sw p" using panel_run_ok [of dk sw "new_panel dk saved" ops]
    by (simp add: assms(1) panel_ok_def new_panel_def)
  then have "panel_ok dk sw ?q" by (rule panel_does_ok)
  with tick_sees(3) [OF assms(2-4), of dk] obtain c where c: "cp_ctx ?q = Some c"
    "cp_frame ?q = Some (panel_frame dk (card_rect sw (Some c) (cp_expanded ?q) (cp_sheet ?q)))"
    unfolding panel_ok_def by fastforce
  have fit: "lines_fit sw c" using assms(9) c(1) tick_sees(2) [OF assms(2-4)] by simp
  obtain d where d: "detail_width sw c = points d" "d \<in> {470, 560, 660}" by (rule detail_points)
  define s where "s = cp_sheet ?q"
  obtain x1 y1 where s: "on_points s x1 y1 w h" "\<bar>x - x1\<bar> \<le> 1" "\<bar>y - y1\<bar> \<le> 1"
  proof (cases "sheet_moved found (cp_sheet p)")
    case True
    with tick_sees(1) [OF assms(2-4)] assms(5) that [of x y] show thesis by (simp add: s_def)
  next
    case False
    with tick_sees(1) [OF assms(2-4)] assms(6) not_moved [OF assms(5,6) False] that [of x0 y0]
    show thesis by (simp add: s_def)
  qed
  have size: "rc_w found = points w" "rc_h found = points h" using assms(5) by (simp_all add: on_points_def)
  have x1: "\<bar>max x1 (d + 52) - max x (d + 52)\<bar> \<le> 1" using s(2) by linarith
  have y1: "\<bar>y1 - y\<bar> \<le> 1" using s(3) by simp
  note slot = slot_on_sheet [OF s(1) fit assms(7,8) d, of "cp_expanded ?q", folded size, unfolded s_def]
  show ?thesis
    by (intro exI conjI) (rule c(1), rule c(2), rule d(1), rule d(2), rule slot, rule x1, rule y1)
qed

section \<open>A display of 1440 points\<close>

text \<open>The sheet where the app takes it to be at first, and the card of a script beside it.\<close>

definition laptop :: desk where
  "laptop = \<lparr>dk_screen = \<lparr>rc_x = 0, rc_y = 0, rc_w = Fin 1440, rc_h = Fin 900\<rparr>,
    dk_write = (\<lambda>_. []), dk_read = (\<lambda>_. \<lparr>rc_x = 0, rc_y = 0, rc_w = 0, rc_h = 0\<rparr>)\<rparr>"

lemma laptop_sheet: "on_points (remembered laptop None) 590 240 260 306"
  by (simp add: on_points_def remembered_def laptop_def mid_x_def points_def zero_f64_def)

lemma laptop_height: "rect_height (dk_screen laptop) = points 900"
  by (simp add: rect_height_def swift_abs_def laptop_def zero_f64_def points_def)

lemma script_card_fits: "lines_fit test_swift script_card" "detail_width test_swift script_card = points 660"
proof -
  have c: "ps_command script_card = Some heading_script" by (simp add: script_card_def)
  have "length (utf8_chars ''# $(curl evil)'') = 14" "length (utf8_chars ''make'') = 4"
    by code_simp+
  then have "length (sw_chars test_swift ''# $(curl evil)'') = 14" "length (sw_chars test_swift ''make'') = 4"
    by (simp_all add: test_swift_def)
  then show "lines_fit test_swift script_card"
    by (simp add: lines_fit_def c heading_hides_substitution)
  show "detail_width test_swift script_card = points 660"
    using heading_pieces by (simp add: detail_width_def c wide_detail_def points_def)
qed

text \<open>
  There the card cannot go far enough to the left: the slot is 122 points to the right of the
  sheet, which covers the last 102 points of the details.
\<close>

lemma script_card_is_covered:
  assumes "p = panel_does laptop test_swift (Fires script_card) (new_panel laptop None)"
  shows "\<exists>fr. cp_frame p = Some fr \<and> rc_x (slot laptop test_swift script_card (cp_sheet p) fr) = points 712 \<and>
    rc_x (cp_sheet p) = points 590 \<and> rc_x fr + card_pad + detail_width test_swift script_card = points 692"
proof -
  let ?s = "remembered laptop None" and ?r = "card_rect test_swift (Some script_card) False (remembered laptop None)"
  have p: "cp_frame p = Some (panel_frame laptop ?r)" "cp_sheet p = ?s"
    by (simp_all add: assms show_fires_def start_polling_def rebuild_def new_panel_def Let_def)
  have x: "min_x ?s = points 590" "rect_width ?s = points 260" using on_points_parts [OF laptop_sheet] by simp_all
  have "rc_x ?r = points 8" "rc_w ?r = points 988"
    by (simp_all add: card_rect_def Let_def script_card_fits(2) card_points x points_arith)
  then have "rc_x (panel_frame laptop ?r) = points 8" by (simp add: panel_frame_def min_x_def)
  moreover have "rc_x ?s = points 590" using laptop_sheet by (simp add: on_points_def)
  ultimately show ?thesis
    using slot_on_sheet [OF laptop_sheet script_card_fits(1) laptop_height _ script_card_fits(2), of False]
    by (simp add: p card_points script_card_fits(2) points_arith)
qed

text \<open>A card is up; the sheet is found further to the right.\<close>

theorem sheet_lands_in_slot_witness:
  "\<exists>p k ws found. auth_sheet_rect test_swift ws = Some found \<and> rc_x found = points 800 \<and>
    (\<exists>c fr sx sy. cp_frame (panel_does laptop test_swift (Ticks k ws) p) = Some fr \<and>
      slot laptop test_swift c (cp_sheet (panel_does laptop test_swift (Ticks k ws) p)) fr =
        \<lparr>rc_x = points sx, rc_y = points sy, rc_w = points 260, rc_h = points 306\<rparr> \<and>
      \<bar>sx - 800\<bar> \<le> 1 \<and> \<bar>sy - 240\<bar> \<le> 1)"
proof -
  let ?ops = "[Fires script_card]"
  let ?p = "fold (panel_does laptop test_swift) ?ops (new_panel laptop None)"
  let ?f = "\<lparr>rc_x = points 800, rc_y = points 240, rc_w = points 260, rc_h = points 306\<rparr>"
  let ?ws = "Some [\<lparr>wn_owner = Some ''coreautha'',
    wn_bounds = Some (Some (points 800), Some (points 240), Some (points 260), Some (points 306))\<rparr>]"
  have p: "cp_frame ?p \<noteq> None" "0 < length (cp_timers ?p)" "cp_sheet ?p = remembered laptop None"
      "cp_ctx ?p = Some script_card"
    by (simp_all add: show_fires_def start_polling_def rebuild_def new_panel_def Let_def)
  have owner: "sheet_owner test_swift \<lparr>wn_owner = Some ''coreautha'', wn_bounds = b\<rparr>" for b
  proof -
    have "contains (sw_lower test_swift ''coreautha'') ''coreauth''" by code_simp
    then show ?thesis by (simp add: sheet_owner_def Let_def)
  qed
  have w: "auth_sheet_rect test_swift ?ws = Some ?f"
    by (simp add: auth_sheet_rect_def owner Let_def rect_width_def rect_height_def swift_abs_def)
      (simp add: points_def)
  have f: "on_points ?f 800 240 260 306" by (simp add: on_points_def)
  have "\<forall>c. cp_ctx ?p = Some c \<longrightarrow> lines_fit test_swift c" using script_card_fits(1) p(4) by simp
  from sheet_lands_in_slot [OF refl p(1,2) w f _ laptop_height _ this] laptop_sheet p(3)
  obtain c fr d sx sy where r: "cp_frame (panel_does laptop test_swift (Ticks 0 ?ws) ?p) = Some fr"
      "d \<in> {470, 560, 660}" "\<bar>sx - max 800 (d + 52)\<bar> \<le> 1" "\<bar>sy - 240\<bar> \<le> 1"
      "slot laptop test_swift c (cp_sheet (panel_does laptop test_swift (Ticks 0 ?ws) ?p)) fr =
        \<lparr>rc_x = points sx, rc_y = points sy, rc_w = points 260, rc_h = points 306\<rparr>"
    by (fastforce simp del: fold.simps panel_does.simps)
  have "\<bar>sx - 800\<bar> \<le> 1" using r(2,3) by auto
  with r w show ?thesis
    by (intro exI [of _ ?p] exI [of _ "0::nat"] exI [of _ ?ws] exI [of _ ?f] conjI) (auto simp del: fold.simps panel_does.simps)
qed

end
