(* ===== verification/App_Text.thy ===== *)
theory App_Text
  imports App_Events App_Script "HOL-Library.AList" "HOL-Library.Multiset"
begin

text \<open>
  What the app's window says of an event: the derived text of \<open>Model.swift\<close>, the list of
  \<open>Views.swift\<close> and its search, the counts of \<open>EventStore.swift\<close> and the menu of
  \<open>KeywardApp.swift\<close>. \<open>None\<close> where a text is computed is a Swift trap, which ends the app.
\<close>

section \<open>Names\<close>

fun event_label :: "event_kind \<Rightarrow> string" where
  "event_label ListIdentities = ''Listed keys''"
| "event_label Sign = ''Signed''"
| "event_label SessionBind = ''Bound session''"
| "event_label Other = ''Other''"

fun event_symbol :: "event_kind \<Rightarrow> string" where
  "event_symbol ListIdentities = ''list.bullet''"
| "event_symbol Sign = ''signature''"
| "event_symbol SessionBind = ''link''"
| "event_symbol Other = ''questionmark''"

fun purpose_symbol :: "purpose_kind \<Rightarrow> string" where
  "purpose_symbol SshLogin = ''terminal''"
| "purpose_symbol RemoteCommand = ''chevron.left.forwardslash.chevron.right''"
| "purpose_symbol GitFetch = ''arrow.down.circle''"
| "purpose_symbol GitPush = ''arrow.up.circle''"
| "purpose_symbol GitOverSsh = ''arrow.triangle.branch''"
| "purpose_symbol CommitSigning = ''signature''"
| "purpose_symbol Signing = ''pencil.and.outline''"
| "purpose_symbol FileTransfer = ''doc.on.doc''"
| "purpose_symbol Unknown = ''questionmark.circle''"

fun purpose_label :: "purpose_kind \<Rightarrow> string" where
  "purpose_label SshLogin = ''SSH login''"
| "purpose_label RemoteCommand = ''Remote command''"
| "purpose_label GitFetch = ''git fetch''"
| "purpose_label GitPush = ''git push''"
| "purpose_label GitOverSsh = ''git over SSH''"
| "purpose_label CommitSigning = ''Commit signing''"
| "purpose_label Signing = ''Signing''"
| "purpose_label FileTransfer = ''File transfer''"
| "purpose_label Unknown = ''Unknown''"

section \<open>Declarations\<close>

text \<open>\<open>v == v.rounded()\<close>, and \<open>Int(v)\<close>, which traps out of range.\<close>

definition is_whole :: "f64 \<Rightarrow> bool" where
  "is_whole v = (case v of NaN \<Rightarrow> False | Fin r \<Rightarrow> r = of_int \<lfloor>r\<rfloor> | _ \<Rightarrow> True)"

definition int_of_double :: "f64 \<Rightarrow> int option" where
  "int_of_double v =
    (case v of Fin r \<Rightarrow> if - (2 ^ 63) \<le> r \<and> r < 2 ^ 63 then Some \<lfloor>r\<rfloor> else None | _ \<Rightarrow> None)"

fun display :: "swift \<Rightarrow> json_value \<Rightarrow> string option" where
  "display sw (JvString v) = Some v"
| "display sw (JvNumber v) =
    (if is_whole v then map_option show_int (int_of_double v) else Some (sw_double sw v))"
| "display sw (JvBool v) = Some (if v then ''true'' else ''false'')"
| "display sw JvNull = Some em_dash"
| "display sw (JvArray vs) = map_option (join '', '') (those (map (display sw) vs))"
| "display sw (JvObject kvs) =
    (let shown = map (\<lambda>(k, v). (k, display sw v)) kvs
     in map_option (join '', '')
          (those (map (\<lambda>k. map_option (\<lambda>s. k @ '': '' @ s) (Option.bind (map_of shown k) (\<lambda>s. s)))
            (sw_order sw (remdups (map fst kvs))))))"

definition humanise :: "swift \<Rightarrow> string \<Rightarrow> string" where
  "humanise sw key =
    join '' ''
      (map (\<lambda>w. case w of [] \<Rightarrow> [] | c # cs \<Rightarrow> sw_upper sw c @ sw_lower sw (concat cs))
        (filter (\<lambda>w. w \<noteq> [])
          (split_on ''_'' (map (\<lambda>c. if c = ''-'' then ''_'' else c)
            (sw_chars sw (concat (components ''KEYWARD_'' key)))))))"

text \<open>A dictionary sorted by its keys.\<close>

definition sorted_entries :: "(string \<rightharpoonup> 'a) \<Rightarrow> (string \<times> 'a) list" where
  "sorted_entries m = map (\<lambda>k. (k, the (m k))) (sorted_list_of_set (dom m))"

text \<open>One pass of \<open>declarations\<close>: what is out so far, and the labels seen.\<close>

fun declare_each ::
  "swift \<Rightarrow> (string \<times> string) list \<times> string list \<Rightarrow> (string \<times> string option) list \<Rightarrow>
    ((string \<times> string) list \<times> string list) option" where
  "declare_each sw (out, seen) [] = Some (out, seen)"
| "declare_each sw (out, seen) ((k, v) # kvs) =
    (let label = humanise sw k
     in if List.member seen (sw_lower sw label) then declare_each sw (out, seen) kvs
        else
          (case v of
             None \<Rightarrow> None
           | Some s \<Rightarrow> declare_each sw (out @ [(label, s)], seen @ [sw_lower sw label]) kvs))"

definition declared_entries :: "swift \<Rightarrow> app_context \<Rightarrow> (string \<times> string option) list" where
  "declared_entries sw c =
    map (\<lambda>(k, v). (k, display sw v)) (sorted_entries (unwrap_or (ac_declared c) Map.empty))"

definition keyward_entries :: "app_context \<Rightarrow> (string \<times> string option) list" where
  "keyward_entries c =
    map (\<lambda>(k, v). (k, Some v)) (filter (\<lambda>(k, v). starts_with k ''KEYWARD_'') (sorted_entries (ac_env c)))"

definition declarations :: "swift \<Rightarrow> app_context \<Rightarrow> (string \<times> string) list option" where
  "declarations sw c =
    map_option fst
      (Option.bind (declare_each sw ([], []) (declared_entries sw c))
        (\<lambda>st. declare_each sw st (keyward_entries c)))"

text \<open>What the list keeps of the entries it is made from: the first of each label.\<close>

lemma declare_each_step:
  "declare_each sw (out, seen) ((k, v) # kvs) = Some st \<Longrightarrow>
    (sw_lower sw (humanise sw k) \<in> set seen \<and> declare_each sw (out, seen) kvs = Some st) \<or>
    (\<exists>s. v = Some s \<and> sw_lower sw (humanise sw k) \<notin> set seen \<and>
      declare_each sw (out @ [(humanise sw k, s)], seen @ [sw_lower sw (humanise sw k)]) kvs = Some st)"
  by (cases v) (auto simp: Let_def split: if_splits)

declare declare_each.simps(2) [simp del]

lemma declare_each_seen:
  assumes "declare_each sw (out, seen) kvs = Some (out', seen')"
    and "seen = map (sw_lower sw \<circ> fst) out" and "distinct seen"
  shows "seen' = map (sw_lower sw \<circ> fst) out' \<and> distinct seen'"
  using assms
proof (induction kvs arbitrary: out seen)
  case (Cons kv kvs)
  obtain k v where kv: "kv = (k, v)" by (cases kv)
  from declare_each_step [OF Cons.prems(1) [unfolded kv]] show ?case
  proof (elim disjE exE conjE)
    assume "declare_each sw (out, seen) kvs = Some (out', seen')"
    from Cons.IH [OF this Cons.prems(2,3)] show ?case .
  next
    fix s
    assume n: "sw_lower sw (humanise sw k) \<notin> set seen"
      and d: "declare_each sw (out @ [(humanise sw k, s)], seen @ [sw_lower sw (humanise sw k)]) kvs =
        Some (out', seen')"
    show ?case by (rule Cons.IH [OF d]) (use n Cons.prems(2,3) in simp_all)
  qed
qed simp

lemma declare_each_out:
  "declare_each sw (out, seen) kvs = Some (out', seen') \<Longrightarrow>
    x \<in> set out' \<Longrightarrow> x \<in> set out \<or> (\<exists>k. (k, Some (snd x)) \<in> set kvs \<and> fst x = humanise sw k)"
proof (induction kvs arbitrary: out seen)
  case (Cons kv kvs)
  obtain k v where kv: "kv = (k, v)" by (cases kv)
  from declare_each_step [OF Cons.prems(1) [unfolded kv]] show ?case
  proof (elim disjE exE conjE)
    assume "declare_each sw (out, seen) kvs = Some (out', seen')"
    from Cons.IH [OF this Cons.prems(2)] show ?case by auto
  next
    fix s
    assume "v = Some s" and "declare_each sw (out @ [(humanise sw k, s)],
        seen @ [sw_lower sw (humanise sw k)]) kvs = Some (out', seen')"
    with Cons.IH [OF this(2) Cons.prems(2)] show ?case by (auto simp: kv)
  qed
qed simp

lemma declare_each_prefix:
  "declare_each sw (out, seen) kvs = Some (out', seen') \<Longrightarrow> prefix out out' \<and> set seen \<subseteq> set seen'"
proof (induction kvs arbitrary: out seen)
  case (Cons kv kvs)
  obtain k v where kv: "kv = (k, v)" by (cases kv)
  from declare_each_step [OF Cons.prems [unfolded kv]] show ?case
  proof (elim disjE exE conjE)
    assume "declare_each sw (out, seen) kvs = Some (out', seen')"
    from Cons.IH [OF this] show ?case .
  next
    fix s
    assume "declare_each sw (out @ [(humanise sw k, s)],
        seen @ [sw_lower sw (humanise sw k)]) kvs = Some (out', seen')"
    from Cons.IH [OF this] show ?case by (auto dest: append_prefixD)
  qed
qed simp

lemma declare_each_all:
  "declare_each sw (out, seen) kvs = Some (out', seen') \<Longrightarrow>
    (k, v) \<in> set kvs \<Longrightarrow> sw_lower sw (humanise sw k) \<in> set seen'"
proof (induction kvs arbitrary: out seen)
  case (Cons kv kvs)
  obtain k' v' where kv: "kv = (k', v')" by (cases kv)
  from declare_each_step [OF Cons.prems(1) [unfolded kv]] show ?case
  proof (elim disjE exE conjE)
    assume m: "sw_lower sw (humanise sw k') \<in> set seen" and d: "declare_each sw (out, seen) kvs = Some (out', seen')"
    show ?case
      using Cons.IH [OF d] Cons.prems(2) kv m conjunct2 [OF declare_each_prefix [OF d]] by auto
  next
    fix s
    assume d: "declare_each sw (out @ [(humanise sw k', s)],
        seen @ [sw_lower sw (humanise sw k')]) kvs = Some (out', seen')"
    show ?case
      using Cons.IH [OF d] Cons.prems(2) kv conjunct2 [OF declare_each_prefix [OF d]] by auto
  qed
qed simp

lemma sorted_entries_iff:
  "finite (dom m) \<Longrightarrow> (k, v) \<in> set (sorted_entries m) \<longleftrightarrow> m k = Some v"
  by (auto simp: sorted_entries_def)

text \<open>
  The list of what was declared: no two of its labels are the same but for their case, as the
  view that shows them needs; each entry is a key of the declaration with its value, or a
  variable of the environment under a label no declared key has; and nothing declared
  through either is without a row.
\<close>

lemma declarations_shown:
  assumes "declarations sw c = Some ds"
    and "finite (dom (ac_env c))" and "m = unwrap_or (ac_declared c) Map.empty" and "finite (dom m)"
  shows "distinct (map (sw_lower sw \<circ> fst) ds)"
    and "(l, v) \<in> set ds \<Longrightarrow>
      (\<exists>k j. m k = Some j \<and> l = humanise sw k \<and> display sw j = Some v) \<or>
      (\<exists>k. ac_env c k = Some v \<and> starts_with k ''KEYWARD_'' \<and> l = humanise sw k \<and>
        (\<forall>k' \<in> dom m. sw_lower sw (humanise sw k') \<noteq> sw_lower sw l))"
    and "k \<in> dom m \<or> (k \<in> dom (ac_env c) \<and> starts_with k ''KEYWARD_'') \<Longrightarrow>
      sw_lower sw (humanise sw k) \<in> (sw_lower sw \<circ> fst) ` set ds"
proof -
  have D: "declared_entries sw c = map (\<lambda>(k, v). (k, display sw v)) (sorted_entries m)"
    by (simp add: declared_entries_def assms(3))
  obtain out seen seen' where d: "declare_each sw ([], []) (declared_entries sw c) = Some (out, seen)"
      and e: "declare_each sw (out, seen) (keyward_entries c) = Some (ds, seen')"
    using assms(1) by (auto simp: declarations_def split: bind_splits)
  have s1: "seen = map (sw_lower sw \<circ> fst) out" "distinct seen" using declare_each_seen [OF d] by auto
  have s2: "seen' = map (sw_lower sw \<circ> fst) ds" "distinct seen'" using declare_each_seen [OF e s1] by auto
  show "distinct (map (sw_lower sw \<circ> fst) ds)" using s2 by simp
  have in_seen: "sw_lower sw (humanise sw k) \<in> set seen" if "k \<in> dom m" for k
  proof -
    from that have "(k, display sw (the (m k))) \<in> set (declared_entries sw c)"
      using sorted_entries_iff [OF assms(4), of k] unfolding D by force
    from declare_each_all [OF d this] show ?thesis .
  qed
  show "sw_lower sw (humanise sw k) \<in> (sw_lower sw \<circ> fst) ` set ds"
    if "k \<in> dom m \<or> (k \<in> dom (ac_env c) \<and> starts_with k ''KEYWARD_'')"
  proof (cases "k \<in> dom m")
    case True
    from in_seen [OF this] show ?thesis
      using conjunct2 [OF declare_each_prefix [OF e]] s2(1) by auto
  next
    case False
    with that have "(k, Some (the (ac_env c k))) \<in> set (keyward_entries c)"
      using sorted_entries_iff [OF assms(2), of k] by (force simp: keyward_entries_def)
    from declare_each_all [OF e this] show ?thesis using s2(1) by auto
  qed
  show "(\<exists>k j. m k = Some j \<and> l = humanise sw k \<and> display sw j = Some v) \<or>
      (\<exists>k. ac_env c k = Some v \<and> starts_with k ''KEYWARD_'' \<and> l = humanise sw k \<and>
        (\<forall>k' \<in> dom m. sw_lower sw (humanise sw k') \<noteq> sw_lower sw l))"
    if x: "(l, v) \<in> set ds"
  proof (cases "(l, v) \<in> set out")
    case True
    with declare_each_out [OF d this] obtain k where "(k, Some v) \<in> set (declared_entries sw c)" "l = humanise sw k"
      by auto
    then show ?thesis using sorted_entries_iff [OF assms(4)] unfolding D by force
  next
    case False
    with declare_each_out [OF e x] obtain k where k: "(k, Some v) \<in> set (keyward_entries c)" "l = humanise sw k"
      by auto
    then have "ac_env c k = Some v" "starts_with k ''KEYWARD_''"
      using sorted_entries_iff [OF assms(2)] by (auto simp: keyward_entries_def)
    moreover have "sw_lower sw l \<notin> set seen"
    proof
      assume "sw_lower sw l \<in> set seen"
      then obtain y where y: "y \<in> set out" "sw_lower sw (fst y) = sw_lower sw l" using s1(1) by auto
      have "distinct (map (sw_lower sw \<circ> fst) ds)" using s2 by simp
      moreover have "y \<in> set ds" using y(1) conjunct1 [OF declare_each_prefix [OF e]] by (auto simp: prefix_def)
      ultimately have "y = (l, v)" using x y(2) by (auto simp: distinct_map inj_on_def)
      with y(1) False show False by simp
    qed
    ultimately show ?thesis using in_seen k(2) by metis
  qed
qed

text \<open>
  A number is shown as an integer when it has no fraction, and a value whose whole numbers fit
  64 bits is always shown; one that does not fit, which a declaration may well hold, ends the
  app when it is shown.
\<close>

fun numbers_fit :: "json_value \<Rightarrow> bool" where
  "numbers_fit (JvNumber v) \<longleftrightarrow> is_whole v \<longrightarrow> int_of_double v \<noteq> None"
| "numbers_fit (JvArray vs) \<longleftrightarrow> (\<forall>v \<in> set vs. numbers_fit v)"
| "numbers_fit (JvObject kvs) \<longleftrightarrow> (\<forall>(k, v) \<in> set kvs. numbers_fit v)"
| "numbers_fit _ \<longleftrightarrow> True"

lemma those_total: "(\<And>x. x \<in> set xs \<Longrightarrow> x \<noteq> None) \<Longrightarrow> \<exists>ys. those xs = Some ys"
  by (induction xs) (auto split: option.splits)

lemma display_fits:
  assumes "\<And>ks. set (sw_order sw ks) = set ks"
  shows "numbers_fit j \<Longrightarrow> \<exists>t. display sw j = Some t"
proof (induction j rule: numbers_fit.induct)
  case (2 vs)
  have "\<exists>ys. those (map (display sw) vs) = Some ys" by (rule those_total) (use 2 in auto)
  then show ?case by auto
next
  case (3 kvs)
  let ?shown = "map (\<lambda>(k, v). (k, display sw v)) kvs"
  have "\<exists>t. Option.bind (map_of ?shown k) (\<lambda>s. s) = Some t" if "k \<in> fst ` set kvs" for k
  proof -
    from that have "map_of ?shown k \<noteq> None" unfolding map_of_eq_None_iff by force
    then obtain d where d: "map_of ?shown k = Some d" by auto
    from map_of_SomeD [OF this] obtain v where "(k, v) \<in> set kvs" "d = display sw v" by auto
    with 3 d show ?thesis by fastforce
  qed
  note f = this
  have "\<exists>ys. those (map (\<lambda>k. map_option (\<lambda>s. k @ '': '' @ s) (Option.bind (map_of ?shown k) (\<lambda>s. s)))
      (sw_order sw (remdups (map fst kvs)))) = Some ys"
  proof (intro those_total)
    fix x
    assume "x \<in> set (map (\<lambda>k. map_option (\<lambda>s. k @ '': '' @ s) (Option.bind (map_of ?shown k) (\<lambda>s. s)))
      (sw_order sw (remdups (map fst kvs))))"
    then obtain k where "k \<in> fst ` set kvs"
        "x = map_option (\<lambda>s. k @ '': '' @ s) (Option.bind (map_of ?shown k) (\<lambda>s. s))"
      by (simp only: set_map set_remdups assms) blast
    with f show "x \<noteq> None" by fastforce
  qed
  then show ?case by (auto simp: Let_def)
qed auto

lemma large_number_ends_the_app: "display sw (JvNumber (Fin (2 ^ 63))) = None"
  by (simp add: is_whole_def int_of_double_def)

section \<open>What an event says\<close>

definition command_line :: "proc_info \<Rightarrow> string" where
  "command_line p = (if pi_args p = [] then unwrap_or (pi_path p) [] else join '' '' (pi_args p))"

definition left_arrow :: string where
  "left_arrow = [CHR 0x20, CHR 0x20, CHR 0xE2, CHR 0x86, CHR 0x90, CHR 0x20, CHR 0x20]"

definition who_chain :: "app_attribution \<Rightarrow> string" where
  "who_chain w = join left_arrow (map proc_display (aa_ancestry w))"

definition quoted :: "string \<Rightarrow> string" where
  "quoted s = [CHR 0xE2, CHR 0x80, CHR 0x9C] @ s @ [CHR 0xE2, CHR 0x80, CHR 0x9D]"

definition summary_of :: "agent_event \<Rightarrow> string" where
  "summary_of ae =
    (let w = ae_who ae in
     case ae_kind ae of
       Sign \<Rightarrow>
         (case (pu_kind (aa_purpose w), Option.bind (ac_git (aa_context w)) ag_subject) of
            (CommitSigning, Some subject) \<Rightarrow>
              ''Signed '' @ quoted subject @
                (case pu_repo (aa_purpose w) of Some repo \<Rightarrow> '' in '' @ repo | None \<Rightarrow> [])
          | _ \<Rightarrow> pu_summary (aa_purpose w))
     | ListIdentities \<Rightarrow> ''Listed keys '' @ em_dash @ '' '' @ ae_outcome ae
     | SessionBind \<Rightarrow>
         (case aa_destination w of Some d \<Rightarrow> ''Bound to '' @ d | None \<Rightarrow> ''Bound session'')
     | Other \<Rightarrow> ae_outcome ae)"

definition provenance :: "agent_event \<Rightarrow> string" where
  "provenance ae =
    (let app = map_option ai_name (aa_app (ae_who ae));
         process = Option.bind (aa_process (ae_who ae)) pi_name
     in join middle_dot
          ((case app of Some a \<Rightarrow> [a] | None \<Rightarrow> []) @
           (case process of Some p \<Rightarrow> if process \<noteq> app then [p] else [] | None \<Rightarrow> []) @
           (case ae_key_comment ae of Some c \<Rightarrow> if c \<noteq> [] then [c] else [] | None \<Rightarrow> [])))"

definition symbol_of :: "agent_event \<Rightarrow> string" where
  "symbol_of ae =
    (if ae_kind ae = Sign then purpose_symbol (pu_kind (aa_purpose (ae_who ae))) else event_symbol (ae_kind ae))"

section \<open>The list\<close>

definition matches :: "swift \<Rightarrow> agent_event \<Rightarrow> string \<Rightarrow> bool" where
  "matches sw ae q \<longleftrightarrow>
    contains
      (sw_lower sw (join '' ''
        [app_name ae, unwrap_or (aa_destination (ae_who ae)) [], unwrap_or (ae_key_comment ae) [],
         unwrap_or (ae_upstream ae) [], who_chain (ae_who ae), ae_outcome ae]))
      (sw_lower sw q)"

definition filtered :: "swift \<Rightarrow> bool \<Rightarrow> string \<Rightarrow> agent_event list \<Rightarrow> agent_event list" where
  "filtered sw signatures_only query evs =
    rev (filter (\<lambda>ae. query = [] \<or> matches sw ae query)
      (filter (\<lambda>ae. \<not> signatures_only \<or> ae_kind ae = Sign) evs))"

definition sign_events :: "event_store \<Rightarrow> agent_event list" where
  "sign_events es = filter (\<lambda>ae. ae_kind ae = Sign) (es_events es)"

text \<open>The menu's last six signatures, newest first.\<close>

definition menu_lines :: "event_store \<Rightarrow> string list" where
  "menu_lines es =
    (let recent = rev (keep_last 6 (sign_events es))
     in if recent = [] then [''No signatures yet'']
        else map (\<lambda>ae. app_name ae @ '' '' @ em_dash @ '' '' @
          unwrap_or (or_else (aa_destination (ae_who ae)) (ae_key_comment ae)) (ae_outcome ae)) recent)"

text \<open>
  Signatures counted by app, most active first. The dictionary's order decides between equal
  counts.
\<close>

fun count_names :: "string list \<Rightarrow> (string \<times> nat) list \<Rightarrow> (string \<times> nat) list" where
  "count_names [] counts = counts"
| "count_names (n # ns) counts =
    count_names ns (AList.update n (unwrap_or (map_of counts n) 0 + 1) counts)"

definition leaderboard :: "swift \<Rightarrow> event_store \<Rightarrow> (string \<times> nat) list" where
  "leaderboard sw es =
    (let counts = count_names (map app_name (sign_events es)) []
     in sort_key (\<lambda>(name, n). - int n)
          (map (\<lambda>name. (name, unwrap_or (map_of counts name) 0)) (sw_order sw (map fst counts))))"

section \<open>What the list holds\<close>

text \<open>Without a query nothing is hidden but, if asked for, what is no signature; newest first.\<close>

lemma filtered_all: "filtered sw only [] evs = rev (filter (\<lambda>ae. only \<longrightarrow> ae_kind ae = Sign) evs)"
  by (simp add: filtered_def)

lemma count_names_counts:
  "distinct (map fst counts) \<Longrightarrow>
    distinct (map fst (count_names ns counts)) \<and>
    fst ` set (count_names ns counts) = fst ` set counts \<union> set ns \<and>
    unwrap_or (map_of (count_names ns counts) x) 0 = unwrap_or (map_of counts x) 0 + count_list ns x"
proof (induction ns arbitrary: counts)
  case (Cons n ns)
  let ?c = "AList.update n (unwrap_or (map_of counts n) 0 + 1) counts"
  have "distinct (map fst ?c)" using Cons.prems by (rule distinct_update)
  from Cons.IH [OF this] show ?case
    by (auto simp: update_conv dom_update simp flip: dom_map_of_conv_image_fst)
qed simp

text \<open>
  Every app with a signature in the list is on the board once, with as many as it has there,
  and none has fewer than the next.
\<close>

lemma leaderboard_counts:
  assumes "\<And>ks. distinct ks \<Longrightarrow> distinct (sw_order sw ks) \<and> set (sw_order sw ks) = set ks"
  shows "distinct (map fst (leaderboard sw es))"
    and "sorted_wrt (\<lambda>a b. snd b \<le> snd a) (leaderboard sw es)"
    and "(name, n) \<in> set (leaderboard sw es) \<longleftrightarrow>
      n = count_list (map app_name (sign_events es)) name \<and> 0 < n"
proof -
  define names where "names = map app_name (sign_events es)"
  define counts where "counts = count_names names []"
  have c: "distinct (map fst counts)" "fst ` set counts = set names"
    "unwrap_or (map_of counts x) 0 = count_list names x" for x
    using count_names_counts [of "[]" names] by (simp_all add: counts_def)
  have o: "distinct (sw_order sw (map fst counts))" "set (sw_order sw (map fst counts)) = set names"
    using assms [OF c(1)] c(2) by simp_all
  let ?l = "map (\<lambda>name. (name, count_list names name)) (sw_order sw (map fst counts))"
  have l: "leaderboard sw es = sort_key (\<lambda>(name, n). - int n) ?l"
    by (simp add: leaderboard_def names_def [symmetric] counts_def [symmetric] c(3))
  have "mset (map fst (leaderboard sw es)) = mset (sw_order sw (map fst counts))"
    by (simp add: l multiset.map_comp comp_def)
  then show "distinct (map fst (leaderboard sw es))" using o(1) by (metis mset_eq_imp_distinct_iff)
  have "sorted (map (\<lambda>(name, n). - int n) (leaderboard sw es))" unfolding l by (rule sorted_sort_key)
  then show "sorted_wrt (\<lambda>a b. snd b \<le> snd a) (leaderboard sw es)"
    by (auto simp: sorted_map elim: sorted_wrt_mono_rel [rotated])
  show "(name, n) \<in> set (leaderboard sw es) \<longleftrightarrow>
      n = count_list (map app_name (sign_events es)) name \<and> 0 < n"
    using o(2) by (auto simp: l names_def [symmetric] count_list_0_iff intro: ccontr)
qed

end
