(* ===== verification/App_Agent.thy ===== *)
theory App_Agent
  imports Startup
begin

text \<open>
  How the app keeps the daemon running: the check of \<open>app/Sources/KeywardApp/Health.swift\<close>,
  which asks the daemon's socket for its keys, and \<open>AgentInstaller.swift\<close>, which registers
  the daemon with launchd and touches it only when there is something to change.
\<close>

section \<open>The check\<close>

text \<open>How far the calls of a check get, and the bytes that come back before the timeout.\<close>

record check_io =
  ck_socket :: bool
  ck_connect_error :: "string option"
  ck_writes :: bool
  ck_answer :: bytes

datatype health_status = Healthy nat | Unreachable string | Unresponsive

definition SUN_PATH_SIZE :: nat where "SUN_PATH_SIZE = 104"

definition check :: "check_io \<Rightarrow> string \<Rightarrow> health_status" where
  "check io path =
    (if \<not> ck_socket io then Unreachable ''no socket''
     else if \<not> length path < SUN_PATH_SIZE then Unreachable ''path too long''
     else
       (case ck_connect_error io of
          Some why \<Rightarrow> Unreachable why
        | None \<Rightarrow>
            if \<not> ck_writes io \<or> length (ck_answer io) < 4 then Unresponsive
            else
              let n = be_length (ck_answer io); rest = drop 4 (ck_answer io)
              in if \<not> (5 \<le> n \<and> n < 2 ^ 20) \<or> length rest < n then Unresponsive
                 else
                   let body = take n rest
                   in if body ! 0 \<noteq> IDENTITIES_ANSWER then Unresponsive
                      else Healthy (be_length (drop 1 body))))"

definition is_healthy :: "health_status \<Rightarrow> bool" where
  "is_healthy s \<longleftrightarrow> (case s of Healthy n \<Rightarrow> True | _ \<Rightarrow> False)"

fun status_label :: "health_status \<Rightarrow> string" where
  "status_label (Healthy n) =
    ''Agent healthy '' @ tl middle_dot @ show_nat n @ '' key'' @ (if n = 1 then [] else ''s'')"
| "status_label (Unreachable why) = ''Agent unreachable '' @ em_dash @ '' '' @ why"
| "status_label Unresponsive = ''Agent wedged '' @ em_dash @ '' accepting but not answering''"

text \<open>
  On the same answer the two checks say the same of the daemon, and count the same keys, as
  long as the answer's length is one that both of them take.
\<close>

lemma check_agrees:
  assumes "pb_connect_error io = None" "pb_timeouts_set io" "pb_writes io"
    and "ck_socket ck" "length path < SUN_PATH_SIZE" "ck_connect_error ck = None" "ck_writes ck"
    and "ck_answer ck = pb_answer io" and "5 \<le> be_length (pb_answer io)" and "be_length (pb_answer io) < 2 ^ 20"
  shows "check ck path = (case probe io path secs of Inr count \<Rightarrow> Healthy (unat count) | Inl e \<Rightarrow> Unresponsive)"
proof -
  let ?n = "be_length (pb_answer io)" and ?rest = "drop 4 (pb_answer io)"
  show ?thesis
  proof (cases "length (pb_answer io) < 4 \<or> length ?rest < ?n")
    case True
    then show ?thesis using assms by (auto simp: check_def probe_def Let_def)
  next
    case False
    define body where "body = take ?n ?rest"
    have l: "length body = ?n" using False by (simp add: body_def)
    then have u8: "reader_u8 (reader_new body) = (Some (body ! 0), \<lparr>rd_buf = body, rd_pos = 1\<rparr>)"
      using assms(9) by (auto simp: reader_u8_def reader_new_def nth_opt_def)
    have d: "drop 1 body ! k = body ! (k + 1)" for k using l assms(9) by simp
    have "be_length (drop 1 body) = unat (u32_from_be (body ! 1) (body ! 2) (body ! 3) (body ! 4))"
      unfolding be_length_def d by (simp add: eval_nat_numeral)
    moreover have "fst (reader_u32 \<lparr>rd_buf = body, rd_pos = 1\<rparr>) =
        Some (u32_from_be (body ! 1) (body ! 2) (body ! 3) (body ! 4))"
      using l assms(9) by (simp add: reader_u32_def usize_checked_add_def get_range_def)
        (simp add: eval_nat_numeral)
    ultimately show ?thesis
      using assms False unfolding check_def probe_def Let_def assms(8) body_def [symmetric] u8
      by (simp del: One_nat_def)
  qed
qed

lemma identities_answer_length: "5 + length ids \<le> length (identities_answer ids)"
proof -
  have "length ids \<le> length (concat (map (\<lambda>x. writer_string x []) (identity_fields ids)))"
    by (induction ids) (auto simp: identity_fields_def writer_string_def writer_u32_def)
  then show ?thesis
    by (simp add: identities_answer_head write_identities_list string_field.put_list_append)
qed

text \<open>
  C32: A daemon that serves passes its own check and the app's: fed what the daemon answers to
  the message both send, the probe reports how many keys are offered, \<open>--health\<close> exits with 0
  and the self-check lets the daemon live, and the app shows it healthy with as many keys;
  the one difference is a listing of 2^20 bytes or more, which the app calls wedged.
\<close>

theorem serving_daemon_looks_healthy:
  assumes "pb_connect_error io = None" "pb_timeouts_set io" "pb_writes io"
    and "pb_answer io = concat (fst (serve cfg ou rds who 0 (frame [REQUEST_IDENTITIES]) bound st))"
    and "length (identities_answer (listed cfg ou st)) < 2 ^ 32"
    and "ck_socket ck" "length path < SUN_PATH_SIZE" "ck_connect_error ck = None" "ck_writes ck"
    and "ck_answer ck = pb_answer io"
  shows "probe io path secs = Inr (of_nat (length (listed cfg ou st))) \<and> health io path secs = 0 \<and>
    \<not> watch_self_exits io path secs \<and>
    check ck path =
      (if length (identities_answer (listed cfg ou st)) < 2 ^ 20
       then Healthy (length (listed cfg ou st)) else Unresponsive)"
proof -
  let ?a = "identities_answer (listed cfg ou st)"
  have ans: "pb_answer io = frame ?a" using assms(4) served_listing by simp
  have p: "probe io path secs = Inr (of_nat (length (listed cfg ou st)))"
    by (rule probe_reads_count [OF assms(1-3) ans assms(5)])
  have n: "be_length (pb_answer io) = length ?a"
    using assms(5) by (simp add: ans be_length_def frame_def nth_append u32_be_roundtrip [simplified] unat_of_nat_length)
  have "length (listed cfg ou st) < 2 ^ 32" "5 \<le> length ?a"
    using identities_answer_length [of "listed cfg ou st"] assms(5) by simp_all
  moreover have "check ck path = (case probe io path secs of Inr count \<Rightarrow> Healthy (unat count) | Inl e \<Rightarrow> Unresponsive)"
    if "length ?a < 2 ^ 20"
    by (rule check_agrees [OF assms(1-3,6-10)]) (use n that \<open>5 \<le> length ?a\<close> in simp_all)
  moreover have "check ck path = Unresponsive" if "\<not> length ?a < 2 ^ 20"
    using that n assms(6-10) by (simp add: check_def Let_def)
  ultimately have "check ck path =
      (if length ?a < 2 ^ 20 then Healthy (length (listed cfg ou st)) else Unresponsive)"
    using p \<open>length (listed cfg ou st) < 2 ^ 32\<close> by (simp add: unat_of_nat)
  with p show ?thesis by (simp add: health_def watch_self_exits_def)
qed

definition test_check :: check_io where
  "test_check =
    \<lparr>ck_socket = True, ck_connect_error = None, ck_writes = True, ck_answer = pb_answer test_probe\<rparr>"

theorem serving_daemon_looks_healthy_witness: "check test_check ''/s'' = Healthy 2"
proof -
  have l: "listed test_merge test_routes test_daemon =
      [(ssh_public_blob test_enclave, ''mac@keyward''), ([1, 2], ''me'')]"
    unfolding listed_def test_refresh
    by (simp add: test_merge_def test_config_def test_enclave_def key_listing_def)
  have "length (identities_answer (listed test_merge test_routes test_daemon)) < 2 ^ 20"
    unfolding l by (simp add: test_enclave_def ssh_public_blob_def identities_answer_def
        writer_string_def writer_u32_def writer_u8_def writer_new_def as_bytes_def utf8_step_ascii
        KEY_TYPE_def CURVE_def)
  moreover from this have "length (identities_answer (listed test_merge test_routes test_daemon)) < 2 ^ 32" by simp
  from serving_daemon_looks_healthy [OF _ _ _ _ this, of test_probe "\<lambda>_. test_readings" nobody None test_check "''/s''" 10]
  have "check test_check ''/s'' = (if length (identities_answer (listed test_merge test_routes test_daemon)) < 2 ^ 20
      then Healthy (length (listed test_merge test_routes test_daemon)) else Unresponsive)"
    by (simp add: test_probe_def test_check_def SUN_PATH_SIZE_def)
  ultimately show ?thesis by (simp add: l)
qed

section \<open>Registering the daemon\<close>

text \<open>
  What is at the labels in \<open>LaunchAgents\<close> and which plist each loaded job was bootstrapped
  from, whether a plist can be written there and which one launchd takes, and the calls of
  \<open>launchctl\<close> that change something.
\<close>

record launchd =
  ld_files :: "string \<rightharpoonup> string"
  ld_jobs :: "string \<rightharpoonup> string"
  ld_writable :: bool
  ld_accepts :: "string \<Rightarrow> bool"
  ld_calls :: "string list list"

definition agent_label :: string where "agent_label = ''dev.danielsol.keyward.agent''"
definition watchdog_label :: string where "watchdog_label = ''dev.danielsol.keyward.watchdog''"

definition is_loaded :: "string \<Rightarrow> launchd \<Rightarrow> bool" where
  "is_loaded label d \<longleftrightarrow> ld_jobs d label \<noteq> None"

definition write_plist :: "string \<Rightarrow> string \<Rightarrow> launchd \<Rightarrow> launchd" where
  "write_plist label plist d =
    (if ld_writable d then d\<lparr>ld_files := (ld_files d)(label \<mapsto> plist)\<rparr> else d)"

definition bootout :: "string \<Rightarrow> launchd \<Rightarrow> launchd" where
  "bootout label d =
    d\<lparr>ld_jobs := (ld_jobs d)(label := None), ld_calls := ld_calls d @ [[''bootout'', label]]\<rparr>"

definition bootstrap :: "string \<Rightarrow> launchd \<Rightarrow> launchd" where
  "bootstrap label d =
    (let d' = d\<lparr>ld_calls := ld_calls d @ [[''bootstrap'', label]]\<rparr>
     in case ld_files d label of
          None \<Rightarrow> d'
        | Some plist \<Rightarrow>
            if ld_accepts d plist \<and> \<not> is_loaded label d
            then d'\<lparr>ld_jobs := (ld_jobs d)(label \<mapsto> plist)\<rparr> else d')"

definition kickstart :: "string \<Rightarrow> launchd \<Rightarrow> launchd" where
  "kickstart label d = d\<lparr>ld_calls := ld_calls d @ [[''kickstart'', ''-k'', label]]\<rparr>"

definition sync :: "string \<Rightarrow> string \<Rightarrow> launchd \<Rightarrow> launchd" where
  "sync label plist d =
    (let existing = ld_files d label; loaded = is_loaded label d
     in if existing = Some plist \<and> loaded then d
        else
          let d1 = write_plist label plist d; d2 = (if loaded then bootout label d1 else d1)
          in kickstart label (bootstrap label d2))"

definition remove_watchdog :: "launchd \<Rightarrow> launchd" where
  "remove_watchdog d =
    (if ld_files d watchdog_label = None then d
     else (bootout watchdog_label d)\<lparr>ld_files := (ld_files d)(watchdog_label := None)\<rparr>)"

definition install_if_needed :: "bool \<Rightarrow> string \<Rightarrow> launchd \<Rightarrow> launchd" where
  "install_if_needed executable plist d =
    (if \<not> executable then d else remove_watchdog (sync agent_label plist d))"

text \<open>
  One launch of the app is enough, and the next ones leave the daemon alone: after it the
  agent runs from the app's plist and an old watchdog is gone, and a further launch of the
  same app calls launchd for nothing.
\<close>

lemma install_settles:
  assumes "ld_writable d" and "ld_accepts d plist" and "d' = install_if_needed True plist d"
    and "\<forall>old. ld_jobs d agent_label = Some old \<and> ld_files d agent_label = Some plist \<longrightarrow> old = plist"
  shows "ld_files d' agent_label = Some plist \<and> ld_jobs d' agent_label = Some plist \<and>
    ld_files d' watchdog_label = None \<and> install_if_needed True plist d' = d'"
proof -
  have n: "agent_label \<noteq> watchdog_label" by (simp add: agent_label_def watchdog_label_def)
  have s: "ld_files (sync agent_label plist d) agent_label = Some plist \<and>
      ld_jobs (sync agent_label plist d) agent_label = Some plist"
    using assms(1,2,4)
    by (auto simp: sync_def write_plist_def bootout_def bootstrap_def kickstart_def is_loaded_def Let_def)
  then have d': "ld_files d' agent_label = Some plist" "ld_jobs d' agent_label = Some plist"
    "ld_files d' watchdog_label = None"
    using n by (auto simp: assms(3) install_if_needed_def remove_watchdog_def bootout_def)
  then have "install_if_needed True plist d' = d'"
    by (simp add: install_if_needed_def sync_def remove_watchdog_def is_loaded_def)
  with d' show ?thesis by blast
qed

end
