(* ===== verification/Lifecycle.thy ===== *)
theory Lifecycle
  imports Startup Session
begin

text \<open>
  The daemon as a process, from \<open>main\<close> on: the accept loop and \<open>watch_self\<close> of \<open>main.rs\<close>,
  \<open>spawn\<close>, \<open>Watching\<close> and the thread of \<open>watch_screen\<close> of \<open>agent.rs\<close>. The threads are a step
  relation whose steps are whole messages and whole rounds (the theory \<open>Interleave\<close> takes the
  signature and the watch apart); a process that has exited takes no step, and launchd starts
  another.
\<close>

section \<open>The process\<close>

record process =
  pc_daemon :: daemon
  pc_handlers :: nat
  pc_watches :: bool
  pc_exit :: "int option"

text \<open>What \<open>main\<close> starts once it listens: the self-check always, the watch for a key that ends at a lock.\<close>

definition needs_watch :: "config \<Rightarrow> bool" where
  "needs_watch cfg \<longleftrightarrow> (case cf_enclave cfg of None \<Rightarrow> False | Some e \<Rightarrow> en_ends_at_lock e)"

definition launched :: "config \<Rightarrow> daemon \<Rightarrow> process" where
  "launched cfg st =
    \<lparr>pc_daemon = st, pc_handlers = 0, pc_watches = needs_watch cfg, pc_exit = None\<rparr>"

definition spawn :: "process \<Rightarrow> process" where
  "spawn p =
    (case conn_spawn (pc_daemon p) of
       (True, st) \<Rightarrow> p\<lparr>pc_daemon := st, pc_handlers := pc_handlers p + 1\<rparr>
     | (False, st) \<Rightarrow> p)"

definition handler_ends :: "process \<Rightarrow> process" where
  "handler_ends p = p\<lparr>pc_daemon := conn_done (pc_daemon p), pc_handlers := pc_handlers p - 1\<rparr>"

definition self_check :: "probe_io \<Rightarrow> string \<Rightarrow> nat \<Rightarrow> process \<Rightarrow> process" where
  "self_check io path secs p = (if watch_self_exits io path secs then p\<lparr>pc_exit := Some 1\<rparr> else p)"

text \<open>\<open>Drop for Watching\<close>: the watch's thread is gone, however it ended.\<close>

definition watching_dropped :: "process \<Rightarrow> process" where
  "watching_dropped p = p\<lparr>pc_watches := False, pc_exit := Some 1\<rparr>"

inductive proc_step :: "conf \<Rightarrow> config \<Rightarrow> outside \<Rightarrow> process \<Rightarrow> process \<Rightarrow> bool"
  for c cfg ou
where
  accepted: "pc_exit p = None \<Longrightarrow> proc_step c cfg ou p (spawn p)"
| accept_failed: "pc_exit p = None \<Longrightarrow> proc_step c cfg ou p p"
| answered: "pc_exit p = None \<Longrightarrow> 0 < pc_handlers p \<Longrightarrow> payload \<noteq> [] \<Longrightarrow>
    dispatch cfg ou rd who payload bound (pc_daemon p) = (reply, bound', st) \<Longrightarrow>
    proc_step c cfg ou p (p\<lparr>pc_daemon := st\<rparr>)"
| hung_up: "pc_exit p = None \<Longrightarrow> 0 < pc_handlers p \<Longrightarrow> proc_step c cfg ou p (handler_ends p)"
| checked: "pc_exit p = None \<Longrightarrow>
    proc_step c cfg ou p (self_check io (co_listen c) (co_timeout_secs c) p)"
| watched: "pc_exit p = None \<Longrightarrow> pc_watches p \<Longrightarrow>
    proc_step c cfg ou p (p\<lparr>pc_daemon := watch_round cfg ou scr now later idle_gate (pc_daemon p)\<rparr>)"
| watch_stopped: "pc_exit p = None \<Longrightarrow> pc_watches p \<Longrightarrow> proc_step c cfg ou p (watching_dropped p)"

inductive_cases proc_stepE: "proc_step c cfg ou p p'"

section \<open>What holds of a process that serves\<close>

text \<open>No handler and no round of the watch touches the count of connections.\<close>

lemma phases_conns:
  "dm_conns (look_at_screen scr now st) = dm_conns st"
  "dm_conns (snd (barred e scr now st)) = dm_conns st"
  "dm_conns (snd (own_plan cfg e sc now st)) = dm_conns st"
  "dm_conns (own_release ou p st) = dm_conns st"
  "dm_conns (own_forget ou p st) = dm_conns st"
  "dm_conns (snd (snd (own_sign cfg ou e ap who d p st))) = dm_conns st"
  "dm_conns (snd (snd (own_finish ou p n now made st))) = dm_conns st"
  "dm_conns (watch_expire cfg ou now st) = dm_conns st"
  "dm_conns (log_event ou rd ev st) = dm_conns st"
  "dm_conns (snd (refresh_identities cfg ou st)) = dm_conns st"
  by (auto simp: look_at_screen_def sign_out_def barred_def own_plan_def own_release_def own_forget_def
      own_sign_def own_finish_def own_admit_def watch_expire_def log_event_def refresh_identities_def
      Let_def split: prod.splits sum.splits bool.splits)

lemma own_turn_conns:
  assumes "own_turn cfg ou e rd who data st = (reply, outcome, p, ev, st')"
  shows "dm_conns st' = dm_conns st"
  using assms
proof (cases rule: own_turn_cases)
  case (refused why st1 st2)
  show ?thesis
    using phases_conns(2) [of e "rd_screen1 rd" "rd_now1 rd" st]
      phases_conns(3) [of cfg e "scope_of (ou_os ou) who" "rd_now_decide rd" st1]
      phases_conns(7) [of ou p "gs_sign_outs (dm_gate st1)" "rd_now_admit rd" "Inl why" "own_release ou p st2"]
    by (simp add: refused phases_conns(4))
next
  case (asked st1 st2 res s' again st4)
  show ?thesis
    using phases_conns(2) [of e "rd_screen1 rd" "rd_now1 rd" st]
      phases_conns(3) [of cfg e "scope_of (ou_os ou) who" "rd_now_decide rd" st1]
      phases_conns(6) [of cfg ou e "rd_apple rd" who data p "own_release ou p st2"]
      phases_conns(2) [of e "rd_screen2 rd" "rd_now2 rd" s']
      phases_conns(7) [of ou p "gs_sign_outs (dm_gate st1)" "rd_now_admit rd"
        "case again of None \<Rightarrow> res | Some why \<Rightarrow> Inl why" st4]
    by (simp add: asked phases_conns(4))
qed

lemma handle_sign_own_conns:
  "dm_conns (snd (snd (handle_sign_own cfg ou e rd who bound data st))) = dm_conns st"
proof -
  obtain reply outcome p ev st1 where t: "own_turn cfg ou e rd who data st = (reply, outcome, p, ev, st1)"
    by (cases "own_turn cfg ou e rd who data st") auto
  from own_turn_conns [OF t] show ?thesis by (simp add: handle_sign_own_def t phases_conns(9))
qed

lemma dispatch_conns:
  "dm_conns (snd (snd (dispatch cfg ou rd who payload bound st))) = dm_conns st"
proof -
  have "dm_conns (snd (handle_request_identities cfg ou rd who st)) = dm_conns st"
    by (simp add: handle_request_identities_def case_prod_beta Let_def phases_conns(9,10))
  moreover have "dm_conns (snd (handle_sign_upstream cfg ou rd who bound blob payload st)) = dm_conns st" for blob
    by (simp add: handle_sign_upstream_def case_prod_beta Let_def phases_conns(9,10))
  then have "dm_conns (snd (snd (handle_sign cfg ou rd who bound payload st))) = dm_conns st"
    by (simp add: handle_sign_def case_prod_beta handle_sign_own_conns split: option.splits)
  moreover have "dm_conns (snd (snd (handle_extension cfg ou rd who payload bound st))) = dm_conns st"
    by (simp add: handle_extension_def case_prod_beta Let_def phases_conns(9) split: option.splits)
  ultimately show ?thesis by (simp add: dispatch_def case_prod_beta Let_def)
qed

text \<open>What holds of the process at every moment.\<close>

definition proc_ok :: "config \<Rightarrow> outside \<Rightarrow> process \<Rightarrow> bool" where
  "proc_ok cfg ou p \<longleftrightarrow>
    gate_ok ou (pc_daemon p) \<and> dm_conns (pc_daemon p) = pc_handlers p \<and> pc_handlers p \<le> MAX_CONNS \<and>
    (pc_exit p = None \<or> pc_exit p = Some 1) \<and> (pc_exit p = None \<and> needs_watch cfg \<longrightarrow> pc_watches p)"

lemma proc_step_ok:
  assumes "json_scopes (ou_scope_json ou)" and "proc_step c cfg ou p p'" and "proc_ok cfg ou p"
  shows "proc_ok cfg ou p'"
  using assms(2)
proof cases
  case accepted
  with assms(3) show ?thesis
    by (auto simp: spawn_def conn_spawn_def proc_ok_def gate_ok_def)
next
  case accept_failed
  with assms(3) show ?thesis by simp
next
  case (answered payload rd who bound reply bound' st)
  have "gate_ok ou (pc_daemon p)" using assms(3) by (simp add: proc_ok_def)
  from dispatch_ok [OF assms(1) this, of cfg rd who payload bound]
    dispatch_conns [of cfg ou rd who payload bound "pc_daemon p"] assms(3) answered
  show ?thesis by (simp add: proc_ok_def)
next
  case hung_up
  with assms(3) show ?thesis by (auto simp: handler_ends_def conn_done_def proc_ok_def gate_ok_def)
next
  case (checked io)
  with assms(3) show ?thesis by (simp add: self_check_def proc_ok_def)
next
  case (watched scr now later idle_gate)
  have g: "gate_ok ou (pc_daemon p)" using assms(3) by (simp add: proc_ok_def)
  then have "gate_ok ou (watch_round cfg ou scr now later idle_gate (pc_daemon p))"
    using look_ok [OF g] watch_expire_ok [OF assms(1)] by (simp add: watch_round_def Let_def)
  with watched assms(3) show ?thesis
    by (simp add: proc_ok_def watch_round_def phases_conns Let_def)
next
  case watch_stopped
  with assms(3) show ?thesis by (simp add: watching_dropped_def proc_ok_def)
qed

lemma proc_steps_ok:
  assumes "json_scopes (ou_scope_json ou)" and "(proc_step c cfg ou)\<^sup>*\<^sup>* p p'" and "proc_ok cfg ou p"
  shows "proc_ok cfg ou p'"
  using assms(2,3) by (induction rule: rtranclp_induct) (auto intro: proc_step_ok [OF assms(1)])

text \<open>Nothing is served after an exit.\<close>

lemma exited_is_over: "pc_exit p \<noteq> None \<Longrightarrow> \<not> proc_step c cfg ou p p'"
  by (auto elim: proc_stepE)

text \<open>A daemon that stops answering its own socket is gone with the next self-check.\<close>

lemma self_check_ends_a_wedge:
  assumes "pc_exit p = None" and "length (pb_answer io) < 4"
  shows "pc_exit (self_check io path secs p) = Some 1"
  using assms by (simp add: self_check_def watch_self_exits_def probe_def split: option.splits)

end
