(* ===== verification/Threads.thy ===== *)
theory Threads
  imports Interleave Lifecycle
begin

text \<open>
  \<open>agent.rs\<close> with all its threads: any number of connections (\<open>spawn\<close>, \<open>serve\<close>), each at its
  own place in a message, and the screen watch. A step is one critical section: a read or a
  write of \<open>routes\<close> or \<open>comments\<close>, one line of the log, taking or dropping the sign gate, or a
  step of \<open>Interleave\<close> by the thread that has the gate or by the watch. Between them a thread
  works on what it has read, and asks the upstreams, whose answers may differ each time.
\<close>

section \<open>A connection's thread\<close>

text \<open>What a thread does once the keys have been listed: answer, or route a request again.\<close>

datatype after_refresh = ForList | ForSign bytes bytes

text \<open>
  A thread between its steps: waiting for a message, for the gate with the data to sign, at
  its turn (not begun, begun, or ended with the event to log), or at the place in another
  message that its next critical section is in.
\<close>

datatype conn_pc =
    Reading
  | Gated bytes
  | Starting bytes
  | Turning bytes
  | Closing event bytes
  | Refreshing after_refresh
  | Commenting merged after_refresh
  | Routing bytes bytes
  | Rerouting bytes bytes
  | Routed bytes bytes "nat option"
  | Forwarding bytes bytes "nat option" "string option"
  | Logging event bytes
  | Answering bytes

record conn =
  cn_who :: attribution
  cn_bound :: "string option"
  cn_pc :: conn_pc
  cn_sent :: "bytes list"

record threads =
  th_world :: world
  th_gate :: "nat option"
  th_conns :: "nat \<rightharpoonup> conn"

section \<open>A message\<close>

text \<open>Where a message takes its thread first, and the host the connection is bound to.\<close>

definition begin_extension ::
  "config \<Rightarrow> outside \<Rightarrow> readings \<Rightarrow> attribution \<Rightarrow> bytes \<Rightarrow> string option \<Rightarrow> conn_pc \<times> string option" where
  "begin_extension cfg ou rd who payload bound =
    (let (nm, r) = reader_string (skip_u8 payload);
         ext = (case nm of None \<Rightarrow> [] | Some n \<Rightarrow> from_utf8_lossy n)
     in if ext = session_bind then
          (case fst (reader_string r) of
             None \<Rightarrow> (Answering [FAILURE], bound)
           | Some hostkey \<Rightarrow>
               let fp = fingerprint ou hostkey
               in if bound \<noteq> Some fp then
                    (if cf_log_lists cfg then Logging (bind_event who rd fp) [FAILURE]
                     else Answering [FAILURE], Some fp)
                  else (Answering [FAILURE], bound))
        else (Answering [FAILURE], bound))"

definition begin_message ::
  "config \<Rightarrow> outside \<Rightarrow> readings \<Rightarrow> attribution \<Rightarrow> bytes \<Rightarrow> string option \<Rightarrow> conn_pc \<times> string option" where
  "begin_message cfg ou rd who payload bound =
    (let tag = payload ! 0
     in if tag = REQUEST_IDENTITIES then (Refreshing ForList, bound)
        else if tag = SIGN_REQUEST then
          (case sign_blob payload of
             None \<Rightarrow> (Answering [FAILURE], bound)
           | Some blob \<Rightarrow>
               if map_option ssh_public_blob (cf_enclave cfg) = Some blob
               then (Gated (sign_data payload), bound)
               else (Routing blob payload, bound))
        else if tag = EXTENSION then begin_extension cfg ou rd who payload bound
        else (Answering [FAILURE], bound))"

text \<open>What follows a listing: the answer, logged or not.\<close>

definition answer_list :: "config \<Rightarrow> readings \<Rightarrow> attribution \<Rightarrow> merged \<Rightarrow> conn_pc" where
  "answer_list cfg rd who m =
    (let ids = (case cf_enclave cfg of
                  None \<Rightarrow> mg_ids m | Some e \<Rightarrow> (ssh_public_blob e, en_comment e) # mg_ids m)
     in if cf_log_lists cfg \<and> \<not> is_self_probe who
        then Logging (list_event who rd (length ids)) (identities_answer ids)
        else Answering (identities_answer ids))"

text \<open>A request that is routed, or not, is passed on and its outcome logged.\<close>

definition forwarded ::
  "config \<Rightarrow> outside \<Rightarrow> readings \<Rightarrow> conn \<Rightarrow> bytes \<Rightarrow> bytes \<Rightarrow> nat option \<Rightarrow> string option \<Rightarrow> conn_pc" where
  "forwarded cfg ou rd c blob payload idx comment =
    (case forward_sign ou (case idx of None \<Rightarrow> None | Some i \<Rightarrow> nth_opt (cf_upstreams cfg) i) payload of
       (reply, up_nm, outcome) \<Rightarrow>
         Logging (upstream_event ou rd (cn_who c) (cn_bound c) blob comment up_nm outcome) reply)"

text \<open>The step of a thread that is not about the gate: what it does to the daemon, and where it goes.\<close>

fun plain_step ::
  "config \<Rightarrow> outside \<Rightarrow> readings \<Rightarrow> conn \<Rightarrow> daemon \<Rightarrow> (daemon \<times> conn_pc) option" where
  "plain_step cfg ou rd c d =
    (case cn_pc c of
       Refreshing k \<Rightarrow>
         (let m = merge_upstreams (ou_net ou) 0 (cf_upstreams cfg) merged_new
          in Some (d\<lparr>dm_routes := mg_routes m\<rparr>, Commenting m k))
     | Commenting m ForList \<Rightarrow> Some (d\<lparr>dm_comments := mg_comments m\<rparr>, answer_list cfg rd (cn_who c) m)
     | Commenting m (ForSign blob payload) \<Rightarrow>
         Some (d\<lparr>dm_comments := mg_comments m\<rparr>, Rerouting blob payload)
     | Routing blob payload \<Rightarrow>
         Some (d, case dm_routes d blob of
                    None \<Rightarrow> Refreshing (ForSign blob payload) | Some i \<Rightarrow> Routed blob payload (Some i))
     | Rerouting blob payload \<Rightarrow> Some (d, Routed blob payload (dm_routes d blob))
     | Routed blob payload idx \<Rightarrow>
         Some (d, Forwarding blob payload idx
           (case dm_comments d blob of None \<Rightarrow> None | Some cm \<Rightarrow> if cm = [] then None else Some cm))
     | Forwarding blob payload idx comment \<Rightarrow> Some (d, forwarded cfg ou rd c blob payload idx comment)
     | Logging ev reply \<Rightarrow> Some (log_event ou rd ev d, Answering reply)
     | _ \<Rightarrow> None)"

section \<open>The steps of the threads\<close>

text \<open>What the turn's last step leaves to answer: a signature when it was admitted.\<close>

definition turn_reply :: "world \<Rightarrow> world \<Rightarrow> bytes" where
  "turn_reply w w' =
    (case wd_signer w of
       Admitting n g p (Inr sig) scr \<Rightarrow> if wd_signer w' = Idle then sign_response sig else [FAILURE]
     | _ \<Rightarrow> [FAILURE])"

text \<open>
  A step of a connection. What the upstreams answer, the readings of a step and what a turn
  logs beside its answer are any; \<open>own_turn\<close> has them for a turn that nobody comes between. The
  own key is a sign-in key, as in \<open>Interleave\<close>.
\<close>

definition moved :: "nat \<Rightarrow> conn \<Rightarrow> conn_pc \<Rightarrow> threads \<Rightarrow> threads" where
  "moved i c pc t = t\<lparr>th_conns := (th_conns t)(i \<mapsto> c\<lparr>cn_pc := pc\<rparr>)\<rparr>"

definition with_daemon :: "daemon \<Rightarrow> threads \<Rightarrow> threads" where
  "with_daemon d t = t\<lparr>th_world := (th_world t)\<lparr>wd_daemon := d\<rparr>\<rparr>"

inductive conn_step ::
  "config \<Rightarrow> outside \<Rightarrow> enclave \<Rightarrow> sign_in_key \<Rightarrow> nat \<Rightarrow> threads \<Rightarrow> threads \<Rightarrow> bool"
  for cfg ou e key i where
  connects: "\<lbrakk>th_conns t i = None; conn_spawn (wd_daemon (th_world t)) = (True, d)\<rbrakk> \<Longrightarrow>
    conn_step cfg ou e key i t
      ((with_daemon d t)\<lparr>th_conns := (th_conns t)(i \<mapsto>
        \<lparr>cn_who = attribute (ou_os ou) fd, cn_bound = None, cn_pc = Reading, cn_sent = []\<rparr>)\<rparr>)"
| hangs_up: "\<lbrakk>th_conns t i = Some c; cn_pc c = Reading\<rbrakk> \<Longrightarrow>
    conn_step cfg ou e key i t
      ((with_daemon (conn_done (wd_daemon (th_world t))) t)\<lparr>th_conns := (th_conns t)(i := None)\<rparr>)"
| receives: "\<lbrakk>th_conns t i = Some c; cn_pc c = Reading; payload \<noteq> [];
      begin_message cfg ou rd (cn_who c) payload (cn_bound c) = (pc, bound)\<rbrakk> \<Longrightarrow>
    conn_step cfg ou e key i t (moved i (c\<lparr>cn_bound := bound\<rparr>) pc t)"
| plain: "\<lbrakk>th_conns t i = Some c;
      plain_step cfg (ou\<lparr>ou_net := nt\<rparr>) rd c (wd_daemon (th_world t)) = Some (d, pc)\<rbrakk> \<Longrightarrow>
    conn_step cfg ou e key i t (moved i c pc (with_daemon d t))"
| answers: "\<lbrakk>th_conns t i = Some c; cn_pc c = Answering reply\<rbrakk> \<Longrightarrow>
    conn_step cfg ou e key i t (moved i (c\<lparr>cn_sent := frame reply # cn_sent c\<rparr>) Reading t)"
| write_fails: "\<lbrakk>th_conns t i = Some c; cn_pc c = Answering reply\<rbrakk> \<Longrightarrow>
    conn_step cfg ou e key i t
      ((with_daemon (conn_done (wd_daemon (th_world t))) t)\<lparr>th_conns := (th_conns t)(i := None)\<rparr>)"
| takes_gate: "\<lbrakk>th_conns t i = Some c; cn_pc c = Gated data; th_gate t = None;
      \<not> watch_has_gate (wd_watch (th_world t))\<rbrakk> \<Longrightarrow>
    conn_step cfg ou e key i t ((moved i c (Starting data) t)\<lparr>th_gate := Some i\<rparr>)"
| starts: "\<lbrakk>th_conns t i = Some c; cn_pc c = Starting data;
      step cfg ou e key (th_world t) w; wd_watch w = wd_watch (th_world t); wd_signer w \<noteq> Idle\<rbrakk> \<Longrightarrow>
    conn_step cfg ou e key i t ((moved i c (Turning data) t)\<lparr>th_world := w\<rparr>)"
| turns: "\<lbrakk>th_conns t i = Some c; cn_pc c = Turning data;
      step cfg ou e key (th_world t) w; wd_watch w = wd_watch (th_world t);
      wd_signer w \<noteq> wd_signer (th_world t); wd_signer w \<noteq> Idle\<rbrakk> \<Longrightarrow>
    conn_step cfg ou e key i t (t\<lparr>th_world := w\<rparr>)"
| turn_ends: "\<lbrakk>th_conns t i = Some c; cn_pc c = Turning data;
      step cfg ou e key (th_world t) w; wd_watch w = wd_watch (th_world t);
      wd_signer w \<noteq> wd_signer (th_world t); wd_signer w = Idle\<rbrakk> \<Longrightarrow>
    conn_step cfg ou e key i t
      ((moved i c (Closing (own_event cfg ou e rd (cn_who c) (cn_bound c) p outcome)
        (turn_reply (th_world t) w)) t)\<lparr>th_world := w\<rparr>)"
| closes: "\<lbrakk>th_conns t i = Some c; cn_pc c = Closing ev reply\<rbrakk> \<Longrightarrow>
    conn_step cfg ou e key i t
      ((moved i c (Answering reply) (with_daemon (log_event ou rd ev (wd_daemon (th_world t))) t))
        \<lparr>th_gate := None\<rparr>)"

text \<open>The watch, which takes the gate only when no thread has it.\<close>

inductive watch_step ::
  "config \<Rightarrow> outside \<Rightarrow> enclave \<Rightarrow> sign_in_key \<Rightarrow> threads \<Rightarrow> threads \<Rightarrow> bool"
  for cfg ou e key where
  watches: "\<lbrakk>step cfg ou e key (th_world t) w; wd_signer w = wd_signer (th_world t);
      wd_watch w \<noteq> wd_watch (th_world t);
      watch_has_gate (wd_watch w) \<longrightarrow> watch_has_gate (wd_watch (th_world t)) \<or> th_gate t = None\<rbrakk> \<Longrightarrow>
    watch_step cfg ou e key t (t\<lparr>th_world := w\<rparr>)"

definition threads_step ::
  "config \<Rightarrow> outside \<Rightarrow> enclave \<Rightarrow> sign_in_key \<Rightarrow> threads \<Rightarrow> threads \<Rightarrow> bool" where
  "threads_step cfg ou e key t t' \<longleftrightarrow> watch_step cfg ou e key t t' \<or> (\<exists>i. conn_step cfg ou e key i t t')"

definition no_threads :: "daemon \<Rightarrow> threads" where
  "no_threads d = \<lparr>th_world = quiet d Idle 0 [], th_gate = None, th_conns = Map.empty\<rparr>"

inductive_cases conn_stepE: "conn_step cfg ou e key i t t'"
inductive_cases watch_stepE: "watch_step cfg ou e key t t'"

section \<open>One signer at a time\<close>

fun holds_gate :: "conn_pc \<Rightarrow> bool" where
  "holds_gate (Starting data) = True"
| "holds_gate (Turning data) = True"
| "holds_gate (Closing ev reply) = True"
| "holds_gate _ = False"

fun at_turn :: "conn_pc \<Rightarrow> bool" where
  "at_turn (Turning data) = True"
| "at_turn _ = False"

text \<open>
  The gate's holder is the one thread at its place in a turn; the signer of the shared world is
  at work exactly while that thread is in the middle of it; the watch does not have the gate
  then; and the daemon counts its connections.
\<close>

definition threads_ok :: "threads \<Rightarrow> bool" where
  "threads_ok t \<longleftrightarrow>
    (\<forall>i c. th_conns t i = Some c \<longrightarrow> (holds_gate (cn_pc c) \<longleftrightarrow> th_gate t = Some i)) \<and>
    (\<forall>i c. th_conns t i = Some c \<longrightarrow> at_turn (cn_pc c) \<longrightarrow> wd_signer (th_world t) \<noteq> Idle) \<and>
    (wd_signer (th_world t) \<noteq> Idle \<longrightarrow>
      (\<exists>i c. th_gate t = Some i \<and> th_conns t i = Some c \<and> at_turn (cn_pc c))) \<and>
    (\<forall>i. th_gate t = Some i \<longrightarrow> th_conns t i \<noteq> None \<and> \<not> watch_has_gate (wd_watch (th_world t))) \<and>
    finite (dom (th_conns t)) \<and> card (dom (th_conns t)) = dm_conns (wd_daemon (th_world t)) \<and>
    dm_conns (wd_daemon (th_world t)) \<le> MAX_CONNS"

lemma step_conns:
  assumes "step cfg ou e key w w'" and "wd_signer w' \<noteq> wd_signer w \<or> wd_watch w' \<noteq> wd_watch w"
  shows "dm_conns (wd_daemon w') = dm_conns (wd_daemon w)"
  using assms
  by (cases rule: step.cases)
     (auto simp: begin_look_def end_step_def forget_all_step_def forget_step_def own_plan_def own_admit_def
       split: prod.splits if_splits)

lemma plain_step_daemon:
  assumes "plain_step cfg ou rd c d = Some (d', pc)"
  shows "dm_gate d' = dm_gate d" and "dm_looked d' = dm_looked d" and "dm_cache d' = dm_cache d"
    and "dm_conns d' = dm_conns d" and "\<not> holds_gate (cn_pc c)" and "\<not> holds_gate pc"
  using assms
  by (auto simp: Let_def log_event_def answer_list_def forwarded_def split: conn_pc.splits after_refresh.splits
      option.splits prod.splits if_splits)

declare plain_step.simps [simp del]

lemma begin_message_pc:
  "begin_message cfg ou rd who payload bound = (pc, bound') \<Longrightarrow> \<not> holds_gate pc"
  by (auto simp: begin_message_def begin_extension_def Let_def split: option.splits prod.splits if_splits)

lemma at_turn_holds: "at_turn pc \<Longrightarrow> holds_gate pc"
  by (cases pc) auto

lemma conns_card:
  assumes "finite (dom m)"
  shows "m i = Some c \<Longrightarrow> card (dom (m(i \<mapsto> c'))) = card (dom m)"
    and "m i = Some c \<Longrightarrow> card (dom (m(i := None))) = card (dom m) - 1"
    and "m i = None \<Longrightarrow> card (dom (m(i \<mapsto> c'))) = card (dom m) + 1"
  using assms by (auto simp: insert_absorb domI domIff card_Diff_singleton)

text \<open>A thread that is not at the gate goes on; nobody else is concerned.\<close>

lemma threads_ok_moves:
  assumes "threads_ok t" and "th_conns t i = Some c" and "\<not> holds_gate (cn_pc c)" and "\<not> holds_gate (cn_pc c')"
    and "dm_conns d = dm_conns (wd_daemon (th_world t))"
  shows "threads_ok ((with_daemon d t)\<lparr>th_conns := (th_conns t)(i \<mapsto> c')\<rparr>)"
proof -
  have "\<not> at_turn (cn_pc c')" "\<not> at_turn (cn_pc c)" using assms(3,4) at_turn_holds by blast+
  moreover have "th_gate t \<noteq> Some i" using assms(1-3) by (auto simp: threads_ok_def)
  ultimately show ?thesis
    using assms conns_card(1) [where m = "th_conns t" and i = i and c = c and c' = c']
    by (auto simp: threads_ok_def with_daemon_def)
qed

text \<open>A thread that is not at the gate goes.\<close>

lemma threads_ok_leaves:
  assumes "threads_ok t" and "th_conns t i = Some c" and "\<not> holds_gate (cn_pc c)"
  shows "threads_ok ((with_daemon (conn_done (wd_daemon (th_world t))) t)\<lparr>th_conns := (th_conns t)(i := None)\<rparr>)"
proof -
  have "\<not> at_turn (cn_pc c)" using assms(3) at_turn_holds by blast
  moreover have "th_gate t \<noteq> Some i" using assms by (auto simp: threads_ok_def)
  ultimately show ?thesis
    using assms conns_card(2) [where m = "th_conns t" and i = i and c = c]
    by (auto simp: threads_ok_def with_daemon_def conn_done_def)
qed

text \<open>The holder of the gate goes on, with the world it makes.\<close>

lemma threads_ok_holder:
  assumes "threads_ok t" and "th_conns t i = Some c" and "holds_gate (cn_pc c)" and "holds_gate (cn_pc c')"
    and "at_turn (cn_pc c') \<longleftrightarrow> wd_signer w \<noteq> Idle"
    and "wd_watch w = wd_watch (th_world t)" and "dm_conns (wd_daemon w) = dm_conns (wd_daemon (th_world t))"
  shows "threads_ok (t\<lparr>th_conns := (th_conns t)(i \<mapsto> c'), th_world := w\<rparr>)"
proof -
  have g: "th_gate t = Some i" using assms(1-3) by (auto simp: threads_ok_def)
  then have n: "\<not> at_turn (cn_pc b)" if "th_conns t j = Some b" "j \<noteq> i" for j b
    using assms(1) that at_turn_holds [of "cn_pc b"] by (auto simp: threads_ok_def)
  show ?thesis
    using assms g n conns_card(1) [where m = "th_conns t" and i = i and c = c and c' = c']
    by (auto simp: threads_ok_def split: if_splits)
qed

lemma holder_is: "threads_ok t \<Longrightarrow> th_conns t i = Some c \<Longrightarrow> holds_gate (cn_pc c) \<longleftrightarrow> th_gate t = Some i"
  by (simp add: threads_ok_def)

lemma holder_works:
  assumes "threads_ok t" and "th_conns t i = Some c" and "holds_gate (cn_pc c)"
  shows "wd_signer (th_world t) \<noteq> Idle \<longleftrightarrow> at_turn (cn_pc c)"
proof
  assume "wd_signer (th_world t) \<noteq> Idle"
  with assms(1) obtain j b where "th_gate t = Some j" "th_conns t j = Some b" "at_turn (cn_pc b)"
    by (auto simp: threads_ok_def)
  moreover have "th_gate t = Some i" using assms by (auto simp: threads_ok_def)
  ultimately show "at_turn (cn_pc c)" using assms(2) by simp
next
  assume "at_turn (cn_pc c)"
  then show "wd_signer (th_world t) \<noteq> Idle" using assms(1,2) by (auto simp: threads_ok_def)
qed

lemma conn_step_ok:
  assumes "conn_step cfg ou e key i t t'" and ok: "threads_ok t"
  shows "threads_ok t'"
  using assms(1)
proof cases
  case (connects d fd)
  let ?t = "(with_daemon d t)\<lparr>th_conns := (th_conns t)(i \<mapsto>
    \<lparr>cn_who = attribute (ou_os ou) fd, cn_bound = None, cn_pc = Reading, cn_sent = []\<rparr>)\<rparr>"
  have n: "th_gate t \<noteq> Some i" using ok connects(2) by (auto simp: threads_ok_def)
  have d: "dm_conns d = dm_conns (wd_daemon (th_world t)) + 1" "dm_conns (wd_daemon (th_world t)) < MAX_CONNS"
    using connects(3) by (auto simp: conn_spawn_def split: if_splits)
  have "\<exists>j c. th_gate ?t = Some j \<and> th_conns ?t j = Some c \<and> at_turn (cn_pc c)"
    if work: "wd_signer (th_world t) \<noteq> Idle"
  proof -
    from ok work obtain j c where j: "th_gate t = Some j" "th_conns t j = Some c" "at_turn (cn_pc c)"
      by (auto simp: threads_ok_def)
    with n have "j \<noteq> i" by auto
    with j show ?thesis by (intro exI [of _ j] exI [of _ c]) (simp add: with_daemon_def)
  qed
  with ok n d conns_card(3) [where m = "th_conns t" and i = i] connects(1,2) show ?thesis
    by (auto simp: threads_ok_def with_daemon_def)
next
  case (hangs_up c)
  with threads_ok_leaves [OF ok hangs_up(2)] show ?thesis by simp
next
  case (receives c payload rd pc bound)
  from threads_ok_moves [OF ok receives(2), of "c\<lparr>cn_bound := bound, cn_pc := pc\<rparr>" "wd_daemon (th_world t)"]
    begin_message_pc [OF receives(5)] receives show ?thesis by (simp add: moved_def with_daemon_def)
next
  case (plain c nt rd d pc)
  from threads_ok_moves [OF ok plain(2), of "c\<lparr>cn_pc := pc\<rparr>" d] plain_step_daemon [OF plain(3)] plain
  show ?thesis by (simp add: moved_def with_daemon_def)
next
  case (answers c reply)
  from threads_ok_moves [OF ok answers(2), of "c\<lparr>cn_sent := frame reply # cn_sent c, cn_pc := Reading\<rparr>"
      "wd_daemon (th_world t)"] answers
  show ?thesis by (simp add: moved_def with_daemon_def)
next
  case (write_fails c reply)
  with threads_ok_leaves [OF ok write_fails(2)] show ?thesis by simp
next
  case (takes_gate c data)
  have "wd_signer (th_world t) = Idle" using ok takes_gate(4) by (auto simp: threads_ok_def)
  with takes_gate ok conns_card(1) [where m = "th_conns t" and i = i and c = c and c' = "c\<lparr>cn_pc := Starting data\<rparr>"]
  show ?thesis by (auto simp: threads_ok_def moved_def)
next
  case (starts c data w)
  then have "wd_signer w \<noteq> wd_signer (th_world t)" using holder_works [OF ok starts(2)] by simp
  with step_conns [OF starts(4)] threads_ok_holder [OF ok starts(2), of "c\<lparr>cn_pc := Turning data\<rparr>" w] starts
  show ?thesis by (simp add: moved_def)
next
  case (turns c data w)
  have u: "(th_conns t)(i \<mapsto> c) = th_conns t" using turns(2) by (simp add: map_upd_triv)
  from step_conns [OF turns(4)] threads_ok_holder [OF ok turns(2), of c w] turns
  show ?thesis by (simp add: u)
next
  case (turn_ends c data w rd p outcome)
  with step_conns [OF turn_ends(4)]
    threads_ok_holder [OF ok turn_ends(2), of "c\<lparr>cn_pc := Closing (own_event cfg ou e rd (cn_who c) (cn_bound c) p outcome)
      (turn_reply (th_world t) w)\<rparr>" w]
  show ?thesis by (simp add: moved_def)
next
  case (closes c ev reply rd)
  have g: "th_gate t = Some i" using holder_is [OF ok closes(2)] closes(3) by simp
  have "wd_signer (th_world t) = Idle" using holder_works [OF ok closes(2)] closes(3) by simp
  moreover have "\<not> holds_gate (cn_pc b)" if "th_conns t j = Some b" "j \<noteq> i" for j b
    using ok that g by (auto simp: threads_ok_def)
  moreover have "finite (dom (th_conns t))" "card (dom (th_conns t)) = dm_conns (wd_daemon (th_world t))"
    "dm_conns (wd_daemon (th_world t)) \<le> MAX_CONNS" "dm_conns (log_event ou rd ev (wd_daemon (th_world t))) =
      dm_conns (wd_daemon (th_world t))"
    using ok by (simp_all add: threads_ok_def log_event_def)
  ultimately show ?thesis
    using closes(1) at_turn_holds conns_card(1) [where m = "th_conns t", OF _ closes(2)]
    by (auto simp: threads_ok_def moved_def with_daemon_def split: if_splits)
qed

lemma watch_step_ok:
  assumes "watch_step cfg ou e key t t'" and ok: "threads_ok t"
  shows "threads_ok t'"
  using assms(1)
proof cases
  case (watches w)
  with step_conns [OF watches(2)] ok show ?thesis by (auto simp: threads_ok_def)
qed

section \<open>Many threads are one signer and the watch\<close>

lemma step_bystands:
  assumes "dm_gate d = dm_gate (wd_daemon w)" "dm_looked d = dm_looked (wd_daemon w)"
    "dm_cache d = dm_cache (wd_daemon w)"
  shows "step cfg ou e key w (w\<lparr>wd_daemon := d\<rparr>)"
  using assms by (rule step.bystands)

text \<open>A step of any thread is a step of the model with one signer, or leaves its world as it was.\<close>

lemma conn_step_simulated:
  assumes "conn_step cfg ou e key i t t'"
  shows "step cfg ou e key (th_world t) (th_world t')"
  using assms
proof cases
  case (connects d fd)
  then have "dm_gate d = dm_gate (wd_daemon (th_world t))" "dm_looked d = dm_looked (wd_daemon (th_world t))"
    "dm_cache d = dm_cache (wd_daemon (th_world t))"
    by (auto simp: conn_spawn_def split: if_splits)
  from step_bystands [OF this] connects(1) show ?thesis by (simp add: with_daemon_def)
next
  case (plain c nt rd d pc)
  from step_bystands [OF plain_step_daemon(1-3) [OF plain(3)]] plain(1) show ?thesis
    by (simp add: moved_def with_daemon_def)
next
  case (closes c ev reply rd)
  show ?thesis unfolding closes(1)
    using step_bystands [of "log_event ou rd ev (wd_daemon (th_world t))" "th_world t" cfg ou e key]
    by (simp add: moved_def with_daemon_def log_event_def)
qed (use step_bystands [of "wd_daemon (th_world t)" "th_world t" cfg ou e key]
        step_bystands [of "conn_done (wd_daemon (th_world t))" "th_world t" cfg ou e key]
      in \<open>simp_all add: moved_def with_daemon_def conn_done_def\<close>)

lemma threads_run_ok:
  assumes "(threads_step cfg ou e key)\<^sup>*\<^sup>* t t'" and "reachable cfg ou e key (th_world t)" and "threads_ok t"
  shows "reachable cfg ou e key (th_world t') \<and> threads_ok t'"
  using assms
proof (induction rule: rtranclp_induct)
  case (step t1 t2)
  then have r: "reachable cfg ou e key (th_world t1)" "threads_ok t1" by simp_all
  from step.hyps(2) consider "watch_step cfg ou e key t1 t2" | i where "conn_step cfg ou e key i t1 t2"
    by (auto simp: threads_step_def)
  then show ?case
  proof cases
    case 1
    then have "step cfg ou e key (th_world t1) (th_world t2)" by (cases rule: watch_step.cases) simp
    with reachable.next_step [OF r(1)] watch_step_ok [OF 1 r(2)] show ?thesis by blast
  next
    case 2
    with reachable.next_step [OF r(1) conn_step_simulated] conn_step_ok [OF _ r(2)] show ?thesis by blast
  qed
qed simp

lemma threads_reach:
  assumes "initial (quiet d Idle 0 [])" and "dm_conns d = 0"
    and "(threads_step cfg ou e key)\<^sup>*\<^sup>* (no_threads d) t"
  shows "reachable cfg ou e key (th_world t) \<and> threads_ok t"
proof (rule threads_run_ok [OF assms(3)])
  show "threads_ok (no_threads d)" using assms(2) by (simp add: threads_ok_def no_threads_def)
  show "reachable cfg ou e key (th_world (no_threads d))"
    using reachable.base [OF assms(1)] by (simp add: no_threads_def)
qed

lemma test_initial: "initial (quiet test_daemon Idle 0 [])"
  by (simp add: initial_def test_daemon_def empty_cache_def cache_holds_def)

text \<open>A connection has come.\<close>

definition one_thread :: threads where
  "one_thread = (no_threads (test_daemon\<lparr>dm_conns := 1\<rparr>))\<lparr>th_conns := [0 \<mapsto>
    \<lparr>cn_who = attribute (ou_os test_outside) 3, cn_bound = None, cn_pc = Reading, cn_sent = []\<rparr>]\<rparr>"

lemma one_connection:
  "(threads_step test_config test_outside test_enclave example_key)\<^sup>*\<^sup>* (no_threads test_daemon) one_thread"
proof -
  have "conn_spawn (wd_daemon (th_world (no_threads test_daemon))) = (True, test_daemon\<lparr>dm_conns := 1\<rparr>)"
    by (simp add: no_threads_def conn_spawn_def MAX_CONNS_def test_daemon_def)
  from conn_step.connects [OF _ this, of 0 test_config test_outside test_enclave example_key 3]
  show ?thesis
    by (intro r_into_rtranclp) (auto simp: threads_step_def one_thread_def no_threads_def with_daemon_def)
qed

text \<open>
  C5: However many connections there are and however their threads, the screen watch and the
  clients' comings and goings interleave, the sign gate lets one request in at a time and
  never beside the watch, and what the daemon then goes through is a run of the model of one
  signer and the watch: so its theorems hold of all of them, that no signature spans a
  sign-out among them. The count of connections is that of the threads, at most 512.
\<close>

theorem threads_refine_one_signer:
  assumes "initial (quiet d Idle 0 [])" and "dm_conns d = 0"
    and "(threads_step cfg ou e key)\<^sup>*\<^sup>* (no_threads d) t"
  shows "reachable cfg ou e key (th_world t) \<and>
    (\<forall>i j a b. th_conns t i = Some a \<and> th_conns t j = Some b \<and> holds_gate (cn_pc a) \<and> holds_gate (cn_pc b) \<longrightarrow>
      i = j \<and> \<not> watch_has_gate (wd_watch (th_world t))) \<and>
    (wd_signer (th_world t) \<noteq> Idle \<longrightarrow> (\<exists>i a. th_conns t i = Some a \<and> at_turn (cn_pc a))) \<and>
    card (dom (th_conns t)) = dm_conns (wd_daemon (th_world t)) \<and> card (dom (th_conns t)) \<le> MAX_CONNS"
  using threads_reach [OF assms] by (fastforce simp: threads_ok_def)

theorem threads_refine_one_signer_witness:
  "reachable test_config test_outside test_enclave example_key (th_world one_thread) \<and>
    card (dom (th_conns one_thread)) = 1"
  using threads_refine_one_signer [OF test_initial _ one_connection] by (simp add: test_daemon_def one_thread_def no_threads_def)

section \<open>Nobody waits for a signature but another signature\<close>

text \<open>A thread at a place, with the daemon it has made of it; everything else is as in \<open>t\<close>.\<close>

definition placed :: "nat \<Rightarrow> conn \<Rightarrow> daemon \<Rightarrow> threads \<Rightarrow> threads" where
  "placed i c d t = (with_daemon d t)\<lparr>th_conns := (th_conns t)(i \<mapsto> c)\<rparr>"

lemma placed_simps [simp]:
  "th_conns (placed i c d t) i = Some c" "wd_daemon (th_world (placed i c d t)) = d"
  "moved i c' pc (with_daemon d' (placed i c d t)) = placed i (c'\<lparr>cn_pc := pc\<rparr>) d' t"
  "moved i c' pc (placed i c d t) = placed i (c'\<lparr>cn_pc := pc\<rparr>) d t"
  by (simp_all add: placed_def with_daemon_def moved_def)

lemma placed_here: "th_conns t i = Some c \<Longrightarrow> t = placed i c (wd_daemon (th_world t)) t"
  by (simp add: placed_def with_daemon_def map_upd_triv)

lemma plain_placed:
  assumes "plain_step cfg ou rd c d = Some (d', pc)"
  shows "conn_step cfg ou e key i (placed i c d t) (placed i (c\<lparr>cn_pc := pc\<rparr>) d' t)"
proof -
  have "conn_step cfg ou e key i (placed i c d t) (moved i c pc (with_daemon d' (placed i c d t)))"
    by (rule conn_step.plain [where nt = "ou_net ou" and rd = rd]) (simp_all add: assms)
  then show ?thesis by simp
qed

lemma plain_run:
  assumes "plain_step cfg ou rd c d = Some (d', pc)"
    and "(conn_step cfg ou e key i)\<^sup>*\<^sup>* (placed i (c\<lparr>cn_pc := pc\<rparr>) d' t) t'"
  shows "(conn_step cfg ou e key i)\<^sup>*\<^sup>* (placed i c d t) t'"
  using plain_placed [OF assms(1)] assms(2) by (rule converse_rtranclp_into_rtranclp)

text \<open>The answer written, and the thread waiting again.\<close>

definition said :: "bytes \<Rightarrow> conn \<Rightarrow> conn" where
  "said reply c = c\<lparr>cn_pc := Reading, cn_sent := frame reply # cn_sent c\<rparr>"

lemma said_pc [simp]: "said reply (c\<lparr>cn_pc := pc\<rparr>) = said reply c"
  by (simp add: said_def)

lemma answer_placed:
  assumes "cn_pc c = Answering reply"
  shows "(conn_step cfg ou e key i)\<^sup>*\<^sup>* (placed i c d t) (placed i (said reply c) d t)"
proof -
  have "conn_step cfg ou e key i (placed i c d t)
      (moved i (c\<lparr>cn_sent := frame reply # cn_sent c\<rparr>) Reading (placed i c d t))"
    by (rule conn_step.answers) (simp_all add: assms)
  moreover have "c\<lparr>cn_sent := frame reply # cn_sent c, cn_pc := Reading\<rparr> = said reply c"
    by (simp add: said_def)
  ultimately show ?thesis by (metis placed_simps(4) r_into_rtranclp)
qed

lemma log_placed:
  assumes "cn_pc c = Logging ev reply"
  shows "(conn_step cfg ou e key i)\<^sup>*\<^sup>* (placed i c d t) (placed i (said reply c) (log_event ou rd ev d) t)"
proof (rule plain_run)
  show "plain_step cfg ou rd c d = Some (log_event ou rd ev d, Answering reply)"
    using assms by (simp add: plain_step.simps)
  show "(conn_step cfg ou e key i)\<^sup>*\<^sup>* (placed i (c\<lparr>cn_pc := Answering reply\<rparr>) (log_event ou rd ev d) t)
      (placed i (said reply c) (log_event ou rd ev d) t)"
    using answer_placed [of "c\<lparr>cn_pc := Answering reply\<rparr>" reply] by simp
qed

text \<open>A listing, from the place it starts; what it leaves, and where it leaves its thread.\<close>

lemma refresh_placed:
  assumes "cn_pc c = Refreshing k"
    and "(conn_step cfg ou e key i)\<^sup>*\<^sup>*
      (placed i (c\<lparr>cn_pc := (case k of
          ForList \<Rightarrow> answer_list cfg rd (cn_who c) (merge_upstreams (ou_net ou) 0 (cf_upstreams cfg) merged_new)
        | ForSign blob payload \<Rightarrow> Rerouting blob payload)\<rparr>) (snd (refresh_identities cfg ou d)) t) t'"
  shows "(conn_step cfg ou e key i)\<^sup>*\<^sup>* (placed i c d t) t'"
proof (rule plain_run)
  let ?m = "merge_upstreams (ou_net ou) 0 (cf_upstreams cfg) merged_new"
  show "plain_step cfg ou rd c d = Some (d\<lparr>dm_routes := mg_routes ?m\<rparr>, Commenting ?m k)"
    using assms(1) by (simp add: plain_step.simps Let_def)
  show "(conn_step cfg ou e key i)\<^sup>*\<^sup>*
      (placed i (c\<lparr>cn_pc := Commenting ?m k\<rparr>) (d\<lparr>dm_routes := mg_routes ?m\<rparr>) t) t'"
  proof (rule plain_run)
    show "plain_step cfg ou rd (c\<lparr>cn_pc := Commenting ?m k\<rparr>) (d\<lparr>dm_routes := mg_routes ?m\<rparr>) =
      Some (snd (refresh_identities cfg ou d), case k of
          ForList \<Rightarrow> answer_list cfg rd (cn_who c) ?m | ForSign blob payload \<Rightarrow> Rerouting blob payload)"
      by (cases k) (simp_all add: plain_step.simps refresh_identities_def Let_def)
  qed (use assms(2) in simp)
qed

lemma list_placed:
  assumes "cn_pc c = Refreshing ForList"
    and "handle_request_identities cfg ou rd (cn_who c) d = (reply, d')"
  shows "(conn_step cfg ou e key i)\<^sup>*\<^sup>* (placed i c d t) (placed i (said reply c) d' t)"
proof (rule refresh_placed [OF assms(1), where rd = rd])
  let ?m = "merge_upstreams (ou_net ou) 0 (cf_upstreams cfg) merged_new"
  define d1 where "d1 = snd (refresh_identities cfg ou d)"
  define ids where "ids = (case cf_enclave cfg of
    None \<Rightarrow> mg_ids ?m | Some e \<Rightarrow> (ssh_public_blob e, en_comment e) # mg_ids ?m)"
  have d': "reply = identities_answer ids"
      "d' = (if cf_log_lists cfg \<and> \<not> is_self_probe (cn_who c)
        then log_event ou rd (list_event (cn_who c) rd (length ids)) d1 else d1)"
    using assms(2) by (auto simp: handle_request_identities_def refresh_identities_def ids_def d1_def Let_def)
  let ?ev = "list_event (cn_who c) rd (length ids)"
  have "(conn_step cfg ou e key i)\<^sup>*\<^sup>* (placed i (c\<lparr>cn_pc := answer_list cfg rd (cn_who c) ?m\<rparr>) d1 t)
      (placed i (said reply c) d' t)"
  proof (cases "cf_log_lists cfg \<and> \<not> is_self_probe (cn_who c)")
    case True
    then have "answer_list cfg rd (cn_who c) ?m = Logging ?ev reply"
      by (simp add: answer_list_def ids_def d'(1) Let_def)
    then show ?thesis
      using True log_placed [of "c\<lparr>cn_pc := Logging ?ev reply\<rparr>" ?ev reply cfg ou e key i d1 t rd] by (simp add: d'(2))
  next
    case False
    then have "answer_list cfg rd (cn_who c) ?m = Answering reply"
      by (auto simp: answer_list_def ids_def d'(1) Let_def)
    then show ?thesis
      using False answer_placed [of "c\<lparr>cn_pc := Answering reply\<rparr>" reply cfg ou e key i d1 t] by (auto simp: d'(2))
  qed
  then show "(conn_step cfg ou e key i)\<^sup>*\<^sup>* (placed i (c\<lparr>cn_pc := (case ForList of
      ForList \<Rightarrow> answer_list cfg rd (cn_who c) ?m | ForSign blob payload \<Rightarrow> Rerouting blob payload)\<rparr>)
      (snd (refresh_identities cfg ou d)) t) (placed i (said reply c) d' t)"
    by (simp add: d1_def)
qed

text \<open>A request for an upstream's key, from the first look at the routes or from the second.\<close>

definition route_comment :: "daemon \<Rightarrow> bytes \<Rightarrow> string option" where
  "route_comment d blob =
    (case dm_comments d blob of None \<Rightarrow> None | Some cm \<Rightarrow> if cm = [] then None else Some cm)"

lemma routed_placed:
  assumes "cn_pc c = Routed blob payload idx"
    and "forward_sign ou (case idx of None \<Rightarrow> None | Some i \<Rightarrow> nth_opt (cf_upstreams cfg) i) payload =
      (reply, up, outcome)"
  shows "(conn_step cfg ou e key i)\<^sup>*\<^sup>* (placed i c d t)
    (placed i (said reply c) (log_event ou rd
      (upstream_event ou rd (cn_who c) (cn_bound c) blob (route_comment d blob) up outcome) d) t)"
proof (rule plain_run)
  let ?cm = "route_comment d blob"
  let ?ev = "upstream_event ou rd (cn_who c) (cn_bound c) blob ?cm up outcome"
  show "plain_step cfg ou rd c d = Some (d, Forwarding blob payload idx ?cm)"
    using assms(1) by (simp add: plain_step.simps route_comment_def)
  show "(conn_step cfg ou e key i)\<^sup>*\<^sup>* (placed i (c\<lparr>cn_pc := Forwarding blob payload idx ?cm\<rparr>) d t)
      (placed i (said reply c) (log_event ou rd ?ev d) t)"
  proof (rule plain_run)
    show "plain_step cfg ou rd (c\<lparr>cn_pc := Forwarding blob payload idx ?cm\<rparr>) d = Some (d, Logging ?ev reply)"
      by (simp add: plain_step.simps forwarded_def assms(2))
  qed (use log_placed [of "c\<lparr>cn_pc := Logging ?ev reply\<rparr>" ?ev reply cfg ou e key i d t rd] in simp)
qed

lemma upstream_placed:
  assumes "cn_pc c = Routing blob payload"
    and "handle_sign_upstream cfg ou rd (cn_who c) (cn_bound c) blob payload d = (reply, d')"
  shows "(conn_step cfg ou e key i)\<^sup>*\<^sup>* (placed i c d t) (placed i (said reply c) d' t)"
proof -
  define d1 where "d1 = (if dm_routes d blob = None then snd (refresh_identities cfg ou d) else d)"
  obtain up outcome where f: "forward_sign ou (case dm_routes d1 blob of None \<Rightarrow> None
      | Some i \<Rightarrow> nth_opt (cf_upstreams cfg) i) payload = (reply, up, outcome)"
    and d': "d' = log_event ou rd
      (upstream_event ou rd (cn_who c) (cn_bound c) blob (route_comment d1 blob) up outcome) d1"
    using assms(2) unfolding handle_sign_upstream_def d1_def [symmetric] Let_def route_comment_def
    by (auto split: prod.splits)
  have end_run: "(conn_step cfg ou e key i)\<^sup>*\<^sup>* (placed i (c\<lparr>cn_pc := Routed blob payload (dm_routes d1 blob)\<rparr>) d1 t)
      (placed i (said reply c) d' t)"
    using routed_placed [of "c\<lparr>cn_pc := Routed blob payload (dm_routes d1 blob)\<rparr>", OF _ f, where rd = rd and d = d1 and t = t and i = i and e = e and key = key]
    by (simp add: d')
  show ?thesis
  proof (cases "dm_routes d blob")
    case None
    have "(conn_step cfg ou e key i)\<^sup>*\<^sup>* (placed i (c\<lparr>cn_pc := Refreshing (ForSign blob payload)\<rparr>) d t)
        (placed i (said reply c) d' t)"
    proof (rule refresh_placed)
      have "(conn_step cfg ou e key i)\<^sup>*\<^sup>* (placed i (c\<lparr>cn_pc := Rerouting blob payload\<rparr>) d1 t)
          (placed i (said reply c) d' t)"
        by (rule plain_run [where rd = rd]) (use end_run in \<open>simp_all add: plain_step.simps\<close>)
      then show "(conn_step cfg ou e key i)\<^sup>*\<^sup>*
          (placed i ((c\<lparr>cn_pc := Refreshing (ForSign blob payload)\<rparr>)\<lparr>cn_pc := (case ForSign blob payload of
             ForList \<Rightarrow> answer_list cfg rd (cn_who (c\<lparr>cn_pc := Refreshing (ForSign blob payload)\<rparr>))
               (merge_upstreams (ou_net ou) 0 (cf_upstreams cfg) merged_new)
           | ForSign blob payload \<Rightarrow> Rerouting blob payload)\<rparr>) (snd (refresh_identities cfg ou d)) t)
          (placed i (said reply c) d' t)"
        by (simp add: d1_def None)
    qed simp
    then show ?thesis
      by (rule plain_run [where rd = rd, rotated]) (simp add: plain_step.simps assms(1) None)
  next
    case (Some j)
    then show ?thesis
      by (intro plain_run [where rd = rd, OF _ end_run]) (simp add: plain_step.simps assms(1) d1_def)
  qed
qed

text \<open>A message that does not ask for a signature of the daemon's own key.\<close>

definition wants_gate :: "config \<Rightarrow> bytes \<Rightarrow> bool" where
  "wants_gate cfg payload \<longleftrightarrow> payload ! 0 = SIGN_REQUEST \<and> sign_blob payload \<noteq> None \<and>
    map_option ssh_public_blob (cf_enclave cfg) = sign_blob payload"

lemma extension_placed:
  assumes "begin_extension cfg ou rd (cn_who c) payload bound = (pc, bound')" and "cn_pc c = pc"
    and "handle_extension cfg ou rd (cn_who c) payload bound d = (reply, b, d')"
  shows "b = bound' \<and> (conn_step cfg ou e key i)\<^sup>*\<^sup>* (placed i c d t) (placed i (said reply c) d' t)"
proof -
  have "b = bound' \<and> (pc = Answering reply \<and> d' = d \<or> (\<exists>ev. pc = Logging ev reply \<and> d' = log_event ou rd ev d))"
    using assms(1,3) unfolding begin_extension_def handle_extension_def Let_def
    by (auto split: prod.splits option.splits if_splits)
  with answer_placed log_placed assms(2) show ?thesis by blast
qed

lemma message_placed:
  assumes "begin_message cfg ou rd (cn_who c) payload (cn_bound c) = (pc, bound')" and "\<not> wants_gate cfg payload"
    and "dispatch cfg ou rd (cn_who c) payload (cn_bound c) d = (reply, b, d')"
  shows "b = bound' \<and> (conn_step cfg ou e key i)\<^sup>*\<^sup>* (placed i (c\<lparr>cn_bound := b, cn_pc := pc\<rparr>) d t)
    (placed i (said reply (c\<lparr>cn_bound := b\<rparr>)) d' t)"
proof -
  let ?c = "c\<lparr>cn_bound := b, cn_pc := pc\<rparr>"
  let ?run = "\<lambda>reply d'. (conn_step cfg ou e key i)\<^sup>*\<^sup>* (placed i ?c d t) (placed i (said reply ?c) d' t)"
  consider "payload ! 0 = REQUEST_IDENTITIES" | "payload ! 0 = SIGN_REQUEST" | "payload ! 0 = EXTENSION"
    | "payload ! 0 \<noteq> REQUEST_IDENTITIES" "payload ! 0 \<noteq> SIGN_REQUEST" "payload ! 0 \<noteq> EXTENSION" by blast
  then have "b = bound' \<and> ?run reply d'"
  proof cases
    case 1
    then have "pc = Refreshing ForList" "b = cn_bound c" "bound' = cn_bound c"
      and h: "handle_request_identities cfg ou rd (cn_who c) d = (reply, d')"
      using assms(1,3) by (auto simp: begin_message_def dispatch_def split: prod.splits)
    with list_placed [of ?c cfg ou rd d reply d' e key i t] show ?thesis by simp
  next
    case 2
    have tag: "SIGN_REQUEST \<noteq> REQUEST_IDENTITIES" by (simp add: SIGN_REQUEST_def REQUEST_IDENTITIES_def)
    show ?thesis
    proof (cases "sign_blob payload")
      case None
      with 2 tag have "pc = Answering reply" "b = cn_bound c" "bound' = cn_bound c" "d' = d"
        using assms(1,3) by (auto simp: begin_message_def dispatch_def handle_sign_def)
      with answer_placed [of ?c reply cfg ou e key i d t] show ?thesis by simp
    next
      case (Some blob)
      with 2 assms(2) have other: "map_option ssh_public_blob (cf_enclave cfg) \<noteq> Some blob"
        by (auto simp: wants_gate_def)
      with 2 tag Some have pc: "pc = Routing blob payload" "b = cn_bound c" "bound' = cn_bound c"
        and h: "handle_sign_upstream cfg ou rd (cn_who c) (cn_bound c) blob payload d = (reply, d')"
        using assms(1,3)
        by (auto simp: begin_message_def dispatch_def handle_sign_def split: prod.splits option.splits if_splits)
      with upstream_placed [of ?c blob payload cfg ou rd d reply d' e key i t] show ?thesis by simp
    qed
  next
    case 3
    have tag: "EXTENSION \<noteq> REQUEST_IDENTITIES" "EXTENSION \<noteq> SIGN_REQUEST"
      by (simp_all add: EXTENSION_def SIGN_REQUEST_def REQUEST_IDENTITIES_def)
    have "begin_extension cfg ou rd (cn_who ?c) payload (cn_bound c) = (pc, bound')"
      "handle_extension cfg ou rd (cn_who ?c) payload (cn_bound c) d = (reply, b, d')"
      using assms(1,3) 3 tag by (simp_all add: begin_message_def dispatch_def)
    from extension_placed [OF this(1) _ this(2), where e = e and key = key and i = i and t = t] show ?thesis by auto
  next
    case 4
    then have "pc = Answering reply" "b = cn_bound c" "bound' = cn_bound c" "d' = d"
      using assms(1,3) by (simp_all add: begin_message_def dispatch_def)
    with answer_placed [of ?c reply cfg ou e key i d t] show ?thesis by simp
  qed
  then show ?thesis by auto
qed

text \<open>
  C12: Whatever the thread at the sign gate, the screen watch and the other connections are in
  the middle of, a sheet waiting for a finger among them, a connection whose message does not
  ask for the daemon's own key gets its answer by its own steps alone, and it is the answer,
  the bound host and the effect on the daemon that the handler has when it runs by itself; the
  gate, the watch, the request being signed and every other connection are left as they were.
\<close>

theorem bystander_answered:
  assumes "th_conns t i = Some c" and "cn_pc c = Reading" and "payload \<noteq> []"
    and "\<not> wants_gate cfg payload"
    and "dispatch cfg ou rd (cn_who c) payload (cn_bound c) (wd_daemon (th_world t)) = (reply, bound, d)"
  shows "\<exists>t'. (conn_step cfg ou e key i)\<^sup>*\<^sup>* t t' \<and>
    th_conns t' = (th_conns t)(i \<mapsto> c\<lparr>cn_bound := bound, cn_sent := frame reply # cn_sent c\<rparr>) \<and>
    th_world t' = (th_world t)\<lparr>wd_daemon := d\<rparr> \<and> th_gate t' = th_gate t"
proof -
  obtain pc b where m: "begin_message cfg ou rd (cn_who c) payload (cn_bound c) = (pc, b)" by fastforce
  let ?d = "wd_daemon (th_world t)" and ?c = "said reply (c\<lparr>cn_bound := bound\<rparr>)"
  from message_placed [OF m assms(4,5)] have b: "b = bound"
    and run: "(conn_step cfg ou e key i)\<^sup>*\<^sup>* (placed i (c\<lparr>cn_bound := bound, cn_pc := pc\<rparr>) ?d t) (placed i ?c d t)"
    by auto
  have "conn_step cfg ou e key i t (placed i (c\<lparr>cn_bound := bound, cn_pc := pc\<rparr>) ?d t)"
    using conn_step.receives [OF assms(1-3) m] by (simp add: b placed_def moved_def with_daemon_def)
  with run have "(conn_step cfg ou e key i)\<^sup>*\<^sup>* t (placed i ?c d t)" by (rule converse_rtranclp_into_rtranclp [rotated])
  moreover have "?c = c\<lparr>cn_bound := bound, cn_sent := frame reply # cn_sent c\<rparr>"
    using assms(2) by (cases c) (simp add: said_def)
  ultimately show ?thesis by (intro exI [of _ "placed i ?c d t"]) (simp add: placed_def with_daemon_def)
qed

text \<open>A sheet waits for a finger on one connection while another lists the keys.\<close>

definition sheet_up :: threads where
  "sheet_up =
    \<lparr>th_world = quiet (test_daemon\<lparr>dm_conns := 2\<rparr>) (Prompted 0 0
       \<lparr>pl_reach = Everywhere, pl_window = Fin 21600, pl_live = False, pl_expired = [],
         pl_signing_in = Some (AtScreenLock (Fin 21600)), pl_unlock_reuse = 0\<rparr> 0) 0 [],
     th_gate = Some 0,
     th_conns = [0 \<mapsto> \<lparr>cn_who = nobody, cn_bound = None, cn_pc = Turning [9], cn_sent = []\<rparr>,
       1 \<mapsto> \<lparr>cn_who = nobody, cn_bound = None, cn_pc = Reading, cn_sent = []\<rparr>]\<rparr>"

theorem bystander_answered_witness:
  "\<exists>t' reply. (conn_step test_merge test_routes test_enclave example_key 1)\<^sup>*\<^sup>* sheet_up t' \<and>
    th_conns t' 1 = Some \<lparr>cn_who = nobody, cn_bound = None, cn_pc = Reading, cn_sent = [frame reply]\<rparr> \<and>
    th_conns t' 0 = th_conns sheet_up 0 \<and> wd_signer (th_world t') = wd_signer (th_world sheet_up)"
proof -
  let ?c = "\<lparr>cn_who = nobody, cn_bound = None, cn_pc = Reading, cn_sent = []\<rparr>"
  have c: "th_conns sheet_up 1 = Some ?c" by (simp add: sheet_up_def)
  have w: "\<not> wants_gate test_merge [REQUEST_IDENTITIES]"
    by (simp add: wants_gate_def REQUEST_IDENTITIES_def SIGN_REQUEST_def)
  obtain reply d where "handle_request_identities test_merge test_routes test_readings nobody
      (wd_daemon (th_world sheet_up)) = (reply, d)" by fastforce
  then have "dispatch test_merge test_routes test_readings (cn_who ?c) [REQUEST_IDENTITIES] (cn_bound ?c)
      (wd_daemon (th_world sheet_up)) = (reply, None, d)"
    by (simp add: dispatch_def)
  from bystander_answered [OF c _ _ w this, of test_enclave example_key]
  show ?thesis by (force simp: sheet_up_def)
qed

section \<open>One listing over another\<close>

lemma placed_parts:
  "th_conns (placed i c d t) = (th_conns t)(i \<mapsto> c)" "wd_daemon (th_world (placed i c d t)) = d"
  by (simp_all add: placed_def with_daemon_def)

lemma plain_at:
  assumes "th_conns t i = Some c"
    and "plain_step cfg (ou\<lparr>ou_net := nt\<rparr>) rd c (wd_daemon (th_world t)) = Some (d, pc)"
  shows "threads_step cfg ou e key t (placed i (c\<lparr>cn_pc := pc\<rparr>) d t)"
proof -
  have "moved i c pc (with_daemon d t) = placed i (c\<lparr>cn_pc := pc\<rparr>) d t"
    by (simp add: moved_def placed_def with_daemon_def)
  with conn_step.plain [OF assms, of e key] show ?thesis by (auto simp: threads_step_def)
qed

text \<open>
  A request for an upstream's key lists the keys, finds it, and looks it up; a listing of another
  connection in between, for which that upstream does not answer in time, leaves the maps without
  it, and the request is refused as if nobody held the key.
\<close>

lemma listing_lost_to_another:
  assumes "th_conns t i = Some c" "cn_pc c = Refreshing (ForSign blob payload)"
    and "th_conns t j = Some c'" "cn_pc c' = Refreshing ForList" "i \<noteq> j"
    and "mg_routes (merge_upstreams nt 0 (cf_upstreams cfg) merged_new) blob = Some up"
    and "mg_routes (merge_upstreams nt' 0 (cf_upstreams cfg) merged_new) blob = None"
  shows "\<exists>t' c'' ev. (threads_step cfg ou e key)\<^sup>*\<^sup>* t t' \<and> th_conns t' i = Some c'' \<and>
    cn_pc c'' = Logging ev [FAILURE] \<and> ev_outcome ev = ''no upstream holds this key''"
proof -
  fix rd
  let ?m = "merge_upstreams nt 0 (cf_upstreams cfg) merged_new"
  let ?m' = "merge_upstreams nt' 0 (cf_upstreams cfg) merged_new"
  define d where "d = wd_daemon (th_world t)"
  define d1 where "d1 = d\<lparr>dm_routes := mg_routes ?m\<rparr>"
  define d2 where "d2 = d1\<lparr>dm_routes := mg_routes ?m'\<rparr>"
  define d3 where "d3 = d2\<lparr>dm_comments := mg_comments ?m\<rparr>"
  define t1 where "t1 = placed i (c\<lparr>cn_pc := Commenting ?m (ForSign blob payload)\<rparr>) d1 t"
  define t2 where "t2 = placed j (c'\<lparr>cn_pc := Commenting ?m' ForList\<rparr>) d2 t1"
  define t3 where "t3 = placed i (c\<lparr>cn_pc := Rerouting blob payload\<rparr>) d3 t2"
  define t4 where "t4 = placed i (c\<lparr>cn_pc := Routed blob payload None\<rparr>) d3 t3"
  define t5 where "t5 = placed i (c\<lparr>cn_pc := Forwarding blob payload None (route_comment d3 blob)\<rparr>) d3 t4"
  define ev where "ev = upstream_event ou rd (cn_who c) (cn_bound c) blob (route_comment d3 blob) None
    ''no upstream holds this key''"
  note defs = t1_def t2_def t3_def t4_def t5_def
  let ?go = "threads_step cfg ou e key"
  have s1: "?go t t1"
    unfolding t1_def
    by (rule plain_at [OF assms(1), where nt = nt and rd = rd]) (simp add: plain_step.simps assms(2) Let_def d1_def d_def)
  have "th_conns t1 j = Some c'" "wd_daemon (th_world t1) = d1" using assms(3,5) by (simp_all add: t1_def placed_parts)
  then have s2: "?go t1 t2"
    unfolding t2_def by (intro plain_at [of t1 j c', where nt = nt' and rd = rd]) (simp_all add: plain_step.simps assms(4) Let_def d2_def)
  have "?go t2 (placed i (c\<lparr>cn_pc := Commenting ?m (ForSign blob payload), cn_pc := Rerouting blob payload\<rparr>) d3 t2)"
    by (rule plain_at [of t2 i, where nt = nt and rd = rd])
      (simp_all add: t2_def t1_def placed_parts assms(5) plain_step.simps d3_def)
  then have s3: "?go t2 t3" by (simp add: t3_def)
  have "?go t3 (placed i (c\<lparr>cn_pc := Rerouting blob payload, cn_pc := Routed blob payload None\<rparr>) d3 t3)"
    by (rule plain_at [of t3 i, where nt = nt and rd = rd])
      (simp_all add: t3_def placed_parts plain_step.simps d3_def d2_def assms(7))
  then have s4: "?go t3 t4" by (simp add: t4_def)
  have "?go t4 (placed i (c\<lparr>cn_pc := Routed blob payload None,
      cn_pc := Forwarding blob payload None (route_comment d3 blob)\<rparr>) d3 t4)"
    by (rule plain_at [of t4 i, where nt = nt and rd = rd]) (simp_all add: t4_def placed_parts plain_step.simps route_comment_def)
  then have s5: "?go t4 t5" by (simp add: t5_def)
  have s6: "?go t5 (placed i (c\<lparr>cn_pc := Forwarding blob payload None (route_comment d3 blob),
      cn_pc := Logging ev [FAILURE]\<rparr>) d3 t5)"
    by (rule plain_at [of t5 i, where nt = nt and rd = rd])
      (simp_all add: t5_def placed_parts plain_step.simps forwarded_def forward_sign_def ev_def upstream_event_def fingerprint_def)
  have "?go\<^sup>*\<^sup>* t (placed i (c\<lparr>cn_pc := Logging ev [FAILURE]\<rparr>) d3 t5)"
    using s1 s2 s3 s4 s5 s6 by (simp add: converse_rtranclp_into_rtranclp)
  then show ?thesis
    by (intro exI [of _ "placed i (c\<lparr>cn_pc := Logging ev [FAILURE]\<rparr>) d3 t5"] exI [of _ "c\<lparr>cn_pc := Logging ev [FAILURE]\<rparr>"] exI [of _ ev])
      (simp add: placed_parts ev_def upstream_event_def)
qed

section \<open>The gate comes free\<close>

text \<open>How far a request is from the end of its turn: its stage, and the keys it has yet to drop.\<close>

fun look_left :: "look_pc \<Rightarrow> nat" where
  "look_left (Ending scr) = 2"
| "look_left (Forgetting scr) = 1"
| "look_left (Looked scr) = 0"

fun signer_left :: "signer \<Rightarrow> nat \<times> nat" where
  "signer_left Idle = (20, 0)"
| "signer_left (First l) = (15 + look_left l, 0)"
| "signer_left (Loading refused) = (14, 0)"
| "signer_left (Deciding refused n g) = (13, 0)"
| "signer_left (Dropping refused n g p ks) = (12, length ks)"
| "signer_left (Asking n g p) = (11, 0)"
| "signer_left (Prompted n g p m) = (10, 0)"
| "signer_left (Made n g p r) = (9, 0)"
| "signer_left (Second n g p r l) = (6 + look_left l, 0)"
| "signer_left (Admitting n g p r scr) = (5, 0)"
| "signer_left (Cleaning p) = (4, 0)"

fun pc_left :: "signer \<Rightarrow> conn_pc \<Rightarrow> nat \<times> nat" where
  "pc_left s (Starting data) = (20, 0)"
| "pc_left s (Turning data) = signer_left s"
| "pc_left s (Closing ev reply) = (1, 0)"
| "pc_left s _ = (0, 0)"

definition turn_left :: "nat \<Rightarrow> threads \<Rightarrow> nat \<times> nat" where
  "turn_left i t =
    (case th_conns t i of None \<Rightarrow> (0, 0) | Some c \<Rightarrow> pc_left (wd_signer (th_world t)) (cn_pc c))"

lemma turn_left_same:
  "th_conns t' i = th_conns t i \<Longrightarrow> wd_signer (th_world t') = wd_signer (th_world t) \<Longrightarrow> turn_left i t' = turn_left i t"
  by (simp add: turn_left_def cong: option.case_cong)

lemma signer_left_less: "s \<noteq> Idle \<Longrightarrow> fst (signer_left s) < 20 \<and> 1 < fst (signer_left s)"
proof (cases s)
  case (First l)
  then show ?thesis by (cases l) simp_all
next
  case (Second n g p r l)
  then show ?thesis by (cases l) simp_all
qed simp_all

lemma signer_step_left:
  assumes "step cfg ou e key w w'" and "wd_signer w' \<noteq> wd_signer w" and "wd_signer w \<noteq> Idle" "wd_signer w' \<noteq> Idle"
  shows "(signer_left (wd_signer w'), signer_left (wd_signer w)) \<in> less_than <*lex*> less_than"
  using assms(1)
proof cases
  case (second n g p r scr now l d)
  then show ?thesis by (cases l) simp_all
qed (use assms(2-4) in simp_all)

lemma holder_left:
  assumes "conn_step cfg ou e key i t t'" and ok: "threads_ok t" and gate: "th_gate t = Some i"
  shows "th_gate t' = None \<or> (turn_left i t', turn_left i t) \<in> less_than <*lex*> less_than"
proof -
  have holder: "holds_gate (cn_pc c)" if "th_conns t i = Some c" for c
    using ok gate that by (auto simp: threads_ok_def)
  have here: "th_conns t i \<noteq> None" using ok gate by (auto simp: threads_ok_def)
  from assms(1) show ?thesis
  proof cases
    case (plain c nt rd d pc)
    then show ?thesis using holder plain_step_daemon(5) [OF plain(3)] by auto
  next
    case (starts c data w)
    then show ?thesis using signer_left_less [OF starts(6)]
      by (cases "signer_left (wd_signer w)") (simp add: turn_left_def moved_def)
  next
    case (turns c data w)
    have "wd_signer (th_world t) \<noteq> Idle" using holder_works [OF ok turns(2)] turns(3) by simp
    with signer_step_left [OF turns(4,6) _ turns(7)] turns show ?thesis by (simp add: turn_left_def)
  next
    case (turn_ends c data w rd p outcome)
    have "wd_signer (th_world t) \<noteq> Idle" using holder_works [OF ok turn_ends(2)] turn_ends(3) by simp
    with signer_left_less [of "wd_signer (th_world t)"] turn_ends show ?thesis
      by (cases "signer_left (wd_signer (th_world t))") (simp add: turn_left_def moved_def)
  qed (use here gate in \<open>auto dest!: holder\<close>)
qed

lemma others_left:
  assumes "conn_step cfg ou e key j t t'" and ok: "threads_ok t" and gate: "th_gate t = Some i" and "j \<noteq> i"
  shows "turn_left i t' = turn_left i t \<and> th_gate t' = Some i"
proof -
  have "\<not> holds_gate (cn_pc c)" if "th_conns t j = Some c" for c
    using ok that gate assms(4) by (auto simp: threads_ok_def)
  with assms(1) gate assms(4) show ?thesis
    by (cases rule: conn_step.cases) (auto simp: moved_def with_daemon_def intro!: turn_left_same)
qed

lemma watch_keeps_turn:
  assumes "watch_step cfg ou e key t t'"
  shows "turn_left i t' = turn_left i t \<and> th_gate t' = th_gate t"
  using assms by (cases rule: watch_step.cases) (auto intro!: turn_left_same)

text \<open>A look of the watch is over after a few steps of its own.\<close>

fun watch_left :: "watcher \<Rightarrow> nat" where
  "watch_left (Watching l) = Suc (look_left l)"
| "watch_left _ = 0"

lemma watch_look_moves:
  assumes "watch_looks (wd_watch (th_world t))"
  shows "\<exists>t'. watch_step cfg ou e key t t' \<and>
    watch_left (wd_watch (th_world t')) < watch_left (wd_watch (th_world t))"
proof -
  from assms obtain l where l: "wd_watch (th_world t) = Watching l" by (cases "wd_watch (th_world t)") auto
  have move: "\<exists>t'. watch_step cfg ou e key t t' \<and> watch_left (wd_watch (th_world t')) < watch_left (wd_watch (th_world t))"
    if "step cfg ou e key (th_world t) w" "wd_signer w = wd_signer (th_world t)"
      "watch_left (wd_watch w) < watch_left (wd_watch (th_world t))" "\<not> watch_has_gate (wd_watch w)" for w
    using that by (intro exI [of _ "t\<lparr>th_world := w\<rparr>"] conjI watch_step.watches) auto
  show ?thesis
  proof (cases l)
    case (Ending scr)
    with l show ?thesis by (intro move [OF step.watch_end]) simp_all
  next
    case (Forgetting scr)
    with l show ?thesis by (intro move [OF step.watch_forget]) simp_all
  next
    case (Looked scr)
    with l show ?thesis by (intro move [OF step.watch_done]) simp_all
  qed
qed

text \<open>A signature is admitted only with the screen of its second look.\<close>

lemma admitting_has_looked:
  "reachable cfg ou e key w \<Longrightarrow> wd_signer w \<noteq> Admitting n g p (Inr sig) None"
proof (induction rule: reachable.induct)
  case (base w)
  then show ?case by (simp add: initial_def)
next
  case (next_step w w')
  from next_step.hyps(2) next_step.IH show ?case by (cases rule: step.cases) simp_all
qed

lemma signer_moves:
  assumes work: "wd_signer w \<noteq> Idle" and "\<not> watch_looks (wd_watch w)"
    and "\<And>n g p sig. wd_signer w \<noteq> Admitting n g p (Inr sig) None"
  shows "\<exists>w'. step cfg ou e key w w' \<and> wd_watch w' = wd_watch w \<and> wd_signer w' \<noteq> wd_signer w"
proof -
  note found = exI [where P = "\<lambda>w'. step cfg ou e key w w' \<and> wd_watch w' = wd_watch w \<and> wd_signer w' \<noteq> wd_signer w"]
  show ?thesis
  proof (cases "wd_signer w")
    case (First l)
    then show ?thesis
      using found [OF conjI [OF step.first_end]] found [OF conjI [OF step.first_forget]]
        found [OF conjI [OF step.first_done]]
      by (cases l) simp_all
  next
    case (Loading refused)
    then show ?thesis using found [OF conjI [OF step.load]] by simp
  next
    case (Deciding refused n g)
    fix sc now
    show ?thesis
      using found [OF conjI [OF step.plan [OF Deciding]]]
      by (cases "own_plan cfg e sc now (wd_daemon w)") (fastforce simp: Deciding)
  next
    case (Dropping refused n g p ks)
    then show ?thesis
      using found [OF conjI [OF step.drop]] found [OF conjI [OF step.refuse]] found [OF conjI [OF step.ask]]
      by (cases ks; cases refused) simp_all
  next
    case (Asking n g p)
    fix ap data
    show ?thesis
    proof (cases "ask_begin ou key ap data p (dm_cache (wd_daemon w))")
      case (Pair r c)
      then show ?thesis
        using found [OF conjI [OF step.answered [OF Asking]]] found [OF conjI [OF step.prompt [OF Asking]]]
        by (cases r) (fastforce simp: Asking)+
    qed
  next
    case (Prompted n g p m)
    fix ap data shown
    show ?thesis
      using found [OF conjI [OF step.released [OF Prompted]]]
      by (cases "ask_end cfg ou key ap data shown p m (dm_cache (wd_daemon w))") (fastforce simp: Prompted)
  next
    case (Made n g p r)
    fix scr now
    show ?thesis
      using found [OF conjI [OF step.second [OF Made assms(2)]]]
      by (cases "begin_look scr now (wd_daemon w)") (fastforce simp: Made)
  next
    case (Second n g p r l)
    then show ?thesis
      using found [OF conjI [OF step.second_end]] found [OF conjI [OF step.second_forget]]
        found [OF conjI [OF step.second_done]]
      by (cases l) simp_all
  next
    case (Admitting n g p r scr)
    show ?thesis
    proof (cases r)
      case (Inl err)
      with Admitting show ?thesis
        using found [OF conjI [OF step.failed_clean [of w n g p err scr]]]
          found [OF conjI [OF step.failed_live [of w n g p err scr]]]
        by (cases "pl_live p \<and> gs_sign_outs (dm_gate (wd_daemon w)) = n") simp_all
    next
      case (Inr sig)
      with assms(3) Admitting obtain s where s: "wd_signer w = Admitting n g p (Inr sig) (Some s)"
        by (cases scr) auto
      fix now
      obtain ok d where "own_admit p n now (wd_daemon w) = (ok, d)" by fastforce
      then show ?thesis
        using found [OF conjI [OF step.admitted [OF s]]] found [OF conjI [OF step.too_late [OF s]]]
        by (cases ok) (fastforce simp: s)+
    qed
  next
    case (Cleaning p)
    then show ?thesis using found [OF conjI [OF step.clean]] by simp
  qed (use work in simp)
qed

lemma holder_moves:
  assumes ok: "threads_ok t" and r: "reachable cfg ou e key (th_world t)" and gate: "th_gate t = Some i"
    and calm: "\<not> watch_looks (wd_watch (th_world t))"
  shows "\<exists>t'. conn_step cfg ou e key i t t'"
proof -
  from ok gate obtain c where c: "th_conns t i = Some c" "holds_gate (cn_pc c)"
    and watch: "\<not> watch_has_gate (wd_watch (th_world t))"
    by (auto simp: threads_ok_def)
  note works = holder_works [OF ok c(1)]
  show ?thesis
  proof (cases "cn_pc c")
    case (Starting data)
    fix scr now
    obtain l d where "begin_look scr now (wd_daemon (th_world t)) = (l, d)" by fastforce
    moreover have "wd_signer (th_world t) = Idle" using works Starting by simp
    ultimately show ?thesis
      using conn_step.starts [OF c(1) Starting step.start] watch calm by fastforce
  next
    case (Turning data)
    then have "wd_signer (th_world t) \<noteq> Idle" using works by simp
    from signer_moves [OF this calm admitting_has_looked [OF r]] obtain w
      where "step cfg ou e key (th_world t) w" "wd_watch w = wd_watch (th_world t)"
        "wd_signer w \<noteq> wd_signer (th_world t)" by blast
    then show ?thesis
      using conn_step.turns [OF c(1) Turning] conn_step.turn_ends [OF c(1) Turning]
      by (cases "wd_signer w = Idle") blast+
  next
    case (Closing ev reply)
    then show ?thesis using conn_step.closes [OF c(1)] by blast
  qed (use c(2) in simp_all)
qed

lemma holder_keeps:
  assumes "conn_step cfg ou e key i t t'" and "th_gate t = Some i"
  shows "th_gate t' \<in> {None, Some i}"
  using assms by (cases rule: conn_step.cases) (auto simp: moved_def with_daemon_def)

lemma turn_runs_out:
  assumes "threads_ok t" and "reachable cfg ou e key (th_world t)" and "th_gate t = Some i"
  shows "\<exists>t'. (\<lambda>a b. conn_step cfg ou e key i a b \<or> watch_step cfg ou e key a b)\<^sup>*\<^sup>* t t' \<and> th_gate t' = None"
  using assms
proof (induction "(turn_left i t, watch_left (wd_watch (th_world t)))" arbitrary: t
    rule: wf_induct_rule [OF wf_lex_prod [OF wf_lex_prod [OF wf_less_than wf_less_than] wf_less_than]])
  case (1 t)
  let ?go = "\<lambda>a b. conn_step cfg ou e key i a b \<or> watch_step cfg ou e key a b"
  have on: ?case if go: "?go t t1" and s: "step cfg ou e key (th_world t) (th_world t1)" and ok: "threads_ok t1"
    and gate: "th_gate t1 = Some i"
    and less: "((turn_left i t1, watch_left (wd_watch (th_world t1))),
      (turn_left i t, watch_left (wd_watch (th_world t)))) \<in> (less_than <*lex*> less_than) <*lex*> less_than" for t1
    using 1(1) [OF less ok reachable.next_step [OF 1(3) s] gate] converse_rtranclp_into_rtranclp [of ?go, OF go] by blast
  show ?case
  proof (cases "watch_looks (wd_watch (th_world t))")
    case True
    from watch_look_moves [OF this] obtain t' where t': "watch_step cfg ou e key t t'"
      and less: "watch_left (wd_watch (th_world t')) < watch_left (wd_watch (th_world t))" by blast
    from t' have s: "step cfg ou e key (th_world t) (th_world t')" by (cases rule: watch_step.cases) simp
    show ?thesis
      by (rule on [OF _ s watch_step_ok [OF t' 1(2)]])
        (use t' less watch_keeps_turn [OF t', of i] 1(4) in simp_all)
  next
    case False
    from holder_moves [OF 1(2-4) this] obtain t' where t': "conn_step cfg ou e key i t t'" by blast
    show ?thesis
    proof (cases "th_gate t' = None")
      case True
      with t' show ?thesis by blast
    next
      case False
      with holder_left [OF t' 1(2,4)] have less: "(turn_left i t', turn_left i t) \<in> less_than <*lex*> less_than"
        by blast
      show ?thesis
        by (rule on [OF _ conn_step_simulated [OF t'] conn_step_ok [OF t' 1(2)]])
          (use t' less False holder_keeps [OF t' 1(4)] in auto)
    qed
  qed
qed

text \<open>
  C6: A request that has the sign gate gives it back. Whatever the daemon has been through,
  the holder's own steps, with at most a look of the watch to wait for, lead to a free gate;
  each of them brings its turn nearer the end, whatever the screen, the frameworks, the clock
  and the upstreams answer; and nothing another connection or the watch does sets it back.
\<close>

theorem gate_comes_free:
  assumes "initial (quiet d Idle 0 [])" and "dm_conns d = 0"
    and "(threads_step cfg ou e key)\<^sup>*\<^sup>* (no_threads d) t" and "th_gate t = Some i"
  shows "(\<exists>t'. (\<lambda>a b. conn_step cfg ou e key i a b \<or> watch_step cfg ou e key a b)\<^sup>*\<^sup>* t t' \<and> th_gate t' = None) \<and>
    (\<forall>t'. conn_step cfg ou e key i t t' \<longrightarrow>
      th_gate t' = None \<or> (turn_left i t', turn_left i t) \<in> less_than <*lex*> less_than) \<and>
    (\<forall>t'. watch_step cfg ou e key t t' \<or> (\<exists>j. j \<noteq> i \<and> conn_step cfg ou e key j t t') \<longrightarrow>
      turn_left i t' = turn_left i t \<and> th_gate t' = Some i)"
proof -
  from threads_reach [OF assms(1-3)] have r: "reachable cfg ou e key (th_world t)" and ok: "threads_ok t" by simp_all
  have "turn_left i t' = turn_left i t \<and> th_gate t' = Some i"
    if "watch_step cfg ou e key t t' \<or> (\<exists>j. j \<noteq> i \<and> conn_step cfg ou e key j t t')" for t'
    using that
  proof
    assume "watch_step cfg ou e key t t'"
    from watch_keeps_turn [OF this] assms(4) show ?thesis by simp
  next
    assume "\<exists>j. j \<noteq> i \<and> conn_step cfg ou e key j t t'"
    then show ?thesis using others_left [OF _ ok assms(4)] by blast
  qed
  with turn_runs_out [OF ok r assms(4)] holder_left [OF _ ok assms(4)] show ?thesis by blast
qed

text \<open>The connection has asked for a signature of the daemon's own key, and has the gate.\<close>

definition own_request :: bytes where
  "own_request = writer_string [9] (writer_string (ssh_public_blob test_enclave) (writer_u8 SIGN_REQUEST writer_new))"

lemma own_request_parts: "sign_blob own_request = Some (ssh_public_blob test_enclave)" "sign_data own_request = [9]"
proof -
  let ?blob = "ssh_public_blob test_enclave"
  have n: "length ?blob < 2 ^ 32"
    by (simp add: ssh_public_blob_def as_bytes_def KEY_TYPE_def CURVE_def test_enclave_def writer_new_def)
  have "at_bytes (reader_new own_request) (SIGN_REQUEST # writer_string ?blob [] @ writer_string [9] [] @ [])"
    using at_bytes_new [of own_request] n
    by (simp add: own_request_def writer_string_def writer_u32_def writer_u8_def writer_new_def)
  from reader_u8_put [OF this] have "at_bytes (skip_u8 own_request) (writer_string ?blob [] @ writer_string [9] [] @ [])"
    by (simp add: skip_u8_def)
  note blob = reader_string_put [OF n this]
  show "sign_blob own_request = Some ?blob" using blob(1) by (simp add: sign_blob_def)
  show "sign_data own_request = [9]"
    using blob(1) reader_string_put(1) [OF _ blob(2)] by (simp add: sign_data_def)
qed

lemma own_request_gated:
  "begin_message test_config test_outside test_readings who own_request None = (Gated [9], None)"
proof -
  have "own_request ! 0 = SIGN_REQUEST"
    by (simp add: own_request_def writer_string_def writer_u32_def writer_u8_def writer_new_def)
  then show ?thesis
    by (simp add: begin_message_def own_request_parts test_config_def SIGN_REQUEST_def REQUEST_IDENTITIES_def)
qed

lemma own_request_holds:
  obtains t where "(threads_step test_config test_outside test_enclave example_key)\<^sup>*\<^sup>* (no_threads test_daemon) t"
    and "th_gate t = Some 0"
proof -
  let ?step = "conn_step test_config test_outside test_enclave example_key 0"
  let ?c = "\<lparr>cn_who = attribute (ou_os test_outside) 3, cn_bound = None, cn_pc = Reading, cn_sent = []\<rparr>"
  let ?t1 = "moved 0 ?c (Gated [9]) one_thread"
  have c: "th_conns one_thread 0 = Some ?c" by (simp add: one_thread_def)
  have "own_request \<noteq> []" by (simp add: own_request_def writer_string_def)
  then have s1: "?step one_thread ?t1"
    using conn_step.receives [OF c, of own_request test_config test_outside test_readings "Gated [9]" None]
    by (simp add: own_request_gated)
  have "?step ?t1 ((moved 0 (?c\<lparr>cn_pc := Gated [9]\<rparr>) (Starting [9]) ?t1)\<lparr>th_gate := Some 0\<rparr>)"
    by (rule conn_step.takes_gate) (simp_all add: moved_def one_thread_def no_threads_def)
  with s1 have "(threads_step test_config test_outside test_enclave example_key)\<^sup>*\<^sup>* one_thread
      ((moved 0 (?c\<lparr>cn_pc := Gated [9]\<rparr>) (Starting [9]) ?t1)\<lparr>th_gate := Some 0\<rparr>)"
    by (meson threads_step_def converse_rtranclp_into_rtranclp r_into_rtranclp)
  from that [OF rtranclp_trans [OF one_connection this]] show thesis by simp
qed

theorem gate_comes_free_witness:
  "\<exists>t t'. th_gate t = Some 0 \<and> th_gate t' = None \<and>
    (\<lambda>a b. conn_step test_config test_outside test_enclave example_key 0 a b \<or>
      watch_step test_config test_outside test_enclave example_key a b)\<^sup>*\<^sup>* t t'"
proof -
  obtain t where t: "(threads_step test_config test_outside test_enclave example_key)\<^sup>*\<^sup>* (no_threads test_daemon) t"
    "th_gate t = Some 0" by (rule own_request_holds)
  have "dm_conns test_daemon = 0" by (simp add: test_daemon_def)
  from gate_comes_free [OF test_initial this t] t(2) show ?thesis by blast
qed

end
