(* ===== verification/Build.thy ===== *)
theory Build
  imports Purpose
begin

text \<open>
  \<open>daemon/build.rs\<close>: how the daemon is built. The shim \<open>kwse.swift\<close> is compiled to a static
  archive in cargo's output directory, and cargo is told on standard output to link it with
  the frameworks and the Swift runtime. The environment and the compiler are parameters;
  a panic is \<open>Inl\<close> of what \<open>expect\<close> or \<open>assert\<close> says.
\<close>

text \<open>\<open>OUT_DIR\<close>, and what \<open>swiftc\<close> makes of its arguments: not there, or run with or without success.\<close>

record build_env =
  be_out_dir :: "string option"
  be_swiftc :: "string list \<Rightarrow> bool option"

definition swiftc_args :: "string \<Rightarrow> string list" where
  "swiftc_args lib = [''-O'', ''-emit-library'', ''-static'', ''-o'', lib, ''kwse.swift'']"

definition link_frameworks :: "string list" where
  "link_frameworks = [''CryptoKit'', ''LocalAuthentication'', ''Security'', ''Foundation'', ''IOKit'']"

definition link_dylibs :: "string list" where
  "link_dylibs = [''swiftCore'', ''swiftFoundation'', ''swiftDarwin'', ''swiftObjectiveC'', ''objc'']"

definition link_lines :: "string \<Rightarrow> string list" where
  "link_lines out =
    [''cargo:rustc-link-search=native='' @ out, ''cargo:rustc-link-lib=static=kwse'',
     ''cargo:rustc-link-search=native=/usr/lib/swift'', ''cargo:rustc-link-arg=-L/usr/lib/swift''] @
    map (\<lambda>f. ''cargo:rustc-link-lib=framework='' @ f) link_frameworks @
    map (\<lambda>l. ''cargo:rustc-link-lib=dylib='' @ l) link_dylibs @
    [''cargo:rerun-if-changed=kwse.swift'']"

definition build :: "build_env \<Rightarrow> string + string list" where
  "build env =
    (case be_out_dir env of
       None \<Rightarrow> Inl ''OUT_DIR''
     | Some out \<Rightarrow>
         (case be_swiftc env (swiftc_args (out @ ''/libkwse.a'')) of
            None \<Rightarrow> Inl (''swiftc not found '' @ em_dash @ '' Xcode command line tools are required'')
          | Some False \<Rightarrow> Inl ''failed to compile kwse.swift''
          | Some True \<Rightarrow> Inr (link_lines out)))"

text \<open>
  A build that tells cargo anything has compiled the archive, under the name and in the
  directory it tells cargo to look for it: \<open>lib\<close> and \<open>.a\<close> around what is linked as static.
\<close>

lemma build_links_what_it_compiled:
  "build env = Inr ls \<longleftrightarrow>
    (\<exists>out. be_out_dir env = Some out \<and> ls = link_lines out \<and>
      be_swiftc env (swiftc_args (out @ ''/'' @ ''lib'' @ ''kwse'' @ ''.a'')) = Some True)"
  by (auto simp: build_def split: option.splits bool.splits)

end
