(* ===== verification/Spec2Isabelle.thy ===== *)
theory Spec2Isabelle
  imports F64 Wire Redact Proc Purpose Request_Context Attrib Kwse Enclave Approvals Prompt Event
    Upstream Agent Agent_Laws Session Interleave Card Startup Schema App_Model App_Events App_Card App_Script App_Panel
    App_Text App_Agent Lifecycle Threads Build Repository_Tests
begin

text \<open>
  Keyward is an SSH agent for macOS. Its daemon, \<open>keywardd\<close> (\<open>src/daemon\<close>), listens on a
  Unix socket, offers a key of its own that lives in the Secure Enclave and the keys of the
  agents behind it, finds out who is asking and what for, asks for a Touch ID where one is
  needed, signs or forwards, and writes every signature to a log. This development models
  the daemon's Rust and the Swift shim it calls, from the bytes on the socket to the calls
  of Apple's frameworks, and the parts of the app that read what the daemon writes. It
  proves what makes the approvals mean something: that nothing is signed across a sign-out
  or on a locked screen, that an approval covers no more than it said, that what could sign
  unasked is gone when the approval is, that credentials do not reach the log, that the
  daemon answers, and that the app shows the log and the card it is sent.

  \<^bold>\<open>How the parts interact.\<close> \<open>main.rs\<close> reads the configuration, takes the socket and starts
  one thread per connection, a self-check and, for a sign-in key, the screen watch. A
  connection (\<open>agent.rs\<close>, \<open>serve\<close>) attributes its peer once (\<open>attrib.rs\<close>, with \<open>purpose.rs\<close>
  and \<open>context.rs\<close>), then answers its messages in order. A request for the daemon's own key
  takes the sign gate, looks at the screen, decides with the map of approvals, tells the
  shim what to forget, shows the card (\<open>ui.rs\<close>), signs through the shim (\<open>enclave.rs\<close>,
  \<open>kwse.swift\<close>), looks again and is admitted or not; any other key goes to an upstream agent
  (\<open>upstream.rs\<close>). Both end in the log (\<open>event.rs\<close>). The app (\<open>app/Sources/KeywardApp\<close>) tails
  that log, serves the socket the card is sent to, and keeps the daemon registered with
  launchd, which starts it again when it exits.

  \<^bold>\<open>The theories\<close>, in the order they build on each other.
  \<^item> \<open>Prelude\<close>: bytes, words and results; generic lemmas; the collections \<open>wire_simps\<close> and
    \<open>approval_simps\<close>.
  \<^item> \<open>Rust_Str\<close>, \<open>Rust_Path\<close>, \<open>F64\<close>: what the code uses of Rust's standard library. A string
    is its UTF-8 bytes, so indices and slices are Rust's; \<open>f64\<close> is rounded to 53 bits, with NaN
    and the infinities. The locale \<open>rounding\<close> is what the clock code needs of it.
  \<^item> \<open>Wire\<close> (\<open>wire.rs\<close>): \<open>Reader\<close>, \<open>Writer\<close>, \<open>frame\<close>, with the 32-bit truncation of lengths. The
    locale \<open>field_codec\<close> is what a writer and a reader of one field promise each other; the
    round trips of listings and signatures rest on its interpretation for strings.
  \<^item> \<open>Redact\<close> (\<open>attrib.rs\<close>, \<open>redact\<close> and its helpers): the scanner with its indices; a slice
    off a character boundary is \<open>None\<close>, and is proved never to happen.
  \<^item> \<open>Proc\<close>, \<open>Attrib\<close> (\<open>attrib.rs\<close>, the rest): the kernel's argument buffer, process facts,
    the parent chain, applications, \<open>attribute\<close>.
  \<^item> \<open>Purpose\<close> (\<open>purpose.rs\<close>): the ssh command line and \<open>classify\<close>.
  \<^item> \<open>Request_Context\<close> (\<open>context.rs\<close>): the environment's allow-list, declarations, session
    titles, what git says of a push.
  \<^item> \<open>Kwse\<close> (\<open>kwse.swift\<close>): the record \<open>la_cache\<close> is \<open>ContextCache\<close>; the container of a sign-in
    key; \<open>sign_in\<close>, \<open>plain_sign\<close> and the exported calls. The locales \<open>context_store\<close> and
    \<open>signing_store\<close> are what the daemon relies on when it forgets and signs.
  \<^item> \<open>Enclave\<close> (\<open>enclave.rs\<close>): policies, the screen, where the handle is kept, the SSH encodings,
    signing through the shim, making a key.
  \<^item> \<open>Approvals\<close> (\<open>agent.rs\<close>, the pure rules): \<open>Scope\<close>, \<open>Reach\<close>, \<open>decide\<close>, \<open>opened\<close>, \<open>expire\<close>,
    \<open>admit\<close>, \<open>end_approvals\<close>. The locale \<open>ledger\<close> is the contract of the map of approvals.
  \<^item> \<open>Prompt\<close> (\<open>agent.rs\<close>, the text of the sheet), \<open>Card\<close> (\<open>ui.rs\<close>), \<open>Event\<close> (\<open>event.rs\<close>),
    \<open>Upstream\<close> (\<open>upstream.rs\<close>).
  \<^item> \<open>Agent\<close> (\<open>agent.rs\<close>, \<open>Ctx\<close> and the handlers): \<open>Ctx\<close> is split into \<open>config\<close>, what never
    changes, and \<open>daemon\<close>, what does; \<open>dm_gate\<close> is \<open>approved\<close> with \<open>sign_outs\<close>, \<open>dm_looked\<close> is
    \<open>looked\<close>, \<open>dm_cache\<close> the shim's cache. A handler takes what it reads from outside as a
    record of readings. \<open>handle_sign\<close> for the own key is \<open>own_turn\<close>, a sequence of phases
    (\<open>barred\<close>, \<open>own_plan\<close>, \<open>own_release\<close>, \<open>own_sign\<close>, \<open>own_finish\<close>) and the log event.
  \<^item> \<open>Agent_Laws\<close>, \<open>Session\<close>: what the handlers promise, for one request and for a whole
    connection of arbitrary bytes.
  \<^item> \<open>Interleave\<close>: \<open>handle_sign\<close> on one thread against \<open>watch_screen\<close> on another, one step per
    critical section, as the inductive relation \<open>step\<close>. An \<open>own_turn\<close> that nobody comes between
    is a run of it.
  \<^item> \<open>Startup\<close> (\<open>main.rs\<close>): \<open>Config\<close> is \<open>conf\<close>; arguments, socket, probe and \<open>main\<close> up to the
    accept loop.
  \<^item> \<open>Lifecycle\<close> (\<open>main.rs\<close>, \<open>agent.rs\<close>): the running process, with its connections, self-check and
    watch, as the inductive relation \<open>proc_step\<close>.
  \<^item> \<open>Threads\<close> (\<open>agent.rs\<close>): any number of connections, each at its own place in a message, the
    sign gate between them, and the watch: \<open>conn_step\<close> and \<open>watch_step\<close> over the record
    \<open>threads\<close>, whose world is the one of \<open>Interleave\<close>.
  \<^item> \<open>Build\<close> (\<open>build.rs\<close>): how the shim is compiled and linked.
  \<^item> \<open>Schema\<close>: the JSON trees \<open>serde\<close> derives for \<open>Event\<close> and \<open>Show\<close>. \<open>App_Model\<close> (\<open>Model.swift\<close>):
    what the app decodes from them. \<open>App_Events\<close> (\<open>EventStore.swift\<close>): the tail of the log.
    \<open>App_Card\<close> (\<open>ApprovalServer.swift\<close>, \<open>ApprovalPanel.swift\<close>, \<open>Approval.swift\<close>): the app's end of
    the card. \<open>App_Script\<close> (\<open>Approval.swift\<close>, \<open>Highlight.swift\<close>): what the card says, its rows and the
    command it shows. \<open>App_Panel\<close> (\<open>ApprovalPanel.swift\<close>, \<open>Approval.swift\<close>): how large it is, where it
    stands and how it follows the system's sheet. \<open>App_Text\<close> (\<open>Model.swift\<close>, \<open>Views.swift\<close>): what the window says of an event, its
    list and search. \<open>App_Agent\<close> (\<open>Health.swift\<close>, \<open>AgentInstaller.swift\<close>): the check and launchd.
  \<^item> \<open>Repository_Tests\<close>: every test of the repository, as a definition over the model, and its
    evaluation by the kernel.
  \<^item> This theory: properties that run from the start through whole connections.

  \<^bold>\<open>What the lemmas show.\<close> Safety of the approvals: which requests ride which approval
  (\<open>Approvals\<close>), what a signature needs to leave and what a refused one ends (\<open>Agent_Laws\<close>),
  the same under interleaving, with the count of sign-outs and what the shim may hold
  whenever nobody is signing (\<open>Interleave\<close>), with any number of connections, which it is proved
  to refine (\<open>Threads\<close>), and over any sequence of connections and looks
  (\<open>Session\<close>, \<open>Lifecycle\<close> and here). Faithfulness of what is said and kept: sheet, card, log,
  redaction, allow-list. Formats: round trips of listings, signatures and the sign-in key's
  container, and of events and cards from the daemon's structs to the app's. The app's tail
  refines the log: it shows each event once whatever is appended or rotated between its
  ticks, no card outlives its connections, and a card leads with the sign-in it grants and
  shows the command as it is. Progress: a request that has the sign gate gives it back, and no
  other message waits for it; a listing can be lost to another's (\<open>Threads\<close>).
  Robustness: bounds on what a hostile upstream or client can do, termination on any bytes,
  a configuration that does not parse, a clock that cannot be read.

  \<^bold>\<open>Bounds.\<close> Every loop is a total function, so nothing here holds only for runs that end.
  Where a count bounds a recursion it is the code's own: 16 hops of the parent chain,
  \<open>argc\<close> arguments, the number of keys a listing claims (each takes four bytes, so a message
  of at most \<open>2 ^ 20\<close> bytes bounds it). The other loops recurse on the length of what is
  left to read. The count of sign-outs is a 64-bit word that wraps; the interleaved model
  counts without wrapping beside it, and the theorem that compares the two carries the
  bound \<open>2 ^ 64\<close> as a hypothesis.

  \<^bold>\<open>Parameters and hypotheses.\<close> Not the repository's code, and so parameters: the kernel's
  answers and the file system (\<open>os\<close>, one snapshot for a request; \<open>key_disk\<close>, \<open>sockets\<close>,
  \<open>log_io\<close>), CryptoKit, LocalAuthentication and the IO registry (\<open>apple\<close>), the upstream
  sockets (\<open>net\<close>), \<open>serde_json\<close>, SHA-256 and base64 (\<open>outside\<close>, \<open>setting\<close>), \<open>git\<close>, clocks,
  Foundation's reader of JSON text and numbers (\<open>foundation\<close>), Swift's \<open>Character\<close>s, letter
  cases and dictionary order (\<open>swift\<close>), the display, its windows and the user's defaults
  (\<open>desk\<close>), launchd (\<open>launchd\<close>). Named
  hypotheses: \<open>json_scopes\<close>, that the JSON of a scope has no NUL (\<open>serde_json\<close> escapes control
  characters), so that \<open>CString::new\<close> takes it; \<open>approvals_ok\<close>, that a map has each key once;
  \<open>starts_clean\<close>, that a string starts on a character boundary, as every Rust string does;
  \<open>reads_ints\<close>, that Foundation reads a decimal integer as that integer; \<open>lines_parse\<close> and
  \<open>carried\<close>, that the text \<open>serde_json\<close> writes for a tree has no newline and that Foundation
  reads it as that tree; \<open>chars_ok\<close>, that a string's \<open>Character\<close>s are what it is made of.

  \<^bold>\<open>Not modelled.\<close> Lines printed on stdout and stderr. Waiting itself: read and write
  timeouts are answers a parameter gives. Poisoned locks, which the code treats as
  unpoisoned. Directories made on the way to a file (\<open>create_dir_all\<close>): a failure shows as
  the failure of the call after it. Swift compares dictionary keys up to canonical equivalence and \<open>Data\<close> is
  overwritten before it is dropped; keys here are bytes, and dropped is dropped. Derived
  \<open>Deserialize\<close> of the daemon's own structs, which nothing calls but for the configuration.
  Of the app: the layout of its views but for the card's two columns, and whether macOS
  delivers a notification. Scripts and packaging.
\<close>

section \<open>From the start to the first request\<close>

lemma main_listens:
  assumes "main s io now logs args mc = (Listens c cfg d, mc')"
  shows "d = first_daemon c now logs (mc_cache mc) \<and> bind (co_listen c) (mc_sockets mc) = (Inr (), mc_sockets mc')"
proof -
  obtain op where a: "parse_args args no_opts = Run op" using assms by (auto simp: main_def split: parsed.splits)
  let ?st = "key_store_from_config (st_home s) (co_enclave_key (load_config s (op_config op)))"
  have g: "\<not> op_generate op" "\<not> op_pubkey op" "\<not> op_health op"
    using assms a by (auto simp: main_def Let_def split: if_splits prod.splits)
  obtain r d' where b: "bind (co_listen (load_config s (op_config op))) (mc_sockets mc) = (r, d')"
    by (cases "bind (co_listen (load_config s (op_config op))) (mc_sockets mc)")
  show ?thesis
    using assms a g b by (cases r) (auto simp: main_def Let_def)
qed

text \<open>
  A start that gets to listening begins from nothing: no approval, no sign-out counted,
  no route, whatever ran before it, in the initial state the interleaved model starts
  from; and the socket it listens on had nobody listening on it.
\<close>

lemma start_is_initial:
  assumes "main s io now logs args mc = (Listens c cfg d, mc')"
    and "\<forall>k. \<not> cache_holds (mc_cache mc) k"
  shows "reachable cfg ou e key (quiet d Idle 0 []) \<and> gate_ok ou d \<and>
    so_listening (mc_sockets mc') (co_listen c) \<and>
    \<not> (so_exists (mc_sockets mc) (co_listen c) \<and> so_listening (mc_sockets mc) (co_listen c))"
proof -
  note m = main_listens [OF assms(1)]
  have "reachable cfg ou e key (quiet d Idle 0 [])"
    by (rule reachable.base) (use m assms(2) in \<open>simp add: initial_def first_daemon_def\<close>)
  moreover have "gate_ok ou d"
    using m assms(2) by (simp add: gate_ok_def held_for_approvals_def approvals_ok_def first_daemon_def)
  ultimately show ?thesis using bind_taken m by blast
qed

definition test_start :: "started \<times> machine" where
  "test_start = main test_setting test_probe (Fin 100) (None, None) [''--policy'', ''sign-in''] test_machine"

definition test_conf :: conf where
  "test_conf = load_config test_setting None"

lemma test_start_listens:
  "\<exists>cfg mc'. test_start = (Listens test_conf cfg (first_daemon test_conf (Fin 100) (None, None) empty_cache), mc')"
proof -
  have a: "parse_args [''--policy'', ''sign-in''] no_opts = Run (no_opts\<lparr>op_policy := SignIn\<rparr>)"
    by (simp add: parse_args.simps(2) policy_parse_def nth_opt_def)
  have "bind (co_listen test_conf) empty_sockets = (Inr (), snd (bind (co_listen test_conf) empty_sockets))"
    by (simp add: bind_def os_bind_def empty_sockets_def Let_def test_conf_def load_config_def test_setting_def
        expand_paths_def default_conf_def expand_home_def strip_prefix_def home_def)
  then obtain d where "bind (co_listen test_conf) empty_sockets = (Inr (), d)" by blast
  moreover have "\<not> op_generate (no_opts\<lparr>op_policy := SignIn\<rparr>)" "\<not> op_pubkey (no_opts\<lparr>op_policy := SignIn\<rparr>)"
      "\<not> op_health (no_opts\<lparr>op_policy := SignIn\<rparr>)" "op_config (no_opts\<lparr>op_policy := SignIn\<rparr>) = None"
    by (simp_all add: no_opts_def)
  ultimately show ?thesis
    by (simp add: test_start_def main_def a test_machine_def Let_def test_conf_def)
qed

lemma test_machine_cache: "\<forall>k. \<not> cache_holds (mc_cache test_machine) k"
  by (simp add: test_machine_def empty_cache_def cache_holds_def)

theorem start_is_initial_witness:
  "\<exists>cfg mc'. test_start = (Listens test_conf cfg (first_daemon test_conf (Fin 100) (None, None) empty_cache), mc') \<and>
    reachable cfg test_outside test_enclave example_key
      (quiet (first_daemon test_conf (Fin 100) (None, None) empty_cache) Idle 0 [])"
proof -
  obtain cfg mc' where t: "test_start = (Listens test_conf cfg
      (first_daemon test_conf (Fin 100) (None, None) empty_cache), mc')"
    using test_start_listens by blast
  from start_is_initial [OF t [unfolded test_start_def] test_machine_cache] t show ?thesis by blast
qed

section \<open>A whole connection\<close>

text \<open>
  From a fresh start on, whatever bytes one client after another sends, with whatever
  caller, however the frameworks answer and whenever the watch looks: what the shim holds
  belongs to an approval on record, so that the end of the approvals is the end of
  everything that could sign unasked.
\<close>

lemma day_holds_only_approved:
  assumes "main s io now logs args mc = (Listens c cfg d, mc')"
    and "\<forall>k. \<not> cache_holds (mc_cache mc) k" and "json_scopes (ou_scope_json ou)"
  shows "gate_ok ou (day cfg ou happenings d)"
proof -
  have "gate_ok ou d"
    using main_listens [OF assms(1)] assms(2)
    by (simp add: gate_ok_def held_for_approvals_def approvals_ok_def first_daemon_def)
  from day_ok [OF assms(3) this] show ?thesis .
qed

text \<open>A day of the test machine: one signature that signs in, then the watch sees a lock.\<close>

definition test_day :: "happening list" where
  "test_day = [Client (\<lambda>_. test_readings) nobody (frame sign_payload), WatchLooks Locked (Fin 110) (Fin 110) True]"

theorem day_holds_only_approved_witness:
  "\<exists>cfg d mc'. test_start = (Listens test_conf cfg d, mc') \<and> gate_ok test_outside (day cfg test_outside test_day d)"
proof -
  obtain cfg mc' where t: "test_start = (Listens test_conf cfg
      (first_daemon test_conf (Fin 100) (None, None) empty_cache), mc')"
    using test_start_listens by blast
  from day_holds_only_approved [OF t [unfolded test_start_def] test_machine_cache test_json] t
  show ?thesis by blast
qed




section \<open>The process\<close>



end
